(* ===== verification/Prelude.thy ===== *)
theory Prelude
  imports Main "HOL-Library.Word" "HOL-Library.List_Lexorder" "HOL-Library.Product_Lexorder"
    "HOL-Library.Char_ord"
begin

text \<open>
  Shared vocabulary of the development: the machine integer types of
  \<open>cashmere/crdt/include/cashmere/types.h\<close>, the ways a C++ call can fail, and the loop and
  sequencing combinators for calls that may fail. \<open>cashmere_errors\<close> collects the facts that
  open up sequenced calls, \<open>eval_simps\<close> the equations with which the simplifier runs the model on
  concrete data.
\<close>

section \<open>Machine integers\<close>

text \<open>\<open>Id\<close>, \<open>Time\<close> and \<open>Source\<close> are unsigned; \<open>Amount\<close> and the distance of a
  connection are signed and read through \<^const>\<open>sint\<close>.\<close>

type_synonym ident = "64 word"
type_synonym time = "64 word"
type_synonym amount = "64 word"
type_synonym source = "32 word"
type_synonym distance = "16 word"

lemma unat_port: "i < 2 ^ 32 \<Longrightarrow> unat (of_nat i :: source) = i"
  by (simp add: unat_of_nat take_bit_nat_eq_self)

section \<open>Calls that may fail\<close>

text \<open>
  \<open>Out_of_range\<close> is the exception of \<open>at\<close> and of numbers that do not fit,
  \<open>Invalid_argument\<close> that of text without a number, \<open>Null_pointer\<close> the use of an empty
  \<open>shared_ptr\<close>, \<open>No_directory\<close> the exception of a listing of a directory that is not there.
  \<open>Out_of_fuel\<close> is not an event of the program: it marks a chain of remote
  calls longer than the bound given to the model, so a call that yields it for every bound
  does not return.
\<close>

datatype failure = Out_of_range | Invalid_argument | Null_pointer | No_directory | Out_of_fuel

type_synonym 'a outcome = "failure + 'a"

named_theorems cashmere_errors
named_theorems eval_simps

definition andThen :: "'a outcome \<Rightarrow> ('a \<Rightarrow> 'b outcome) \<Rightarrow> 'b outcome" where
  "andThen m f = (case m of Inl e \<Rightarrow> Inl e | Inr x \<Rightarrow> f x)"

lemma andThen_simps [simp]:
  "andThen (Inl e) f = Inl e"
  "andThen (Inr x) f = f x"
  by (simp_all add: andThen_def)

lemma andThen_Inr [cashmere_errors]:
  "andThen m f = Inr y \<longleftrightarrow> (\<exists>x. m = Inr x \<and> f x = Inr y)"
  by (cases m) auto

lemma andThen_Inl [cashmere_errors]:
  "andThen m f = Inl e \<longleftrightarrow> m = Inl e \<or> (\<exists>x. m = Inr x \<and> f x = Inl e)"
  by (cases m) auto

text \<open>A \<open>for\<close> loop over a fixed range whose body may fail.\<close>

primrec forEach :: "'i list \<Rightarrow> ('i \<Rightarrow> 's \<Rightarrow> 's outcome) \<Rightarrow> 's \<Rightarrow> 's outcome" where
  "forEach [] body s = Inr s"
| "forEach (i # is) body s = andThen (body i s) (forEach is body)"

lemma forEach_append:
  "forEach (xs @ ys) body s = andThen (forEach xs body s) (forEach ys body)"
  by (induction xs arbitrary: s) (auto simp: andThen_def split: sum.splits)

text \<open>The loop rule: an invariant of the body is an invariant of the loop.\<close>

lemma forEach_invariant:
  assumes "forEach is body s = Inr t" and "P s"
    and "\<And>i u v. i \<in> set is \<Longrightarrow> P u \<Longrightarrow> body i u = Inr v \<Longrightarrow> P v"
  shows "P t"
  using assms
proof (induction "is" arbitrary: s)
  case (Cons i "is")
  then obtain u where u: "body i s = Inr u" "forEach is body u = Inr t"
    by (auto simp: cashmere_errors)
  then have "P u" using Cons.prems(2,3) by (meson list.set_intros(1))
  with u(2) show ?case using Cons by (meson list.set_intros(2))
qed simp

text \<open>The same with an invariant that knows how far the loop has come.\<close>

lemma forEach_upto:
  assumes "forEach [m..<n] body s = Inr t" and "m \<le> n" and "P m s"
    and "\<And>i u v. m \<le> i \<Longrightarrow> i < n \<Longrightarrow> P i u \<Longrightarrow> body i u = Inr v \<Longrightarrow> P (Suc i) v"
  shows "P n t"
  using assms(2,1,4)
proof (induction n arbitrary: t rule: dec_induct)
  case base
  then show ?case using assms(3) by simp
next
  case (step n)
  then obtain u where "forEach [m..<n] body s = Inr u" "body n u = Inr t"
    by (auto simp: forEach_append cashmere_errors)
  then show ?case using step by (meson less_Suc_eq)
qed

text \<open>The total version: a body that never fails under the invariant makes a loop that never
  fails.\<close>

lemma forEach_total:
  assumes "P s"
    and "\<And>i u. i \<in> set is \<Longrightarrow> P u \<Longrightarrow> \<exists>v. body i u = Inr v \<and> P v"
  shows "\<exists>t. forEach is body s = Inr t \<and> P t"
  using assms
proof (induction "is" arbitrary: s)
  case (Cons i "is")
  then obtain u where u: "body i s = Inr u" "P u" by (meson list.set_intros(1))
  then show ?case using Cons.IH [of u] Cons.prems(2) by auto
qed simp

section \<open>Lists sorted by key\<close>

abbreviation sorted_keys :: "('k::linorder \<times> 'v) list \<Rightarrow> bool" where
  "sorted_keys xs \<equiv> sorted_wrt (<) (map fst xs)"

lemma sorted_keys_distinct: "sorted_keys xs \<Longrightarrow> distinct (map fst xs)"
  by (simp add: strict_sorted_iff)

lemma sorted_keys_unique:
  assumes "sorted_keys xs" and "sorted_keys ys" and "map_of xs = map_of ys"
  shows "xs = ys"
proof -
  have d: "distinct (map fst xs)" "distinct (map fst ys)"
    using assms(1,2) by (auto simp: sorted_keys_distinct)
  have "(a, b) \<in> set xs \<longleftrightarrow> (a, b) \<in> set ys" for a b
    using d assms(3) by (metis map_of_eq_Some_iff)
  then have s: "set xs = set ys" by auto
  moreover have "inj_on fst (set xs \<union> set ys)"
    using d(1) s by (simp add: distinct_map)
  ultimately show ?thesis
    using assms(1,2) by (auto intro: map_sorted_distinct_set_unique simp: strict_sorted_iff)
qed

end
