(* ===== verification/Ordered_Map.thy ===== *)
theory Ordered_Map
  imports Prelude
begin

text \<open>
  \<open>std::map\<close> as the sources use it: a finite map kept sorted by key. The abstract type holds
  the sequence that iteration visits, so equality of maps is the library's equality, and the
  order between maps is the library's lexicographic one. Clocks, journals, ledgers and the
  tables of connections are all instances of this type. Nothing here models a line of the
  repository; the operations are the library calls that the sources make.
\<close>

section \<open>The type\<close>

typedef (overloaded) ('k::linorder, 'v) omap = "{xs :: ('k \<times> 'v) list. sorted_keys xs}"
  morphisms entries Abs_omap
  by (rule exI [of _ "[]"]) simp

setup_lifting type_definition_omap

lemma sorted_entries [simp]: "sorted_keys (entries m)"
  using entries by auto

lemma distinct_entries [simp]: "distinct (map fst (entries m))"
  by (simp add: sorted_keys_distinct)

text \<open>\<open>find\<close>: the value stored under a key.\<close>

definition om_find :: "('k::linorder, 'v) omap \<Rightarrow> 'k \<Rightarrow> 'v option" where
  "om_find m k = map_of (entries m) k"

lemma om_eqI: "(\<And>k. om_find m k = om_find n k) \<Longrightarrow> m = n"
  by (metis (no_types, lifting) entries_inject ext om_find_def sorted_entries sorted_keys_unique)

lemma om_eq_iff: "m = n \<longleftrightarrow> (\<forall>k. om_find m k = om_find n k)"
  by (auto intro: om_eqI)

lemma om_find_iff: "om_find m k = Some v \<longleftrightarrow> (k, v) \<in> set (entries m)"
  by (simp add: om_find_def map_of_eq_Some_iff)

lemma om_find_None: "om_find m k = None \<longleftrightarrow> k \<notin> fst ` set (entries m)"
  by (simp add: om_find_def map_of_eq_None_iff)

lemma finite_dom_om_find [simp]: "finite (dom (om_find m))"
  by (simp add: om_find_def [abs_def] finite_dom_map_of)

text \<open>\<open>at\<close> throws on a missing key.\<close>

definition om_at :: "('k::linorder, 'v) omap \<Rightarrow> 'k \<Rightarrow> 'v outcome" where
  "om_at m k = (case om_find m k of None \<Rightarrow> Inl Out_of_range | Some v \<Rightarrow> Inr v)"

section \<open>Empty map, assignment through \<open>operator[]\<close>\<close>

lift_definition om_empty :: "('k::linorder, 'v) omap" is "[]"
  by simp

lemma om_find_empty [simp]: "om_find om_empty k = None"
  by (simp add: om_find_def om_empty.rep_eq)

lemma entries_empty [simp]: "entries om_empty = []"
  by (rule om_empty.rep_eq)

lemma entries_eq_Nil: "entries m = [] \<longleftrightarrow> m = om_empty"
  by (metis entries_inject om_empty.rep_eq)

fun put_sorted :: "'k::linorder \<Rightarrow> 'v \<Rightarrow> ('k \<times> 'v) list \<Rightarrow> ('k \<times> 'v) list" where
  "put_sorted k v [] = [(k, v)]"
| "put_sorted k v ((a, b) # xs) =
     (if k < a then (k, v) # (a, b) # xs
      else if k = a then (k, v) # xs
      else (a, b) # put_sorted k v xs)"

lemma keys_put_sorted: "fst ` set (put_sorted k v xs) = insert k (fst ` set xs)"
  by (induction k v xs rule: put_sorted.induct) (auto simp: insert_commute)

lemma sorted_put_sorted: "sorted_keys xs \<Longrightarrow> sorted_keys (put_sorted k v xs)"
proof (induction k v xs rule: put_sorted.induct)
  case (2 k v a b xs)
  have keys: "set (map fst (put_sorted k v xs)) = insert k (set (map fst xs))"
    using keys_put_sorted [of k v xs] by simp
  show ?case
    using 2 keys by (fastforce simp del: set_map)
qed simp

lemma map_of_put_sorted: "map_of (put_sorted k v xs) = (map_of xs)(k \<mapsto> v)"
  by (induction k v xs rule: put_sorted.induct) (auto simp: fun_eq_iff)

lift_definition om_put :: "'k::linorder \<Rightarrow> 'v \<Rightarrow> ('k, 'v) omap \<Rightarrow> ('k, 'v) omap" is put_sorted
  by (rule sorted_put_sorted)

lemma om_find_put [simp]: "om_find (om_put k v m) = (om_find m)(k \<mapsto> v)"
  by (simp add: om_find_def [abs_def] om_put.rep_eq map_of_put_sorted)

lemma om_put_not_empty [simp]: "om_put k v m \<noteq> om_empty"
  by (auto simp: om_eq_iff intro: exI [of _ k])

lemma om_put_idle: "om_find m k = Some v \<Longrightarrow> om_put k v m = m"
  by (auto simp: om_eq_iff)

lemma om_put_twice [simp]: "om_put k v (om_put k u m) = om_put k v m"
  by (auto simp: om_eq_iff)

lemma om_put_commute: "k \<noteq> l \<Longrightarrow> om_put k v (om_put l u m) = om_put l u (om_put k v m)"
  by (auto simp: om_eq_iff)

text \<open>\<open>m[k]\<close> read and updated in place, where \<open>d\<close> is the value-initialised element that a
  missing key gets.\<close>

definition om_update :: "'v \<Rightarrow> 'k::linorder \<Rightarrow> ('v \<Rightarrow> 'v) \<Rightarrow> ('k, 'v) omap \<Rightarrow> ('k, 'v) omap" where
  "om_update d k f m = om_put k (f (case om_find m k of None \<Rightarrow> d | Some v \<Rightarrow> v)) m"

section \<open>Construction, \<open>erase_if\<close>, \<open>merge\<close>, in-place loops\<close>

text \<open>Construction from an initializer list keeps the first element of each key.\<close>

definition om_insert :: "'k::linorder \<Rightarrow> 'v \<Rightarrow> ('k, 'v) omap \<Rightarrow> ('k, 'v) omap" where
  "om_insert k v m = (if om_find m k = None then om_put k v m else m)"

definition om_init :: "('k::linorder \<times> 'v) list \<Rightarrow> ('k, 'v) omap" where
  "om_init xs = fold (\<lambda>(k, v). om_insert k v) xs om_empty"

lemma om_find_insert:
  "om_find (om_insert k v m) l =
     (if l = k then (case om_find m k of None \<Rightarrow> Some v | Some u \<Rightarrow> Some u) else om_find m l)"
  by (auto simp: om_insert_def split: option.splits)

lemma om_find_fold_insert:
  "om_find (fold (\<lambda>(k, v). om_insert k v) xs m) l =
     (case om_find m l of None \<Rightarrow> map_of xs l | Some v \<Rightarrow> Some v)"
  by (induction xs arbitrary: m) (auto simp: om_find_insert split: option.splits)

lemma om_find_init [simp]: "om_find (om_init xs) = map_of xs"
  by (simp add: om_init_def om_find_fold_insert fun_eq_iff)

lemma om_init_entries [simp]: "om_init (entries m) = m"
  by (rule om_eqI) (simp, simp add: om_find_def)

text \<open>\<open>std::map::merge\<close>: the keys of the argument that are still free move over.\<close>

definition om_absorb :: "('k::linorder, 'v) omap \<Rightarrow> ('k, 'v) omap \<Rightarrow> ('k, 'v) omap" where
  "om_absorb m n = fold (\<lambda>(k, v). om_insert k v) (entries n) m"

lemma om_find_absorb:
  "om_find (om_absorb m n) k = (case om_find m k of None \<Rightarrow> om_find n k | Some v \<Rightarrow> Some v)"
  by (simp add: om_absorb_def om_find_fold_insert om_find_def [of n] split: option.split)

lemma sorted_keys_filter: "sorted_keys xs \<Longrightarrow> sorted_keys (filter P xs)"
  by (induction xs) auto

lift_definition om_filter :: "('k \<times> 'v \<Rightarrow> bool) \<Rightarrow> ('k::linorder, 'v) omap \<Rightarrow> ('k, 'v) omap"
  is filter
  by (rule sorted_keys_filter)

lemma map_of_filter_keep:
  assumes "distinct (map fst xs)" and "map_of xs key = Some val"
  shows "map_of (filter P xs) key = (if P (key, val) then Some val else None)"
  using assms by (induction xs) (force simp: map_of_eq_None_iff split: if_splits)+

lemma om_find_filter:
  "om_find (om_filter P m) key =
     Option.bind (om_find m key) (\<lambda>val. if P (key, val) then Some val else None)"
proof (cases "om_find m key")
  case None
  then have "key \<notin> fst ` set (filter P (entries m))" by (auto simp: om_find_None)
  then have "om_find (om_filter P m) key = None" unfolding om_find_None om_filter.rep_eq .
  with None show ?thesis by simp
next
  case (Some val)
  then show ?thesis
    using map_of_filter_keep [of "entries m" key val P] by (simp add: om_find_def om_filter.rep_eq)
qed

text \<open>\<open>for (auto& [k, v] : m)\<close> with a body that assigns \<open>v\<close>.\<close>

lemma map_fst_map_values: "map fst (map (\<lambda>(k, v). (k, f k v)) xs) = map fst xs"
  by (induction xs) auto

lemma map_of_map_values:
  "map_of (map (\<lambda>(k, v). (k, f k v)) xs) k = map_option (f k) (map_of xs k)"
  by (induction xs) auto

lift_definition om_map :: "('k \<Rightarrow> 'v \<Rightarrow> 'w) \<Rightarrow> ('k::linorder, 'v) omap \<Rightarrow> ('k, 'w) omap"
  is "\<lambda>f. map (\<lambda>(k, v). (k, f k v))"
  unfolding map_fst_map_values .

lemma om_find_map: "om_find (om_map f m) k = map_option (f k) (om_find m k)"
  by (simp add: om_find_def om_map.rep_eq map_of_map_values)

lemma om_map_eq_empty [simp]: "om_map f m = om_empty \<longleftrightarrow> m = om_empty"
  by (auto simp: om_eq_iff om_find_map)

lemma om_map_empty [simp]: "om_map f om_empty = om_empty"
  by simp

definition om_size :: "('k::linorder, 'v) omap \<Rightarrow> nat" where
  "om_size m = length (entries m)"

section \<open>Equality and order\<close>

instantiation omap :: (linorder, equal) equal
begin

definition "equal_omap (m :: ('a, 'b) omap) n \<longleftrightarrow> HOL.equal (entries m) (entries n)"

instance
  by standard (simp add: equal_omap_def equal_eq entries_inject)

end

text \<open>\<open>operator<\<close> of \<open>std::map\<close> compares the two sequences lexicographically.\<close>

instantiation omap :: (linorder, linorder) linorder
begin

definition "less_eq_omap (m :: ('a, 'b) omap) n \<longleftrightarrow> entries m \<le> entries n"

definition "less_omap (m :: ('a, 'b) omap) n \<longleftrightarrow> entries m < entries n"

instance
  by standard
    (auto simp: less_eq_omap_def less_omap_def entries_inject less_le_not_le)

end

instantiation omap :: (linorder, type) size
begin

definition "size_omap (m :: ('a, 'b) omap) = om_size m"

instance ..

end

text \<open>Running the operations on concrete maps: compare and compute through \<^const>\<open>entries\<close>.\<close>

lemma om_eq_entries: "m = n \<longleftrightarrow> entries m = entries n"
  by (simp add: entries_inject)

lemma entries_filter: "entries (om_filter P m) = filter P (entries m)"
  by (simp add: om_filter.rep_eq)

lemma entries_put: "entries (om_put k v m) = put_sorted k v (entries m)"
  by (simp add: om_put.rep_eq)

lemma entries_map: "entries (om_map f m) = map (\<lambda>(k, v). (k, f k v)) (entries m)"
  by (simp add: om_map.rep_eq)

declare om_eq_entries [eval_simps] entries_filter [eval_simps] entries_put [eval_simps]
  entries_map [eval_simps] less_omap_def [eval_simps] om_find_def [eval_simps] om_at_def [eval_simps]
  om_update_def [eval_simps] om_insert_def [eval_simps] om_init_def [eval_simps]
  om_absorb_def [eval_simps] om_size_def [eval_simps]

lemma om_least [simp]: "om_empty \<le> (m :: ('k::linorder, 'v::linorder) omap)"
  by (simp add: less_eq_omap_def om_empty.rep_eq)

end
