(* ===== verification/Text_Streams.thy ===== *)
theory Text_Streams
  imports Prelude
begin

text \<open>
  The part of \<open>std::istream\<close> and \<open>std::ostream\<close> that the sources use on text: \<open>peek\<close>, \<open>get\<close>,
  the end-of-file and failure bits, extraction of integers under \<open>std::hex\<close> and \<open>std::dec\<close>,
  and their insertion. The numeric scanner follows the library: white space, an optional sign,
  an optional \<open>0x\<close> under \<open>std::hex\<close>, digits; no digit or a value out of range raises the
  failure bit. \<open>stream_simps\<close> collects the rules that run a stream over known text.
\<close>

named_theorems stream_simps

section \<open>Streams\<close>

record istream =
  rest :: string
  eofbit :: bool
  failbit :: bool

abbreviation input :: "string \<Rightarrow> istream" where
  "input r \<equiv> \<lparr>rest = r, eofbit = False, failbit = False\<rparr>"

definition good :: "istream \<Rightarrow> bool" where
  "good s \<longleftrightarrow> \<not> eofbit s \<and> \<not> failbit s"

lemma good_input [simp]: "good (input r)"
  by (simp add: good_def)

text \<open>\<open>peek\<close> on a stream that is not good sets the failure bit; at the end of the text it sets
  the end bit.\<close>

definition peek :: "istream \<Rightarrow> char option \<times> istream" where
  "peek s =
     (if \<not> good s then (None, s\<lparr>failbit := True\<rparr>)
      else case rest s of
        [] \<Rightarrow> (None, s\<lparr>eofbit := True\<rparr>)
      | c # _ \<Rightarrow> (Some c, s))"

definition get :: "istream \<Rightarrow> char option \<times> istream" where
  "get s =
     (if \<not> good s then (None, s\<lparr>failbit := True\<rparr>)
      else case rest s of
        [] \<Rightarrow> (None, s\<lparr>eofbit := True, failbit := True\<rparr>)
      | c # cs \<Rightarrow> (Some c, s\<lparr>rest := cs\<rparr>))"

lemma peek_input [stream_simps]:
  "peek (input []) = (None, \<lparr>rest = [], eofbit = True, failbit = False\<rparr>)"
  "peek (input (c # cs)) = (Some c, input (c # cs))"
  by (simp_all add: peek_def)

lemma get_input [stream_simps]: "get (input (c # cs)) = (Some c, input cs)"
  by (simp add: get_def)

lemma rest_peek [simp]: "rest (snd (peek s)) = rest s"
  by (simp add: peek_def split: list.split)

lemma peek_Some: "peek s = (Some c, t) \<longleftrightarrow> good s \<and> t = s \<and> (\<exists>cs. rest s = c # cs)"
  by (auto simp: peek_def split: list.splits)

lemma length_get [simp]: "length (rest (snd (get s))) \<le> length (rest s)"
  by (simp add: get_def split: list.split)

section \<open>Digits\<close>

definition digit_value :: "char \<Rightarrow> nat option" where
  "digit_value c =
     (let n = (of_char c :: nat) in
      if 48 \<le> n \<and> n \<le> 57 then Some (n - 48)
      else if 97 \<le> n \<and> n \<le> 102 then Some (n - 87)
      else if 65 \<le> n \<and> n \<le> 70 then Some (n - 55)
      else None)"

definition digit_char :: "nat \<Rightarrow> char" where
  "digit_char d = char_of (if d < 10 then 48 + d else 87 + d)"

definition digit_in :: "nat \<Rightarrow> char \<Rightarrow> nat option" where
  "digit_in b c =
     (case digit_value c of None \<Rightarrow> None | Some d \<Rightarrow> if d < b then Some d else None)"

definition is_space :: "char \<Rightarrow> bool" where
  "is_space c \<longleftrightarrow> (of_char c :: nat) = 32 \<or> (9 \<le> (of_char c :: nat) \<and> (of_char c :: nat) \<le> 13)"

lemma of_char_digit_char:
  "d < 16 \<Longrightarrow> (of_char (digit_char d) :: nat) = (if d < 10 then 48 + d else 87 + d)"
  by (simp add: digit_char_def)

lemma digit_value_digit_char: "d < 16 \<Longrightarrow> digit_value (digit_char d) = Some d"
  by (simp add: digit_value_def of_char_digit_char Let_def)

lemma digit_in_digit_char: "d < b \<Longrightarrow> b \<le> 16 \<Longrightarrow> digit_in b (digit_char d) = Some d"
  by (simp add: digit_in_def digit_value_digit_char)

lemma digit_char_no_space: "d < 16 \<Longrightarrow> \<not> is_space (digit_char d)"
  by (simp add: is_space_def of_char_digit_char)

lemma digit_char_neq:
  assumes "d < 16"
  shows "digit_char d \<noteq> CHR ''-''" "digit_char d \<noteq> CHR ''+''"
    "digit_char d \<noteq> CHR ''x''" "digit_char d \<noteq> CHR ''X''"
proof -
  have "(of_char (digit_char d) :: nat) \<noteq> of_char c"
    if "c = CHR ''-'' \<or> c = CHR ''+'' \<or> c = CHR ''x'' \<or> c = CHR ''X''" for c
    using that assms by (auto simp: of_char_digit_char)
  then show "digit_char d \<noteq> CHR ''-''" "digit_char d \<noteq> CHR ''+''"
    "digit_char d \<noteq> CHR ''x''" "digit_char d \<noteq> CHR ''X''"
    by metis+
qed

section \<open>Insertion of integers\<close>

function digits :: "nat \<Rightarrow> nat \<Rightarrow> nat list" where
  "digits b n = (if b < 2 \<or> n < b then [n] else digits b (n div b) @ [n mod b])"
  by pat_completeness auto
termination
  by (relation "measure snd") (auto simp: div_less_dividend)

declare digits.simps [simp del]

definition digits_value :: "nat \<Rightarrow> nat list \<Rightarrow> nat" where
  "digits_value b ds = foldl (\<lambda>a d. a * b + d) 0 ds"

lemma digits_value_snoc: "digits_value b (ds @ [d]) = digits_value b ds * b + d"
  by (simp add: digits_value_def)

lemma digits_value_digits [simp]: "digits_value b (digits b n) = n"
proof (induction b n rule: digits.induct)
  case (1 b n)
  show ?case
  proof (cases "b < 2 \<or> n < b")
    case True
    then show ?thesis by (simp add: digits.simps [of b n] digits_value_def)
  next
    case False
    with 1 show ?thesis
      by (simp add: digits.simps [of b n] digits_value_snoc)
  qed
qed

lemma digits_not_Nil [simp]: "digits b n \<noteq> []"
  by (simp add: digits.simps [of b n])

lemma digits_less: "2 \<le> b \<Longrightarrow> d \<in> set (digits b n) \<Longrightarrow> d < b"
proof (induction b n rule: digits.induct)
  case (1 b n)
  then show ?case
    by (cases "n < b") (auto simp: digits.simps [of b n])
qed

lemma hd_digits_zero: "2 \<le> b \<Longrightarrow> hd (digits b n) = 0 \<Longrightarrow> digits b n = [0]"
proof (induction b n rule: digits.induct)
  case (1 b n)
  show ?case
  proof (cases "n < b")
    case True
    then have "digits b n = [n]" by (simp add: digits.simps [of b n])
    with 1 show ?thesis by simp
  next
    case False
    with "1.prems" have "hd (digits b (n div b)) = 0"
      by (simp add: digits.simps [of b n])
    with 1 False have "digits b (n div b) = [0]" by simp
    then have "n div b = 0" by (metis digits_value_digits digits_value_snoc add_0 append_Nil
          digits_value_def foldl.simps(1) mult_0)
    with False "1.prems" have "n = 0" by (simp add: div_eq_0_iff)
    then show ?thesis using "1.prems" by (simp add: digits.simps [of b 0])
  qed
qed

definition show_nat :: "nat \<Rightarrow> nat \<Rightarrow> string" where
  "show_nat b n = map digit_char (digits b n)"

definition show_hex :: "64 word \<Rightarrow> string" where
  "show_hex w = show_nat 16 (unat w)"

definition show_dec :: "64 word \<Rightarrow> string" where
  "show_dec w = show_nat 10 (unat w)"

definition show_signed :: "64 word \<Rightarrow> string" where
  "show_signed w =
     (if sint w < 0 then CHR ''-'' # show_nat 10 (nat (- sint w)) else show_nat 10 (nat (sint w)))"

section \<open>Extraction of integers\<close>

fun scan_digits :: "nat \<Rightarrow> string \<Rightarrow> nat list \<times> string" where
  "scan_digits b [] = ([], [])"
| "scan_digits b (c # cs) =
     (case digit_in b c of
        None \<Rightarrow> ([], c # cs)
      | Some d \<Rightarrow> (let (ds, r) = scan_digits b cs in (d # ds, r)))"

fun scan_sign :: "string \<Rightarrow> bool \<times> string" where
  "scan_sign [] = (False, [])"
| "scan_sign (c # cs) =
     (if c = CHR ''-'' then (True, cs) else if c = CHR ''+'' then (False, cs) else (False, c # cs))"

fun scan_prefix :: "nat \<Rightarrow> string \<Rightarrow> string" where
  "scan_prefix b (z # x # cs) =
     (if b = 16 \<and> z = CHR ''0'' \<and> (x = CHR ''x'' \<or> x = CHR ''X'') then cs else z # x # cs)"
| "scan_prefix b cs = cs"

text \<open>\<open>conv\<close> turns sign and magnitude into the value and says whether they fit.\<close>

definition extract_number :: "nat \<Rightarrow> (bool \<Rightarrow> nat \<Rightarrow> 64 word \<times> bool) \<Rightarrow> 64 word \<Rightarrow> istream \<Rightarrow> 64 word \<times> istream"
  where
  "extract_number b conv old s =
     (if \<not> good s then (old, s\<lparr>failbit := True\<rparr>)
      else let t = dropWhile is_space (rest s) in
        if t = [] then (old, \<lparr>rest = [], eofbit = True, failbit = True\<rparr>)
        else let (neg, u) = scan_sign t; (ds, r) = scan_digits b (scan_prefix b u) in
          if ds = [] then (0, \<lparr>rest = r, eofbit = (r = []), failbit = True\<rparr>)
          else let (v, ok) = conv neg (digits_value b ds) in
            (v, \<lparr>rest = r, eofbit = (r = []), failbit = \<not> ok\<rparr>))"

definition conv_unsigned :: "bool \<Rightarrow> nat \<Rightarrow> 64 word \<times> bool" where
  "conv_unsigned neg n =
     (if n < 2 ^ 64 then (if neg then - of_nat n else of_nat n, True) else (- 1, False))"

definition conv_signed :: "bool \<Rightarrow> nat \<Rightarrow> 64 word \<times> bool" where
  "conv_signed neg n =
     (if neg then (if n \<le> 2 ^ 63 then (- of_nat n, True) else (of_nat (2 ^ 63), False))
      else (if n < 2 ^ 63 then (of_nat n, True) else (of_nat (2 ^ 63 - 1), False)))"

definition extract_hex :: "64 word \<Rightarrow> istream \<Rightarrow> 64 word \<times> istream" where
  "extract_hex = extract_number 16 conv_unsigned"

definition extract_dec :: "64 word \<Rightarrow> istream \<Rightarrow> 64 word \<times> istream" where
  "extract_dec = extract_number 10 conv_unsigned"

definition extract_signed :: "64 word \<Rightarrow> istream \<Rightarrow> 64 word \<times> istream" where
  "extract_signed = extract_number 10 conv_signed"

subsection \<open>The scanner never lengthens the text\<close>

lemma length_scan_digits: "length (snd (scan_digits b s)) \<le> length s"
  by (induction b s rule: scan_digits.induct) (auto split: option.split prod.split simp: Let_def)

lemma length_scan_sign: "length (snd (scan_sign s)) \<le> length s"
  by (induction s rule: scan_sign.induct) auto

lemma length_scan_prefix: "length (scan_prefix b s) \<le> length s"
  by (induction b s rule: scan_prefix.induct) auto

lemma length_extract_number: "length (rest (snd (extract_number b conv old s))) \<le> length (rest s)"
proof -
  define t where "t = dropWhile is_space (rest s)"
  have t: "length t \<le> length (rest s)" by (simp add: t_def length_dropWhile_le)
  have "length (snd (scan_digits b (scan_prefix b (snd (scan_sign t))))) \<le> length t"
    using length_scan_digits length_scan_prefix length_scan_sign by (meson order_trans)
  with t show ?thesis
    by (auto simp: extract_number_def t_def [symmetric] Let_def split: prod.split)
qed

subsection \<open>What was inserted is extracted again\<close>

definition number_ends :: "nat \<Rightarrow> string \<Rightarrow> bool" where
  "number_ends b r \<longleftrightarrow>
     (case r of [] \<Rightarrow> True | c # _ \<Rightarrow> digit_in b c = None \<and> c \<noteq> CHR ''x'' \<and> c \<noteq> CHR ''X'')"

lemma scan_digits_map:
  assumes "\<forall>d \<in> set ds. d < b" and "b \<le> 16" and "number_ends b r"
  shows "scan_digits b (map digit_char ds @ r) = (ds, r)"
  using assms
proof (induction ds)
  case Nil
  then show ?case by (cases r) (auto simp: number_ends_def)
qed (simp add: digit_in_digit_char)

lemma scan_prefix_show_nat:
  assumes "2 \<le> b" and "b \<le> 16" and "number_ends b r"
  shows "scan_prefix b (show_nat b n @ r) = show_nat b n @ r"
proof -
  have less: "d < 16" if "d \<in> set (digits b n)" for d
    using digits_less [OF assms(1) that] assms(2) by simp
  obtain d ds where ds: "digits b n = d # ds" by (cases "digits b n") simp_all
  show ?thesis
  proof (cases ds)
    case Nil
    then show ?thesis using assms(3) ds
      by (cases r) (auto simp: show_nat_def number_ends_def)
  next
    case (Cons e es)
    then have "digit_char e \<noteq> CHR ''x''" "digit_char e \<noteq> CHR ''X''"
      using less ds by (auto dest: digit_char_neq)
    then show ?thesis by (simp add: show_nat_def ds Cons)
  qed
qed

lemma show_nat_Cons:
  assumes "2 \<le> b" and "b \<le> 16"
  obtains d cs where "show_nat b n = digit_char d # cs" and "d < 16"
proof -
  obtain d ds where ds: "digits b n = d # ds" by (cases "digits b n") simp_all
  moreover have "d < 16" using digits_less [of b d n] assms ds by simp
  ultimately show thesis using that by (simp add: show_nat_def)
qed

lemma extract_number_run:
  assumes "dropWhile is_space t = u" and "u \<noteq> []" and "scan_sign u = (neg, v)"
    and "scan_digits b (scan_prefix b v) = (ds, r)" and "ds \<noteq> []"
  shows "extract_number b conv old (input t) =
           (let (x, ok) = conv neg (digits_value b ds) in
              (x, \<lparr>rest = r, eofbit = (r = []), failbit = \<not> ok\<rparr>))"
  using assms by (simp add: extract_number_def)

lemma scan_show_nat:
  assumes "2 \<le> b" and "b \<le> 16" and "number_ends b r"
  shows "scan_digits b (scan_prefix b (show_nat b n @ r)) = (digits b n, r)"
  unfolding scan_prefix_show_nat [OF assms] unfolding show_nat_def
  using assms digits_less by (intro scan_digits_map) auto

lemma extract_show_nat:
  assumes "2 \<le> b" and "b \<le> 16" and "number_ends b r"
  shows "extract_number b conv old (input (show_nat b n @ r)) =
           (let (v, ok) = conv False n in (v, \<lparr>rest = r, eofbit = (r = []), failbit = \<not> ok\<rparr>))"
proof -
  obtain d cs where d: "show_nat b n = digit_char d # cs" "d < 16"
    using show_nat_Cons assms(1,2) .
  then have "dropWhile is_space (show_nat b n @ r) = show_nat b n @ r"
    and "scan_sign (show_nat b n @ r) = (False, show_nat b n @ r)"
    by (simp_all add: digit_char_no_space digit_char_neq)
  from extract_number_run [OF this(1) _ this(2) scan_show_nat [OF assms]] d(1)
  show ?thesis by simp
qed

lemma extract_minus_show_nat:
  assumes "2 \<le> b" and "b \<le> 16" and "number_ends b r"
  shows "extract_number b conv old (input (CHR ''-'' # show_nat b n @ r)) =
           (let (v, ok) = conv True n in (v, \<lparr>rest = r, eofbit = (r = []), failbit = \<not> ok\<rparr>))"
proof -
  let ?t = "CHR ''-'' # show_nat b n @ r"
  have "dropWhile is_space ?t = ?t" and "scan_sign ?t = (True, show_nat b n @ r)"
    by (simp_all add: is_space_def)
  from extract_number_run [OF this(1) _ this(2) scan_show_nat [OF assms]]
  show ?thesis by simp
qed

lemma extract_space [stream_simps]:
  "extract_hex old (input (CHR '' '' # r)) = extract_hex old (input r)"
  "extract_dec old (input (CHR '' '' # r)) = extract_dec old (input r)"
  "extract_signed old (input (CHR '' '' # r)) = extract_signed old (input r)"
  by (simp_all add: extract_hex_def extract_dec_def extract_signed_def extract_number_def
      is_space_def)

lemma number_ends_Cons [simp]:
  "number_ends b (CHR '','' # r)" "number_ends b (CHR ''}'' # r)" "number_ends b (CHR '' '' # r)"
  by (simp_all add: number_ends_def digit_in_def digit_value_def)

lemma conv_unsigned_word: "conv_unsigned False (unat w) = (w, True)"
  using unsigned_less [of w] by (simp add: conv_unsigned_def)

lemma extract_hex_show [stream_simps]:
  "number_ends 16 r \<Longrightarrow> r \<noteq> [] \<Longrightarrow> extract_hex old (input (show_hex w @ r)) = (w, input r)"
  by (simp add: extract_hex_def show_hex_def extract_show_nat conv_unsigned_word)

lemma extract_dec_show [stream_simps]:
  "number_ends 10 r \<Longrightarrow> r \<noteq> [] \<Longrightarrow> extract_dec old (input (show_dec w @ r)) = (w, input r)"
  by (simp add: extract_dec_def show_dec_def extract_show_nat conv_unsigned_word)

text \<open>Numbers that do not fit raise the failure bit.\<close>

lemma extract_hex_overflow [stream_simps]:
  "2 ^ 64 \<le> n \<Longrightarrow> number_ends 16 r \<Longrightarrow> r \<noteq> [] \<Longrightarrow>
     extract_hex old (input (show_nat 16 n @ r)) = (- 1, (input r)\<lparr>failbit := True\<rparr>)"
  by (simp add: extract_hex_def extract_show_nat conv_unsigned_def)

lemma extract_dec_overflow [stream_simps]:
  "2 ^ 64 \<le> n \<Longrightarrow> number_ends 10 r \<Longrightarrow> r \<noteq> [] \<Longrightarrow>
     extract_dec old (input (show_nat 10 n @ r)) = (- 1, (input r)\<lparr>failbit := True\<rparr>)"
  by (simp add: extract_dec_def extract_show_nat conv_unsigned_def)

lemma extract_signed_overflow [stream_simps]:
  "2 ^ 63 \<le> n \<Longrightarrow> number_ends 10 r \<Longrightarrow> r \<noteq> [] \<Longrightarrow>
     extract_signed old (input (show_nat 10 n @ r)) =
       (of_nat (2 ^ 63 - 1), (input r)\<lparr>failbit := True\<rparr>)"
  by (simp add: extract_signed_def extract_show_nat conv_signed_def)

lemma sint_64_bounds: "- (2 ^ 63) \<le> sint (w :: 64 word)" "sint (w :: 64 word) < 2 ^ 63"
  using sint_ge [of w] sint_lt [of w] by simp_all

lemma extract_signed_show [stream_simps]:
  assumes "number_ends 10 r" and "r \<noteq> []"
  shows "extract_signed old (input (show_signed w @ r)) = (w, input r)"
proof (cases "sint w < 0")
  case True
  define n where "n = nat (- sint w)"
  have n: "n \<le> 2 ^ 63" using sint_64_bounds(1) [of w] by (simp add: n_def)
  have "- of_nat n = w" using True by (simp add: n_def)
  then show ?thesis using True n assms
    by (simp add: extract_signed_def show_signed_def extract_minus_show_nat conv_signed_def
        flip: n_def)
next
  case False
  define n where "n = nat (sint w)"
  have n: "n < 2 ^ 63" using sint_64_bounds(2) [of w] False by (simp add: n_def)
  have "of_nat n = w" using False by (simp add: n_def)
  then show ?thesis using False n assms
    by (simp add: extract_signed_def show_signed_def extract_show_nat conv_signed_def
        flip: n_def)
qed

end
