(* ===== verification/File_Utils.thy ===== *)
theory File_Utils
  imports Text_Streams
begin

text \<open>
  \<open>cashmere/utils/src/fileutils.cpp\<close>: the character-level readers that the parsers of clocks,
  data and entries are built from, and the line and file name helpers of the file journal.
  A reader takes the stream and returns its result with the stream it leaves.
\<close>

section \<open>Readers\<close>

function ReadSpaces_loop :: "istream \<Rightarrow> bool \<Rightarrow> bool \<times> istream" where
  "ReadSpaces_loop s spaceRead =
     (case peek s of
        (Some c, t) \<Rightarrow> if c = CHR '' '' then ReadSpaces_loop (snd (get t)) True else (spaceRead, t)
      | (None, t) \<Rightarrow> (spaceRead, t))"
  by pat_completeness auto
termination
  by (relation "measure (length \<circ> rest \<circ> fst)")
    (auto simp: peek_Some get_def dest!: sym [of _ "peek _"])

declare ReadSpaces_loop.simps [simp del]

definition ReadSpaces :: "istream \<Rightarrow> bool \<times> istream" where
  "ReadSpaces s = ReadSpaces_loop s False"

definition ReadChar :: "istream \<Rightarrow> char \<Rightarrow> bool \<times> istream" where
  "ReadChar s expected =
     (let (_, t) = ReadSpaces s; (c, u) = peek t in
      if c = Some expected then (True, snd (get u)) else (False, u))"

definition ReadPair :: "istream \<Rightarrow> ident \<Rightarrow> time \<Rightarrow> bool \<times> ident \<times> time \<times> istream" where
  "ReadPair s0 id0 time0 =
     (let (ok, s1) = ReadChar s0 CHR ''{'' in
      if \<not> ok then (False, id0, time0, s1)
      else let (id, s2) = extract_hex id0 s1 in
      if failbit s2 then (False, id, time0, s2)
      else let (ok, s3) = ReadChar s2 CHR '','' in
      if \<not> ok then (False, id, time0, s3)
      else let (time, s4) = extract_dec time0 s3 in
      if failbit s4 then (False, id, time, s4)
      else let (ok, s5) = ReadChar s4 CHR ''}'' in
      if \<not> ok then (False, id, time, s5)
      else (True, id, time, s5))"

subsection \<open>Readers only move forward\<close>

lemma length_ReadSpaces_loop: "length (rest (snd (ReadSpaces_loop s b))) \<le> length (rest s)"
proof (induction s b rule: ReadSpaces_loop.induct)
  case (1 s b)
  obtain c t where p: "peek s = (c, t)" by (cases "peek s")
  then have t: "rest t = rest s" by (metis rest_peek snd_conv)
  show ?case
  proof (cases "c = Some CHR '' ''")
    case True
    then have "length (rest (snd (ReadSpaces_loop s b))) \<le> length (rest (snd (get t)))"
      using 1 p by (simp add: ReadSpaces_loop.simps [of s])
    then show ?thesis using length_get [of t] t by simp
  next
    case False
    then show ?thesis using p t
      by (auto simp: ReadSpaces_loop.simps [of s] split: option.split)
  qed
qed

lemma length_ReadSpaces: "length (rest (snd (ReadSpaces s))) \<le> length (rest s)"
  by (simp add: ReadSpaces_def length_ReadSpaces_loop)

lemma length_get_Some: "peek s = (Some c, t) \<Longrightarrow> length (rest (snd (get t))) < length (rest s)"
  by (auto simp: peek_Some get_def)

lemma length_ReadChar:
  assumes "ReadChar s c = (ok, t)"
  shows "length (rest t) \<le> length (rest s)" and "ok \<Longrightarrow> length (rest t) < length (rest s)"
proof -
  obtain b u where r: "ReadSpaces s = (b, u)" by (cases "ReadSpaces s")
  obtain d v where p: "peek u = (d, v)" by (cases "peek u")
  have u: "length (rest u) \<le> length (rest s)" using length_ReadSpaces [of s] r by simp
  have v: "rest v = rest u" using rest_peek [of u] p by simp
  show "length (rest t) \<le> length (rest s)"
    using assms r p u v length_get [of v] by (auto simp: ReadChar_def split: if_splits)
  show "length (rest t) < length (rest s)" if ok
    using assms that r p u length_get_Some [of u c v]
    by (auto simp: ReadChar_def split: if_splits)
qed

lemma length_extract_hex: "length (rest (snd (extract_hex w s))) \<le> length (rest s)"
  and length_extract_dec: "length (rest (snd (extract_dec w s))) \<le> length (rest s)"
  and length_extract_signed: "length (rest (snd (extract_signed w s))) \<le> length (rest s)"
  by (simp_all add: extract_hex_def extract_dec_def extract_signed_def length_extract_number)

lemma length_ReadPair:
  assumes "ReadPair s id0 time0 = (ok, j, m, t)"
  shows "length (rest t) \<le> length (rest s)" and "ok \<Longrightarrow> length (rest t) < length (rest s)"
proof -
  obtain ok1 s1 where s1: "ReadChar s CHR ''{'' = (ok1, s1)" by fastforce
  obtain i s2 where s2: "extract_hex id0 s1 = (i, s2)" by fastforce
  obtain ok3 s3 where s3: "ReadChar s2 CHR '','' = (ok3, s3)" by fastforce
  obtain n s4 where s4: "extract_dec time0 s3 = (n, s4)" by fastforce
  obtain ok5 s5 where s5: "ReadChar s4 CHR ''}'' = (ok5, s5)" by fastforce
  note le = length_ReadChar(1) [OF s1] length_extract_hex [of id0 s1, unfolded s2 snd_conv]
    length_ReadChar(1) [OF s3] length_extract_dec [of time0 s3, unfolded s4 snd_conv]
    length_ReadChar(1) [OF s5]
  note lt = length_ReadChar(2) [OF s1]
  show "length (rest t) \<le> length (rest s)"
    using assms le by (auto simp: ReadPair_def s1 s2 s3 s4 s5 split: if_splits)
  show "length (rest t) < length (rest s)" if ok
    using assms that le lt by (auto simp: ReadPair_def s1 s2 s3 s4 s5 split: if_splits)
qed

subsection \<open>Readers over known text\<close>

lemma ReadSpaces_loop_input [stream_simps]:
  "ReadSpaces_loop (input (c # cs)) b =
     (if c = CHR '' '' then ReadSpaces_loop (input cs) True else (b, input (c # cs)))"
  "ReadSpaces_loop (input []) b = (b, \<lparr>rest = [], eofbit = True, failbit = False\<rparr>)"
  by (simp_all add: ReadSpaces_loop.simps [of "input _"] stream_simps)

lemma ReadSpaces_input:
  "c \<noteq> CHR '' '' \<Longrightarrow> ReadSpaces (input (c # cs)) = (False, input (c # cs))"
  by (simp add: ReadSpaces_def stream_simps)

lemma ReadSpaces_not_good: "\<not> good s \<Longrightarrow> ReadSpaces s = (False, s\<lparr>failbit := True\<rparr>)"
  by (simp add: ReadSpaces_def ReadSpaces_loop.simps [of s] peek_def)

lemma ReadSpaces_space:
  "snd (ReadSpaces (input (CHR '' '' # cs))) = snd (ReadSpaces (input cs))"
proof -
  have "snd (ReadSpaces_loop (input cs) b) = snd (ReadSpaces_loop (input cs) False)" for b
    by (induction cs) (simp_all add: stream_simps)
  from this [of True] show ?thesis by (simp add: ReadSpaces_def stream_simps)
qed

lemma ReadChar_input [stream_simps]:
  "ReadChar (input (CHR '' '' # cs)) c = ReadChar (input cs) c"
  "d \<noteq> CHR '' '' \<Longrightarrow>
     ReadChar (input (d # cs)) c = (if d = c then (True, input cs) else (False, input (d # cs)))"
  "ReadChar (input []) c = (False, \<lparr>rest = [], eofbit = True, failbit = True\<rparr>)"
proof -
  show "ReadChar (input (CHR '' '' # cs)) c = ReadChar (input cs) c"
    using ReadSpaces_space [of cs] by (simp add: ReadChar_def split_def)
  show "d \<noteq> CHR '' '' \<Longrightarrow>
     ReadChar (input (d # cs)) c = (if d = c then (True, input cs) else (False, input (d # cs)))"
    by (simp add: ReadChar_def ReadSpaces_input stream_simps)
  show "ReadChar (input []) c = (False, \<lparr>rest = [], eofbit = True, failbit = True\<rparr>)"
    by (simp add: ReadChar_def ReadSpaces_def stream_simps) (simp add: peek_def good_def)
qed

lemma ReadChar_not_good: "\<not> good s \<Longrightarrow> ReadChar s c = (False, s\<lparr>failbit := True\<rparr>)"
  by (cases s) (simp add: ReadChar_def ReadSpaces_not_good peek_def good_def)

lemma digit_char_not_space: "d < 16 \<Longrightarrow> digit_char d \<noteq> CHR '' ''"
  using digit_char_no_space [of d] by (auto simp: is_space_def)

lemma ReadPair_show [stream_simps]:
  "ReadPair (input (''{'' @ show_hex i @ '', '' @ show_dec n @ ''}'' @ r)) id0 time0 =
     (True, i, n, input r)"
  by (simp add: ReadPair_def stream_simps)

section \<open>Lines and file names\<close>

text \<open>A file stream just opened for reading; \<open>None\<close> is a file that does not exist.\<close>

definition open_file :: "string option \<Rightarrow> istream" where
  "open_file f =
     (case f of None \<Rightarrow> \<lparr>rest = [], eofbit = False, failbit = True\<rparr> | Some t \<Rightarrow> input t)"

definition ignore_line :: "istream \<Rightarrow> istream" where
  "ignore_line s =
     (if \<not> good s then s\<lparr>failbit := True\<rparr>
      else case dropWhile (\<lambda>c. c \<noteq> CHR ''\<newline>'') (rest s) of
        [] \<Rightarrow> s\<lparr>rest := [], eofbit := True\<rparr>
      | _ # cs \<Rightarrow> s\<lparr>rest := cs\<rparr>)"

function SeekToLine_loop :: "istream \<Rightarrow> nat \<Rightarrow> nat \<times> istream" where
  "SeekToLine_loop s line =
     (if 1 < line \<and> good s then SeekToLine_loop (ignore_line s) (line - 1) else (line, s))"
  by pat_completeness auto
termination
  by (relation "measure snd") auto

declare SeekToLine_loop.simps [simp del]

text \<open>\<open>seekg\<close> to the beginning of a stream that was just opened leaves it where it is.\<close>

definition SeekToLine :: "istream \<Rightarrow> nat \<Rightarrow> bool \<times> istream" where
  "SeekToLine s line = (let (l, t) = SeekToLine_loop s line in (l = 1, t))"

definition join_path :: "string \<Rightarrow> string \<Rightarrow> string" where
  "join_path base name =
     (if base = [] \<or> last base = CHR ''/'' then base @ name else base @ CHR ''/'' # name)"

definition Filename :: "string \<Rightarrow> ident \<Rightarrow> string" where
  "Filename base i = join_path base (replicate (16 - length (show_hex i)) CHR ''0'' @ show_hex i)"

definition LineCount :: "string option \<Rightarrow> nat" where
  "LineCount f = (case f of None \<Rightarrow> 0 | Some t \<Rightarrow> length (filter (\<lambda>c. c = CHR ''\<newline>'') t))"

section \<open>Directories\<close>

text \<open>\<open>parent_path\<close>: without the last name and the separator before it, unless that is the root.\<close>

definition parent_path :: "string \<Rightarrow> string" where
  "parent_path p =
     (let upto = dropWhile (\<lambda>c. c \<noteq> CHR ''/'') (rev p); above = dropWhile (\<lambda>c. c = CHR ''/'') upto in
      if above = [] then take 1 upto else rev above)"

text \<open>\<open>exe\<close> is where the link \<open>/proc/self/exe\<close> leads, \<open>listing\<close> the names that the file system lists
  for a directory.\<close>

definition InstallDirectory :: "string \<Rightarrow> string" where
  "InstallDirectory exe = parent_path (parent_path exe)"

definition ListFiles :: "(string \<Rightarrow> string list option) \<Rightarrow> string \<Rightarrow> string list outcome" where
  "ListFiles listing path =
     (case listing path of None \<Rightarrow> Inl No_directory | Some names \<Rightarrow> Inr (map (join_path path) names))"

lemma parent_path_join:
  assumes "CHR ''/'' \<notin> set name" and "base \<noteq> []" and "last base \<noteq> CHR ''/''"
  shows "parent_path (join_path base name) = base"
proof -
  have "dropWhile (\<lambda>c. c \<noteq> CHR ''/'') (rev name @ CHR ''/'' # rev base) = CHR ''/'' # rev base"
    using assms(1) by (subst dropWhile_append2) auto
  moreover have "dropWhile (\<lambda>c. c = CHR ''/'') (rev base) = rev base"
    using assms(2,3) by (cases base rule: rev_cases) auto
  moreover have "\<not> (\<forall>c \<in> set base. c = CHR ''/'')" using assms(2,3) last_in_set [of base] by blast
  ultimately show ?thesis using assms(2,3) by (auto simp: parent_path_def join_path_def Let_def)
qed

text \<open>Under a directory tree \<open>root/bin\<close> the installation is \<open>root\<close>.\<close>

lemma InstallDirectory_bin:
  assumes "CHR ''/'' \<notin> set name" and "root \<noteq> []" and "last root \<noteq> CHR ''/''"
  shows "InstallDirectory (join_path (join_path root ''bin'') name) = root"
proof -
  have "join_path root ''bin'' = root @ ''/bin''" using assms(2,3) by (simp add: join_path_def)
  then have "parent_path (join_path (join_path root ''bin'') name) = join_path root ''bin''"
    using assms(1) by (intro parent_path_join) simp_all
  then show ?thesis using parent_path_join [OF _ assms(2,3), of "''bin''"] by (simp add: InstallDirectory_def)
qed

end
