(* ===== verification/Clock.thy ===== *)
theory Clock
  imports Ordered_Map File_Utils "HOL-Library.Option_ord"
begin

text \<open>
  \<open>cashmere/crdt/src/clock.cpp\<close>: the vector clocks that order the entries of all journals.
  A clock is a \<open>std::map\<close> from device to counter. The lemmas show that \<open>merge\<close> is the join
  and \<open>smallerThan\<close> the strict part of the pointwise order, where an absent counter is below
  every counter, and that the text form is read back. \<open>clock_simps\<close> holds the pointwise
  characterisations.
\<close>

named_theorems clock_simps

type_synonym clock = "(ident, time) omap"

section \<open>Operations\<close>

definition Clock_init :: "(ident \<times> time) list \<Rightarrow> clock" where
  "Clock_init list = om_filter (\<lambda>(i, t). \<not> (i \<noteq> 0 \<and> t = 0)) (om_init list)"

definition Clock_merge :: "clock \<Rightarrow> clock \<Rightarrow> clock" where
  "Clock_merge self other =
     fold (\<lambda>(i, count) out.
        om_put i (max (case om_find self i of None \<Rightarrow> 0 | Some t \<Rightarrow> t) count) out)
       (entries other) self"

definition Clock_tick :: "clock \<Rightarrow> ident \<Rightarrow> clock" where
  "Clock_tick self i = om_update 0 i (\<lambda>t. t + 1) self"

definition Clock_smallerThan :: "clock \<Rightarrow> clock \<Rightarrow> bool" where
  "Clock_smallerThan self other \<longleftrightarrow> self \<noteq> other \<and> Clock_merge self other = other"

definition Clock_concurrent :: "clock \<Rightarrow> clock \<Rightarrow> bool" where
  "Clock_concurrent self other \<longleftrightarrow>
     self \<noteq> other \<and> \<not> Clock_smallerThan self other \<and> \<not> Clock_smallerThan other self"

definition Clock_valid :: "clock \<Rightarrow> bool" where
  "Clock_valid self \<longleftrightarrow> om_find self 0 = None"

definition Clock_isNext :: "clock \<Rightarrow> clock \<Rightarrow> ident \<Rightarrow> bool" where
  "Clock_isNext self other i =
     (case om_find self i of
        None \<Rightarrow> False
      | Some t \<Rightarrow> (case om_find other i of None \<Rightarrow> t = 1 | Some u \<Rightarrow> t = u + 1))"

text \<open>The clock \<open>{{0, 0}}\<close> that operations return to refuse a call.\<close>

definition refused :: clock where
  "refused = Clock_init [(0, 0)]"

declare Clock_init_def [eval_simps] Clock_merge_def [eval_simps] Clock_tick_def [eval_simps]
  Clock_smallerThan_def [eval_simps] Clock_concurrent_def [eval_simps] Clock_valid_def
  [eval_simps] Clock_isNext_def [eval_simps] refused_def [eval_simps]

lemma refused_invalid [simp]: "\<not> Clock_valid refused"
  by (simp add: refused_def Clock_valid_def Clock_init_def om_find_filter)

section \<open>The pointwise order\<close>

definition clock_le :: "clock \<Rightarrow> clock \<Rightarrow> bool" where
  "clock_le a b \<longleftrightarrow> (\<forall>i. om_find a i \<le> om_find b i)"

lemma find_fold_put:
  assumes "distinct (map fst xs)"
  shows "om_find (fold (\<lambda>(i, c) out. om_put i (f i c) out) xs m) k =
           (case map_of xs k of None \<Rightarrow> om_find m k | Some c \<Rightarrow> Some (f k c))"
  using assms
proof (induction xs arbitrary: m)
  case (Cons p xs)
  obtain i c where p: "p = (i, c)" by (cases p)
  then have "map_of xs i = None" using Cons.prems by (simp add: map_of_eq_None_iff)
  then show ?case using Cons p by (cases "k = i") (simp_all split: option.split)
qed simp

lemma find_merge [clock_simps]:
  "om_find (Clock_merge a b) i = max (om_find a i) (om_find b i)"
proof -
  have "om_find (Clock_merge a b) i =
      (case om_find b i of None \<Rightarrow> om_find a i
       | Some c \<Rightarrow> Some (max (case om_find a i of None \<Rightarrow> 0 | Some t \<Rightarrow> t) c))"
    using find_fold_put [of "entries b" "\<lambda>i c. max (case om_find a i of None \<Rightarrow> 0 | Some t \<Rightarrow> t) c" a i]
    by (simp add: Clock_merge_def om_find_def)
  then show ?thesis
    by (auto simp: max_def split: option.splits)
qed

lemma find_tick [clock_simps]:
  "om_find (Clock_tick c i) j =
     (if j = i then Some ((case om_find c i of None \<Rightarrow> 0 | Some t \<Rightarrow> t) + 1) else om_find c j)"
  by (simp add: Clock_tick_def om_update_def)

lemma clock_le_refl [simp, intro]: "clock_le a a"
  by (simp add: clock_le_def)

lemma clock_le_trans [trans]: "clock_le a b \<Longrightarrow> clock_le b c \<Longrightarrow> clock_le a c"
  by (meson clock_le_def order_trans)

lemma clock_le_antisym: "clock_le a b \<Longrightarrow> clock_le b a \<Longrightarrow> a = b"
  by (rule om_eqI) (simp add: clock_le_def order_antisym)

lemma clock_le_empty [simp, intro]: "clock_le om_empty a"
  by (simp add: clock_le_def)

lemma clock_le_merge_iff: "Clock_merge a b = b \<longleftrightarrow> clock_le a b"
  unfolding om_eq_iff clock_le_def find_merge by (metis max.absorb2 max.cobounded1)

lemma merge_upper [simp, intro]: "clock_le a (Clock_merge a b)" "clock_le b (Clock_merge a b)"
  by (simp_all add: clock_le_def clock_simps)

lemma merge_least: "clock_le a c \<Longrightarrow> clock_le b c \<Longrightarrow> clock_le (Clock_merge a b) c"
  by (simp add: clock_le_def clock_simps)

lemma merge_commute: "Clock_merge a b = Clock_merge b a"
  by (simp add: om_eq_iff clock_simps max.commute)

lemma merge_assoc: "Clock_merge (Clock_merge a b) c = Clock_merge a (Clock_merge b c)"
  by (simp add: om_eq_iff clock_simps max.assoc)

lemma merge_idem [simp]: "Clock_merge a a = a"
  by (simp add: om_eq_iff clock_simps)

lemma merge_empty [simp]: "Clock_merge a om_empty = a" "Clock_merge om_empty a = a"
  by (simp_all add: clock_le_merge_iff merge_commute [of a])

lemma smallerThan_iff [clock_simps]: "Clock_smallerThan a b \<longleftrightarrow> clock_le a b \<and> a \<noteq> b"
  by (auto simp: Clock_smallerThan_def clock_le_merge_iff)

section \<open>The interface of versions\<close>

text \<open>
  What the journals and hubs rely on: versions are ordered, \<open>join\<close> is the least upper bound
  and \<open>bot\<close> is below all versions. \<open>before\<close> is the strict order.
\<close>

locale version_lattice =
  fixes le :: "'c \<Rightarrow> 'c \<Rightarrow> bool"
    and before :: "'c \<Rightarrow> 'c \<Rightarrow> bool"
    and join :: "'c \<Rightarrow> 'c \<Rightarrow> 'c"
    and bot :: 'c
  assumes le_refl: "le a a"
    and le_trans: "le a b \<Longrightarrow> le b c \<Longrightarrow> le a c"
    and le_antisym: "le a b \<Longrightarrow> le b a \<Longrightarrow> a = b"
    and before_iff: "before a b \<longleftrightarrow> le a b \<and> a \<noteq> b"
    and join_upper: "le a (join a b)" "le b (join a b)"
    and join_least: "le a c \<Longrightarrow> le b c \<Longrightarrow> le (join a b) c"
    and bot_least: "le bot a"
begin

lemma before_irrefl: "\<not> before a a"
  by (simp add: before_iff)

lemma before_trans: "before a b \<Longrightarrow> before b c \<Longrightarrow> before a c"
  unfolding before_iff by (meson le_antisym le_trans)

lemma before_asym: "before a b \<Longrightarrow> \<not> before b a"
  using before_irrefl before_trans by blast

lemma le_before_trans: "le a b \<Longrightarrow> before b c \<Longrightarrow> before a c"
  unfolding before_iff by (meson le_antisym le_trans)

lemma join_commute: "join a b = join b a"
  by (meson join_least join_upper le_antisym)

lemma join_assoc: "join (join a b) c = join a (join b c)"
  by (meson join_least join_upper le_antisym le_trans)

lemma join_idem: "join a a = a"
  by (meson join_least join_upper(1) le_antisym le_refl)

text \<open>Merging a whole list of versions, in any order and with repetitions, reaches the same
  version.\<close>

lemma join_fold_upper1: "le a (fold join xs a)"
proof (induction xs arbitrary: a)
  case (Cons y xs)
  from join_upper(2) Cons.IH have "le a (fold join xs (join y a))" by (rule le_trans)
  then show ?case by simp
qed (simp add: le_refl)

lemma join_fold_upper2: "x \<in> set xs \<Longrightarrow> le x (fold join xs a)"
proof (induction xs arbitrary: a)
  case (Cons y xs)
  show ?case
  proof (cases "x = y")
    case True
    from join_upper(1) join_fold_upper1 have "le y (fold join xs (join y a))" by (rule le_trans)
    with True show ?thesis by simp
  next
    case False
    with Cons show ?thesis by simp
  qed
qed simp

lemma join_fold_least:
  "le a c \<Longrightarrow> (\<And>x. x \<in> set xs \<Longrightarrow> le x c) \<Longrightarrow> le (fold join xs a) c"
  by (induction xs arbitrary: a) (auto intro: join_least)

lemma join_fold_set:
  assumes "set xs = set ys"
  shows "fold join xs a = fold join ys a"
  using assms
  by (intro le_antisym join_fold_least join_fold_upper1 join_fold_upper2) simp_all

end

interpretation vc: version_lattice clock_le Clock_smallerThan Clock_merge om_empty
  by unfold_locales
    (auto simp: smallerThan_iff intro: clock_le_antisym merge_least elim: clock_le_trans)

section \<open>Text form\<close>

definition show_pair :: "ident \<times> time \<Rightarrow> string" where
  "show_pair p = ''{'' @ show_hex (fst p) @ '', '' @ show_dec (snd p) @ ''}''"

definition Clock_str :: "clock \<Rightarrow> string" where
  "Clock_str clock =
     (case entries clock of
        [] \<Rightarrow> ''{'' @ ''}''
      | p # ps \<Rightarrow> ''{'' @ show_pair p @ concat (map (\<lambda>q. '', '' @ show_pair q) ps) @ ''}'')"

text \<open>The \<open>do\<close> loop of \<open>Clock::Read\<close>, followed by the closing brace.\<close>

function Clock_Read_pairs :: "istream \<Rightarrow> clock \<Rightarrow> bool \<times> clock \<times> istream" where
  "Clock_Read_pairs s clock =
     (case ReadPair s 0 0 of
        (ok, i, time, s1) \<Rightarrow>
          if \<not> ok then (False, clock, s1)
          else case ReadChar s1 CHR '','' of
            (again, s2) \<Rightarrow>
              if again then Clock_Read_pairs s2 (om_put i time clock)
              else case ReadChar s2 CHR ''}'' of
                (closed, s3) \<Rightarrow> (closed, om_put i time clock, s3))"
  by pat_completeness auto
termination
  by (relation "measure (length \<circ> rest \<circ> fst)")
    (auto dest!: length_ReadPair(2) [OF sym] length_ReadChar(2) [OF sym])

declare Clock_Read_pairs.simps [simp del]

definition Clock_Read :: "istream \<Rightarrow> clock \<Rightarrow> bool \<times> clock \<times> istream" where
  "Clock_Read s0 clock =
     (let (ok, s1) = ReadChar s0 CHR ''{'' in
      if \<not> ok then (False, clock, s1)
      else let (_, s2) = ReadSpaces s1; (c, s3) = peek s2 in
      if c = Some CHR ''{'' then Clock_Read_pairs s3 clock
      else let (ok, s4) = ReadChar s3 CHR ''}'' in (ok, clock, s4))"

lemma find_fold_put_entries:
  "om_find (fold (\<lambda>(i, t). om_put i t) (entries c) m) k =
     (case om_find c k of None \<Rightarrow> om_find m k | Some t \<Rightarrow> Some t)"
  using find_fold_put [of "entries c" "\<lambda>i t. t" m k] by (simp add: om_find_def)

lemma fold_put_entries [simp]: "fold (\<lambda>(i, t). om_put i t) (entries c) om_empty = c"
  by (rule om_eqI) (simp add: find_fold_put_entries split: option.split)

lemma ReadPair_show_pair [stream_simps]:
  "ReadPair (input (show_pair p @ r)) id0 time0 = (True, fst p, snd p, input r)"
  using ReadPair_show [of "fst p" "snd p" r id0 time0] by (simp add: show_pair_def)

lemma ReadPair_space [stream_simps]:
  "ReadPair (input (CHR '' '' # r)) id0 time0 = ReadPair (input r) id0 time0"
  by (simp add: ReadPair_def stream_simps)

lemma Clock_Read_pairs_show:
  "Clock_Read_pairs
     (input (show_pair p @ concat (map (\<lambda>q. '', '' @ show_pair q) ps) @ ''}'' @ r)) c =
     (True, fold (\<lambda>(i, t). om_put i t) (p # ps) c, input r)"
proof (induction ps arbitrary: p c)
  case Nil
  then show ?case
    by (simp add: Clock_Read_pairs.simps [of "input _"] stream_simps split_def)
next
  case (Cons q ps)
  have space: "Clock_Read_pairs (input (CHR '' '' # t)) d = Clock_Read_pairs (input t) d" for t d
    by (simp add: Clock_Read_pairs.simps [of "input _"] stream_simps)
  show ?case
    using Cons.IH [of q "om_put (fst p) (snd p) c"] space
    by (simp add: Clock_Read_pairs.simps [of "input (show_pair p @ _)"] stream_simps split_def)
qed

lemma show_pair_Cons: "\<exists>cs. show_pair p = CHR ''{'' # cs"
  by (simp add: show_pair_def)

lemma Clock_Read_str:
  "Clock_Read (input (Clock_str c @ r)) d =
     (True, fold (\<lambda>(i, t). om_put i t) (entries c) d, input r)"
proof (cases "entries c")
  case Nil
  then show ?thesis
    by (simp add: Clock_Read_def Clock_str_def stream_simps ReadSpaces_input)
next
  case (Cons p ps)
  obtain cs where "show_pair p = CHR ''{'' # cs" using show_pair_Cons by blast
  then have "Clock_Read (input (Clock_str c @ r)) d =
      Clock_Read_pairs
        (input (show_pair p @ concat (map (\<lambda>q. '', '' @ show_pair q) ps) @ ''}'' @ r)) d"
    by (simp add: Clock_Read_def Clock_str_def Cons stream_simps ReadSpaces_input)
  then show ?thesis unfolding Clock_Read_pairs_show Cons .
qed

section \<open>Properties\<close>

text \<open>C30: \<open>merge\<close> is the least upper bound of two clocks in the pointwise order, and so it is
  commutative, associative and idempotent: the clock of a journal does not depend on the order
  or the repetition of what it has merged.\<close>

theorem merge_is_join:
  "(clock_le (Clock_merge a b) c \<longleftrightarrow> clock_le a c \<and> clock_le b c) \<and>
   Clock_merge a b = Clock_merge b a \<and>
   Clock_merge (Clock_merge a b) c = Clock_merge a (Clock_merge b c) \<and>
   Clock_merge a a = a"
proof -
  have "clock_le (Clock_merge a b) c \<longleftrightarrow> clock_le a c \<and> clock_le b c"
    using vc.join_upper vc.join_least vc.le_trans by metis
  then show ?thesis using vc.join_commute vc.join_assoc vc.join_idem by simp
qed

text \<open>\<open>smallerThan\<close> is the strict part of the pointwise order, and of two clocks exactly one of
  equal, smaller, bigger and concurrent holds.\<close>

theorem clock_order_cases:
  "(Clock_smallerThan a b \<longleftrightarrow> (\<forall>i. om_find a i \<le> om_find b i) \<and> a \<noteq> b) \<and>
   length (filter (\<lambda>p. p)
     [a = b, Clock_smallerThan a b, Clock_smallerThan b a, Clock_concurrent a b]) = 1"
  using vc.before_irrefl [of a] vc.before_asym [of a b]
  by (auto simp: Clock_concurrent_def smallerThan_iff clock_le_def)

text \<open>While the counter of a device has room, \<open>tick\<close> makes a bigger clock, changes no other
  counter, and the result is what \<open>isNext\<close> accepts after the old clock.\<close>

theorem tick_is_next:
  assumes "om_find c i \<noteq> Some (- 1)"
  shows "Clock_smallerThan c (Clock_tick c i) \<and> Clock_isNext (Clock_tick c i) c i \<and>
    (\<forall>j. j \<noteq> i \<longrightarrow> om_find (Clock_tick c i) j = om_find c j)"
proof -
  have grows: "om_find c i < om_find (Clock_tick c i) i"
  proof (cases "om_find c i")
    case (Some t)
    then have "1 + t \<noteq> 0" using assms by (auto simp: add_eq_0_iff)
    then have "t < t + 1" using unatSuc [of t] by (simp add: word_less_nat_alt add.commute)
    with Some show ?thesis by (simp add: find_tick)
  qed (simp add: find_tick)
  then have "clock_le c (Clock_tick c i)" by (auto simp: clock_le_def find_tick)
  moreover have "c \<noteq> Clock_tick c i" using grows by auto
  ultimately show ?thesis
    by (auto simp: smallerThan_iff find_tick Clock_isNext_def split: option.split)
qed

theorem tick_is_next_witness:
  "Clock_smallerThan (Clock_init [(7, 3)]) (Clock_tick (Clock_init [(7, 3)]) 7) \<and>
   Clock_isNext (Clock_tick (Clock_init [(7, 3)]) 7) (Clock_init [(7, 3)]) 7"
  using tick_is_next [of "Clock_init [(7, 3)]" 7] by (simp add: eval_simps)

text \<open>At the last counter value \<open>tick\<close> wraps to zero: the new clock is smaller than the old
  one, and \<open>isNext\<close> still accepts it.\<close>

theorem tick_wraps:
  assumes "om_find c i = Some (- 1)"
  shows "om_find (Clock_tick c i) i = Some 0 \<and> Clock_smallerThan (Clock_tick c i) c \<and>
    Clock_isNext (Clock_tick c i) c i"
proof -
  have z: "om_find (Clock_tick c i) i = Some 0" using assms by (simp add: find_tick)
  have "clock_le (Clock_tick c i) c" using assms by (auto simp: clock_le_def find_tick)
  moreover have "Clock_tick c i \<noteq> c" using z assms by auto
  ultimately show ?thesis
    using z assms by (simp add: smallerThan_iff Clock_isNext_def)
qed

theorem tick_wraps_witness:
  "Clock_smallerThan (Clock_tick (Clock_init [(7, 0xFFFFFFFFFFFFFFFF)]) 7)
     (Clock_init [(7, 0xFFFFFFFFFFFFFFFF)])"
  using tick_wraps [of "Clock_init [(7, 0xFFFFFFFFFFFFFFFF)]" 7] by (simp add: eval_simps)

text \<open>The constructor keeps the first counter given for a device and drops counters that are
  zero, except under the identifier zero: a clock is invalid exactly when that identifier was
  given.\<close>

theorem clock_init_normalises:
  "om_find (Clock_init xs) i =
     (case map_of xs i of
        None \<Rightarrow> None
      | Some t \<Rightarrow> if i \<noteq> 0 \<and> t = 0 then None else Some t) \<and>
   (Clock_valid (Clock_init xs) \<longleftrightarrow> 0 \<notin> fst ` set xs)"
proof -
  have find: "om_find (Clock_init xs) i =
     (case map_of xs i of
        None \<Rightarrow> None | Some t \<Rightarrow> if i \<noteq> 0 \<and> t = 0 then None else Some t)" for i
    by (cases "map_of xs i") (simp_all add: Clock_init_def om_find_filter)
  have "Clock_valid (Clock_init xs) \<longleftrightarrow> map_of xs 0 = None"
    by (simp add: Clock_valid_def find [of 0] split: option.split)
  then show ?thesis using find [of i] by (simp add: map_of_eq_None_iff)
qed

text \<open>\<open>Clock::Read\<close> reads back what was printed, up to the text that follows; the counters it
  reads replace those of the clock it is given and the others stay.\<close>

theorem clock_text_roundtrip:
  "Clock_Read (input (Clock_str c @ r)) om_empty = (True, c, input r) \<and>
   (\<exists>c'. Clock_Read (input (Clock_str c @ r)) d = (True, c', input r) \<and>
     (\<forall>i. om_find c' i = (case om_find c i of None \<Rightarrow> om_find d i | Some t \<Rightarrow> Some t)))"
  using Clock_Read_str [of c r om_empty] Clock_Read_str [of c r d] find_fold_put_entries [of c d]
  by simp

end
