(* ===== verification/Entry.thy ===== *)
theory Entry
  imports Clock
begin

text \<open>
  \<open>cashmere/crdt/src/entry.cpp\<close>: the entries of a journal. The payload \<open>Data\<close> names the
  device, the amount and the clock of the entry it replaces (empty for a plain entry);
  \<open>Entry\<close> adds the clock under which it was recorded. Readers fill the object they are given,
  so they take its old contents.
\<close>

record data =
  data_id :: ident
  data_value :: amount
  data_alters :: clock

record entry =
  entry_clock :: clock
  entry_data :: data

definition Data_valid :: "data \<Rightarrow> bool" where
  "Data_valid self \<longleftrightarrow>
     (case entries (data_alters self) of [] \<Rightarrow> False | (i, _) # _ \<Rightarrow> i \<noteq> 0)"

text \<open>Brace initialisation: \<open>Data{id, value, alters}\<close> and \<open>Entry{clock, {id, value, alters}}\<close>.\<close>

abbreviation Data_of :: "ident \<Rightarrow> amount \<Rightarrow> clock \<Rightarrow> data" where
  "Data_of i v a \<equiv> \<lparr>data_id = i, data_value = v, data_alters = a\<rparr>"

abbreviation Entry_of :: "clock \<Rightarrow> ident \<Rightarrow> amount \<Rightarrow> clock \<Rightarrow> entry" where
  "Entry_of c i v a \<equiv> \<lparr>entry_clock = c, entry_data = Data_of i v a\<rparr>"

text \<open>The value-initialised payload \<open>{0, 0, {}}\<close>.\<close>

definition no_data :: data where
  "no_data = \<lparr>data_id = 0, data_value = 0, data_alters = om_empty\<rparr>"

definition no_entry :: entry where
  "no_entry = \<lparr>entry_clock = om_empty, entry_data = no_data\<rparr>"

lemma no_data_not_valid [simp]: "\<not> Data_valid no_data"
  by (simp add: Data_valid_def no_data_def)

section \<open>Text form\<close>

definition Data_str :: "data \<Rightarrow> string" where
  "Data_str d =
     ''{'' @ show_hex (data_id d) @ '', '' @ show_signed (data_value d) @ '', '' @
     Clock_str (data_alters d) @ ''}''"

definition Entry_str :: "entry \<Rightarrow> string" where
  "Entry_str e = ''{'' @ Clock_str (entry_clock e) @ '', '' @ Data_str (entry_data e) @ ''}''"

definition Data_Read :: "istream \<Rightarrow> data \<Rightarrow> bool \<times> data \<times> istream" where
  "Data_Read s0 d0 =
     (let (ok, s1) = ReadChar s0 CHR ''{'' in
      if \<not> ok then (False, d0, s1)
      else let (i, s2) = extract_hex (data_id d0) s1; d1 = d0\<lparr>data_id := i\<rparr>;
               (ok, s3) = ReadChar s2 CHR '','' in
      if \<not> ok then (False, d1, s3)
      else let (v, s4) = extract_signed (data_value d1) s3; d2 = d1\<lparr>data_value := v\<rparr> in
      if failbit s4 then (False, d2, s4)
      else let (ok, s5) = ReadChar s4 CHR '','' in
      if \<not> ok then (False, d2, s5)
      else let (ok, c, s6) = Clock_Read s5 (data_alters d2); d3 = d2\<lparr>data_alters := c\<rparr> in
      if \<not> ok then (False, d3, s6)
      else let (ok, s7) = ReadChar s6 CHR ''}'' in
      if \<not> ok then (False, d3, s7)
      else (True, d3, s7))"

definition Entry_Read :: "istream \<Rightarrow> entry \<Rightarrow> bool \<times> entry \<times> istream" where
  "Entry_Read s0 e0 =
     (let (ok, s1) = ReadChar s0 CHR ''{'' in
      if \<not> ok then (False, e0, s1)
      else let (ok, c, s2) = Clock_Read s1 (entry_clock e0); e1 = e0\<lparr>entry_clock := c\<rparr> in
      if \<not> ok then (False, e1, s2)
      else let (ok, s3) = ReadChar s2 CHR '','' in
      if \<not> ok then (False, e1, s3)
      else let (ok, d, s4) = Data_Read s3 (entry_data e1); e2 = e1\<lparr>entry_data := d\<rparr> in
      if \<not> ok then (False, e2, s4)
      else let (ok, s5) = ReadChar s4 CHR ''}'' in
      if \<not> ok then (False, e2, s5)
      else (True, e2, s5))"

lemma Clock_Read_space [stream_simps]: "Clock_Read (input (CHR '' '' # r)) c = Clock_Read (input r) c"
  by (simp add: Clock_Read_def stream_simps)

lemma Data_Read_space [stream_simps]: "Data_Read (input (CHR '' '' # r)) d = Data_Read (input r) d"
  by (simp add: Data_Read_def stream_simps)

lemma Clock_Read_str_empty [stream_simps]:
  "Clock_Read (input (Clock_str c @ r)) om_empty = (True, c, input r)"
  by (simp add: Clock_Read_str)

lemma Data_Read_str [stream_simps]:
  "data_alters d0 = om_empty \<Longrightarrow> Data_Read (input (Data_str d @ r)) d0 = (True, d, input r)"
  by (simp add: Data_Read_def Data_str_def stream_simps)

lemma Entry_Read_str [stream_simps]:
  "entry_clock e0 = om_empty \<Longrightarrow> data_alters (entry_data e0) = om_empty \<Longrightarrow>
     Entry_Read (input (Entry_str e @ r)) e0 = (True, e, input r)"
  by (simp add: Entry_Read_def Entry_str_def stream_simps)

section \<open>Properties\<close>

text \<open>C32: The line a file journal writes for an entry is read back as the same entry, and the
  reader stops right after it.\<close>

theorem entry_text_roundtrip:
  "Entry_Read (input (Entry_str e @ r)) (Entry_of om_empty i v om_empty) = (True, e, input r)"
  by (simp add: stream_simps)

text \<open>Identifiers and counters of 2^64 and more, and amounts of 2^63 and more, are refused by
  the readers instead of wrapping.\<close>

theorem out_of_range_refused:
  assumes "2 ^ 64 \<le> n" and "2 ^ 63 \<le> m"
  shows "\<not> fst (ReadPair (input (''{'' @ show_nat 16 n @ '','' @ r)) i t) \<and>
    \<not> fst (ReadPair (input (''{'' @ show_hex j @ '', '' @ show_nat 10 n @ ''}'' @ r)) i t) \<and>
    \<not> fst (Data_Read (input (''{'' @ show_hex j @ '', '' @ show_nat 10 m @ '','' @ r)) d)"
proof -
  have h: "18446744073709551616 \<le> n" "9223372036854775808 \<le> m" using assms by simp_all
  have "\<not> fst (ReadPair (input (''{'' @ show_nat 16 n @ '','' @ r)) i t)"
    using h by (simp add: ReadPair_def stream_simps)
  moreover have
    "\<not> fst (ReadPair (input (''{'' @ show_hex j @ '', '' @ show_nat 10 n @ ''}'' @ r)) i t)"
    using h by (simp add: ReadPair_def stream_simps)
  moreover have
    "\<not> fst (Data_Read (input (''{'' @ show_hex j @ '', '' @ show_nat 10 m @ '','' @ r)) d)"
    using h by (simp add: Data_Read_def stream_simps)
  ultimately show ?thesis by blast
qed

theorem out_of_range_refused_witness:
  "\<not> fst (ReadPair (input (''{'' @ show_nat 16 (2 ^ 64) @ '','' @ [])) 0 0)"
  using out_of_range_refused [of "2 ^ 64" "2 ^ 63" "[]" 0 0 0 no_data] by blast

end
