(* ===== verification/Ledger.thy ===== *)
theory Ledger
  imports Entry "HOL-Library.Multiset"
begin

text \<open>
  \<open>cashmere/crdt/src/ledger.cpp\<close>: the balance of a list of entries. Rows are keyed by the clock
  of the entry they show; an entry that alters another one competes for that entry's row.
\<close>

datatype action = Ignore | Insert | Replace

record ledger =
  ledger_balance :: amount
  ledger_rows :: "(clock, entry) omap"

definition Ledger_Replaces :: "entry \<Rightarrow> entry \<Rightarrow> action \<times> clock" where
  "Ledger_Replaces existing incoming =
     (if data_alters (entry_data incoming) = om_empty then (Ignore, om_empty)
      else if Clock_smallerThan (entry_clock existing) (entry_clock incoming)
      then (Replace, data_alters (entry_data incoming))
      else if Clock_smallerThan (entry_clock incoming) (entry_clock existing)
      then (Ignore, om_empty)
      else if data_id (entry_data existing) < data_id (entry_data incoming)
      then (Replace, data_alters (entry_data incoming))
      else (Ignore, om_empty))"

definition Ledger_Evaluate :: "(clock, entry) omap \<Rightarrow> entry \<Rightarrow> (action \<times> clock) outcome" where
  "Ledger_Evaluate rows incoming =
     (let alters = data_alters (entry_data incoming) in
      if alters = om_empty then
        (if om_find rows (entry_clock incoming) = None then Inr (Insert, entry_clock incoming)
         else Inr (Ignore, om_empty))
      else if om_find rows alters = None then Inr (Insert, alters)
      else andThen (om_at rows alters) (\<lambda>existing. Inr (Ledger_Replaces existing incoming)))"

text \<open>One round of the constructor's loop. \<open>Replace\<close> falls through into \<open>Insert\<close>.\<close>

definition Ledger_add :: "entry \<Rightarrow> ledger \<Rightarrow> ledger outcome" where
  "Ledger_add e l =
     andThen (Ledger_Evaluate (ledger_rows l) e) (\<lambda>(act, what).
       let insert_row = (\<lambda>l.
             let l = l\<lparr>ledger_rows := om_put what e (ledger_rows l)\<rparr> in
             andThen (om_at (ledger_rows l) what) (\<lambda>row.
               Inr (l\<lparr>ledger_balance := ledger_balance l + data_value (entry_data row)\<rparr>)))
       in case act of
            Replace \<Rightarrow>
              andThen (om_at (ledger_rows l) what) (\<lambda>row.
                insert_row (l\<lparr>ledger_balance := ledger_balance l - data_value (entry_data row)\<rparr>))
          | Insert \<Rightarrow> insert_row l
          | Ignore \<Rightarrow> Inr l)"

definition Ledger :: "entry list \<Rightarrow> ledger outcome" where
  "Ledger es = forEach es Ledger_add \<lparr>ledger_balance = 0, ledger_rows = om_empty\<rparr>"

definition Ledger_Balance :: "entry list \<Rightarrow> amount outcome" where
  "Ledger_Balance es = andThen (Ledger es) (\<lambda>l. Inr (ledger_balance l))"

declare Ledger_Replaces_def [eval_simps] Ledger_Evaluate_def [eval_simps] Ledger_add_def
  [eval_simps] Ledger_def [eval_simps] Ledger_Balance_def [eval_simps]

section \<open>Rows and winners\<close>

text \<open>The row an entry competes for, and when it takes the row from the entry shown there.\<close>

definition row_of :: "entry \<Rightarrow> clock" where
  "row_of e =
     (if data_alters (entry_data e) = om_empty then entry_clock e else data_alters (entry_data e))"

definition wins :: "entry \<Rightarrow> entry \<Rightarrow> bool" where
  "wins new old \<longleftrightarrow>
     data_alters (entry_data new) \<noteq> om_empty \<and>
     (Clock_smallerThan (entry_clock old) (entry_clock new) \<or>
      \<not> Clock_smallerThan (entry_clock new) (entry_clock old) \<and>
      data_id (entry_data old) < data_id (entry_data new))"

abbreviation entry_amount :: "entry \<Rightarrow> amount" where
  "entry_amount e \<equiv> data_value (entry_data e)"

lemma wins_irrefl [simp]: "\<not> wins e e"
  by (simp add: wins_def smallerThan_iff)

lemma wins_asym: "wins a b \<Longrightarrow> \<not> wins b a"
  by (auto simp: wins_def dest: vc.before_asym)

lemma Evaluate_eq:
  "Ledger_Evaluate rows e =
     Inr (case om_find rows (row_of e) of
            None \<Rightarrow> (Insert, row_of e)
          | Some r \<Rightarrow> if wins e r then (Replace, row_of e) else (Ignore, om_empty))"
  by (auto simp: Ledger_Evaluate_def Ledger_Replaces_def row_of_def wins_def Let_def om_at_def
      split: option.splits)

definition challenge :: "entry \<Rightarrow> entry option \<Rightarrow> entry option" where
  "challenge e shown =
     (case shown of None \<Rightarrow> Some e | Some r \<Rightarrow> if wins e r then Some e else Some r)"

lemma challenge_Some: "\<exists>r. challenge e shown = Some r"
  by (cases shown) (auto simp: challenge_def)

text \<open>The constructor's round never throws, and touches one row.\<close>

lemma Ledger_add_eq:
  obtains l' where "Ledger_add e l = Inr l'"
    and "\<And>k. om_find (ledger_rows l') k =
           (if k = row_of e then challenge e (om_find (ledger_rows l) k)
            else om_find (ledger_rows l) k)"
    and "ledger_balance l' = ledger_balance l
           - (case om_find (ledger_rows l) (row_of e) of None \<Rightarrow> 0 | Some r \<Rightarrow> entry_amount r)
           + (case om_find (ledger_rows l') (row_of e) of None \<Rightarrow> 0 | Some r \<Rightarrow> entry_amount r)"
proof (cases "om_find (ledger_rows l) (row_of e)")
  case None
  then show thesis
    by (intro that [of "\<lparr>ledger_balance = ledger_balance l + entry_amount e,
          ledger_rows = om_put (row_of e) e (ledger_rows l)\<rparr>"])
      (auto simp: Ledger_add_def Evaluate_eq om_at_def Let_def challenge_def)
next
  case (Some r)
  show thesis
  proof (cases "wins e r")
    case True
    with Some show thesis
      by (intro that [of "\<lparr>ledger_balance = ledger_balance l - entry_amount r + entry_amount e,
            ledger_rows = om_put (row_of e) e (ledger_rows l)\<rparr>"])
        (auto simp: Ledger_add_def Evaluate_eq om_at_def Let_def challenge_def)
  next
    case False
    with Some show thesis
      by (intro that [of l]) (auto simp: Ledger_add_def Evaluate_eq challenge_def)
  qed
qed

text \<open>The entry a row shows after a list of entries.\<close>

definition champion :: "entry list \<Rightarrow> entry option" where
  "champion es = fold challenge es None"

definition rivals :: "clock \<Rightarrow> entry list \<Rightarrow> entry list" where
  "rivals k es = filter (\<lambda>e. row_of e = k) es"

lemma Ledger_loop:
  obtains l' where "forEach es Ledger_add l = Inr l'"
    and "\<And>k. om_find (ledger_rows l') k =
           fold challenge (rivals k es) (om_find (ledger_rows l) k)"
proof -
  have "\<exists>l'. forEach es Ledger_add l = Inr l' \<and>
      (\<forall>k. om_find (ledger_rows l') k =
         fold challenge (rivals k es) (om_find (ledger_rows l) k))"
  proof (induction es arbitrary: l)
    case (Cons e es)
    obtain m where m: "Ledger_add e l = Inr m"
      "\<And>k. om_find (ledger_rows m) k =
         (if k = row_of e then challenge e (om_find (ledger_rows l) k)
          else om_find (ledger_rows l) k)"
      using Ledger_add_eq [of e l] by metis
    from Cons.IH [of m] m show ?case by (auto simp: rivals_def)
  qed (simp add: rivals_def)
  then show thesis using that by blast
qed

section \<open>The balance is the sum of the rows\<close>

definition rows_total :: "(clock, entry) omap \<Rightarrow> amount" where
  "rows_total rows = sum_list (map (entry_amount \<circ> snd) (entries rows))"

lemma sum_put_sorted:
  assumes "sorted_keys xs"
  shows "sum_list (map (f \<circ> snd) (put_sorted k v xs)) =
           sum_list (map (f \<circ> snd) xs) - (case map_of xs k of None \<Rightarrow> 0 | Some u \<Rightarrow> f u)
           + (f v :: amount)"
  using assms
proof (induction k v xs rule: put_sorted.induct)
  case (2 k v a b xs)
  have "map_of ((a, b) # xs) k = None" if "k < a"
    using that "2.prems" by (force simp: map_of_eq_None_iff)
  then show ?case using 2 by (auto split: if_splits)
qed simp

lemma rows_total_put:
  "rows_total (om_put k e rows) =
     rows_total rows - (case om_find rows k of None \<Rightarrow> 0 | Some r \<Rightarrow> entry_amount r) + entry_amount e"
  using sum_put_sorted [of "entries rows" entry_amount k e]
  by (simp add: rows_total_def om_put.rep_eq om_find_def)

lemma Ledger_add_total:
  assumes "Ledger_add e l = Inr l'" and "ledger_balance l = rows_total (ledger_rows l)"
  shows "ledger_balance l' = rows_total (ledger_rows l')"
proof -
  obtain m where m: "Ledger_add e l = Inr m"
    "\<And>k. om_find (ledger_rows m) k =
       (if k = row_of e then challenge e (om_find (ledger_rows l) k) else om_find (ledger_rows l) k)"
    "ledger_balance m = ledger_balance l
       - (case om_find (ledger_rows l) (row_of e) of None \<Rightarrow> 0 | Some r \<Rightarrow> entry_amount r)
       + (case om_find (ledger_rows m) (row_of e) of None \<Rightarrow> 0 | Some r \<Rightarrow> entry_amount r)"
    using Ledger_add_eq [of e l] by metis
  obtain r where r: "challenge e (om_find (ledger_rows l) (row_of e)) = Some r"
    using challenge_Some by blast
  then have "ledger_rows m = om_put (row_of e) r (ledger_rows l)"
    using m(2) r by (intro om_eqI) simp
  with m assms r show ?thesis by (simp add: rows_total_put)
qed

section \<open>Order of arrival\<close>

lemma fold_challenge_Some: "\<exists>m. fold challenge es (Some r) = Some m \<and> m \<in> insert r (set es)"
proof (induction es arbitrary: r)
  case (Cons e es)
  from Cons.IH [of e] Cons.IH [of r] show ?case by (auto simp: challenge_def)
qed simp

text \<open>An entry that wins against every rival is shown whatever the order.\<close>

lemma champion_dominant:
  assumes "m \<in> set es" and "\<forall>x \<in> set es. x \<noteq> m \<longrightarrow> wins m x"
  shows "champion es = Some m"
proof -
  have keep: "fold challenge xs (Some m) = Some m" if "set xs \<subseteq> set es" for xs
    using that assms(2) by (induction xs) (auto simp: challenge_def dest: wins_asym)
  obtain xs ys where es: "es = xs @ m # ys" using assms(1) by (meson split_list)
  have "challenge m (fold challenge xs None) = Some m"
  proof (cases xs)
    case Nil
    then show ?thesis by (simp add: challenge_def)
  next
    case (Cons x xs')
    then obtain r where "fold challenge xs None = Some r" "r \<in> set xs"
      using fold_challenge_Some [of xs' x] by (auto simp: challenge_def)
    then show ?thesis using assms(2) es by (auto simp: challenge_def)
  qed
  moreover have "set ys \<subseteq> set es" using es by auto
  ultimately show ?thesis using keep [of ys] es by (simp add: champion_def)
qed

text \<open>Without such an entry two orders disagree: whatever one order shows, an order that starts
  with it and an entry it does not beat shows another one.\<close>

lemma champion_skips:
  assumes "\<not> wins m y" and "m \<noteq> y" and "m \<notin> set zs"
  shows "\<exists>ws. mset ws = {#m, y#} + mset zs \<and> champion ws \<noteq> Some m"
proof (cases "wins y m")
  case True
  then have "champion (m # y # zs) \<noteq> Some m"
    using fold_challenge_Some [of zs y] assms by (auto simp: champion_def challenge_def)
  then show ?thesis by (intro exI [of _ "m # y # zs"]) simp
next
  case False
  then have "champion (y # m # zs) \<noteq> Some m"
    using fold_challenge_Some [of zs y] assms by (auto simp: champion_def challenge_def)
  then show ?thesis by (intro exI [of _ "y # m # zs"]) simp
qed

section \<open>Whole ledgers\<close>

text \<open>The entry that the row of \<open>k\<close> shows after the entries \<open>es\<close>.\<close>

definition shown :: "entry list \<Rightarrow> clock \<Rightarrow> entry option" where
  "shown es k = (case Ledger es of Inl _ \<Rightarrow> None | Inr l \<Rightarrow> om_find (ledger_rows l) k)"

lemma Ledger_spec:
  obtains l where "Ledger es = Inr l"
    and "\<And>k. om_find (ledger_rows l) k = champion (rivals k es)"
    and "ledger_balance l = rows_total (ledger_rows l)"
proof -
  obtain l where l: "Ledger es = Inr l"
    "\<And>k. om_find (ledger_rows l) k = champion (rivals k es)"
    using Ledger_loop [of es "\<lparr>ledger_balance = 0, ledger_rows = om_empty\<rparr>"]
    by (auto simp: Ledger_def champion_def)
  moreover have "ledger_balance l = rows_total (ledger_rows l)"
    using l(1) unfolding Ledger_def
    by (rule forEach_invariant) (simp add: rows_total_def, rule Ledger_add_total)
  ultimately show thesis using that by blast
qed

lemma shown_champion: "shown es k = champion (rivals k es)"
proof -
  obtain l where "Ledger es = Inr l" "\<And>k. om_find (ledger_rows l) k = champion (rivals k es)"
    using Ledger_spec [of es] by blast
  then show ?thesis by (simp add: shown_def)
qed

lemma Ledger_eqI:
  assumes "\<And>k. champion (rivals k es) = champion (rivals k fs)"
  shows "Ledger es = Ledger fs"
proof -
  obtain l where l: "Ledger es = Inr l" "\<And>k. om_find (ledger_rows l) k = champion (rivals k es)"
    "ledger_balance l = rows_total (ledger_rows l)"
    using Ledger_spec [of es] by blast
  obtain m where m: "Ledger fs = Inr m" "\<And>k. om_find (ledger_rows m) k = champion (rivals k fs)"
    "ledger_balance m = rows_total (ledger_rows m)"
    using Ledger_spec [of fs] by blast
  have "ledger_rows l = ledger_rows m" using l(2) m(2) assms by (auto intro: om_eqI)
  then have "l = m" using l(3) m(3) by (simp add: ledger.equality)
  then show ?thesis using l(1) m(1) by simp
qed

text \<open>Every row has an entry that wins against all its rivals.\<close>

definition decided :: "entry list \<Rightarrow> clock \<Rightarrow> bool" where
  "decided es k \<longleftrightarrow>
     rivals k es = [] \<or>
     list_ex (\<lambda>m. list_all (\<lambda>x. x = m \<or> wins m x) (rivals k es)) (rivals k es)"

lemma decided_iff:
  "decided es k \<longleftrightarrow>
     rivals k es = [] \<or>
     (\<exists>m \<in> set (rivals k es). \<forall>x \<in> set (rivals k es). x \<noteq> m \<longrightarrow> wins m x)"
  by (auto simp: decided_def list_ex_iff list_all_iff)

lemma set_rivals: "set (rivals k es) = {e \<in> set es. row_of e = k}"
  by (auto simp: rivals_def)

lemma decided_champion:
  assumes "set es = set fs" and "decided es k"
  shows "champion (rivals k es) = champion (rivals k fs)"
proof (cases "rivals k es = []")
  case True
  moreover have "set (rivals k fs) = set (rivals k es)" using assms(1) by (simp add: set_rivals)
  ultimately show ?thesis by simp
next
  case False
  then obtain m where m: "m \<in> set (rivals k es)"
    "\<forall>x \<in> set (rivals k es). x \<noteq> m \<longrightarrow> wins m x"
    using assms(2) unfolding decided_iff by blast
  have "set (rivals k es) = set (rivals k fs)" using assms(1) by (simp add: set_rivals)
  then show ?thesis using champion_dominant [of m] m by simp
qed

lemma decided_everywhere:
  assumes "list_all (\<lambda>e. decided es (row_of e)) es"
  shows "decided es k"
proof (cases "\<exists>e \<in> set es. row_of e = k")
  case True
  then show ?thesis using assms by (auto simp: list_all_iff)
next
  case False
  then show ?thesis by (auto simp: decided_def rivals_def filter_empty_conv)
qed

lemma rivals_permute:
  assumes "mset ws = mset (rivals k es)"
  obtains fs where "mset fs = mset es" and "rivals k fs = ws"
proof -
  have "row_of w = k" if "w \<in> set ws" for w
    using that assms by (metis (mono_tags, lifting) mem_Collect_eq set_mset_mset set_rivals)
  then have "rivals k (ws @ filter (\<lambda>e. row_of e \<noteq> k) es) = ws"
    by (simp add: rivals_def)
  moreover have "mset (ws @ filter (\<lambda>e. row_of e \<noteq> k) es) = mset es"
    using assms by (simp add: rivals_def)
  ultimately show thesis using that by blast
qed

lemma undecided_differs:
  assumes "distinct es" and "\<not> decided es k"
  shows "\<exists>fs. mset fs = mset es \<and> champion (rivals k fs) \<noteq> champion (rivals k es)"
proof -
  define rs where "rs = rivals k es"
  have ne: "rs \<noteq> []" and d: "distinct rs"
    using assms by (auto simp: rs_def decided_iff rivals_def)
  obtain m where m: "champion rs = Some m" "m \<in> set rs"
    using ne fold_challenge_Some by (cases rs) (auto simp: champion_def challenge_def)
  obtain y where y: "y \<in> set rs" "y \<noteq> m" "\<not> wins m y"
    using assms(2) m(2) by (auto simp: rs_def decided_iff)
  define zs where "zs = remove1 y (remove1 m rs)"
  have "mset rs = add_mset m (mset (remove1 m rs))" using m(2) by simp
  also have "mset (remove1 m rs) = add_mset y (mset zs)"
    unfolding zs_def using y by (metis in_set_remove1 insert_DiffM mset_remove1 set_mset_mset)
  finally have "mset rs = {#m, y#} + mset zs" by simp
  moreover have "m \<notin> set zs" using d by (simp add: zs_def)
  ultimately obtain ws where ws: "mset ws = mset rs" "champion ws \<noteq> Some m"
    using champion_skips [of m y zs] y by auto
  from rivals_permute [OF ws(1) [unfolded rs_def]] obtain fs
    where "mset fs = mset es" "rivals k fs = ws" .
  then show ?thesis using ws(2) m(1) by (auto simp: rs_def)
qed

lemma plain_loop:
  assumes "list_all (\<lambda>e. data_alters (entry_data e) = om_empty) es"
    and "distinct (map entry_clock es)"
    and "\<forall>e \<in> set es. om_find (ledger_rows l) (entry_clock e) = None"
  shows "\<exists>rows. forEach es Ledger_add l =
           Inr \<lparr>ledger_balance = ledger_balance l + sum_list (map entry_amount es),
                ledger_rows = rows\<rparr>"
  using assms
proof (induction es arbitrary: l)
  case Nil
  show ?case by (cases l) simp
next
  case (Cons e es)
  define m where "m = \<lparr>ledger_balance = ledger_balance l + entry_amount e,
    ledger_rows = om_put (entry_clock e) e (ledger_rows l)\<rparr>"
  have "Ledger_add e l = Inr m"
    using Cons.prems by (simp add: m_def Ledger_add_def Ledger_Evaluate_def om_at_def)
  moreover have "\<forall>f \<in> set es. om_find (ledger_rows m) (entry_clock f) = None"
    using Cons.prems by (auto simp: m_def image_iff)
  ultimately show ?case
    using Cons.IH [of m] Cons.prems by (simp add: m_def add.assoc)
qed

section \<open>A conflict\<close>

text \<open>Device 1 adds an entry; 5 and 9 edit it concurrently; 3 has seen the edit of 9 only and
  edits the entry again.\<close>

definition added :: entry where
  "added = Entry_of (Clock_init [(1, 1)]) 1 10 om_empty"

definition edit5 :: entry where
  "edit5 = Entry_of (Clock_init [(1, 1), (5, 1)]) 5 50 (Clock_init [(1, 1)])"

definition edit9 :: entry where
  "edit9 = Entry_of (Clock_init [(1, 1), (9, 1)]) 9 90 (Clock_init [(1, 1)])"

definition edit3 :: entry where
  "edit3 = Entry_of (Clock_init [(1, 1), (3, 1), (9, 1)]) 3 30 (Clock_init [(1, 1)])"

lemmas conflict_simps = added_def edit3_def edit5_def edit9_def decided_def rivals_def row_of_def
  wins_def

section \<open>Properties\<close>

text \<open>C19: The ledger of a list of entries is always computed (no \<open>at\<close> throws), its balance is the
  sum of the amounts of its rows, and the row of a clock shows the last entry that won against
  the one shown before it among the entries that compete for that row.\<close>

theorem ledger_correct:
  "\<exists>l. Ledger es = Inr l \<and>
     ledger_balance l = (\<Sum>(k, e) \<leftarrow> entries (ledger_rows l). data_value (entry_data e)) \<and>
     (\<forall>k. om_find (ledger_rows l) k = champion (rivals k es))"
proof -
  obtain l where "Ledger es = Inr l" "\<And>k. om_find (ledger_rows l) k = champion (rivals k es)"
    "ledger_balance l = rows_total (ledger_rows l)"
    using Ledger_spec [of es] by blast
  then show ?thesis by (intro exI [of _ l]) (simp add: rows_total_def comp_def split_def)
qed

text \<open>C11: Replicas converge: two devices that hold the same entries, received in any order and
  any number of times, compute the same ledger, when on every row one entry wins against all its
  rivals.\<close>

theorem ledger_converges:
  assumes "set es = set fs" and "list_all (\<lambda>e. decided es (row_of e)) es"
  shows "Ledger es = Ledger fs"
  using decided_champion [OF assms(1) decided_everywhere [OF assms(2)]] by (rule Ledger_eqI)

theorem ledger_converges_witness:
  "Ledger [added, edit5, edit9] = Ledger [edit9, edit5, added, edit5, edit9]"
proof -
  have "list_all (\<lambda>e. decided [added, edit5, edit9] (row_of e)) [added, edit5, edit9]"
    by (simp add: conflict_simps eval_simps)
  moreover have "set [added, edit5, edit9] = set [edit9, edit5, added, edit5, edit9]" by auto
  ultimately show ?thesis by (intro ledger_converges)
qed

text \<open>C24: That condition is also necessary: for distinct entries, a row shows the same entry for
  every order of arrival exactly when it is empty or one entry wins against all its rivals.\<close>

theorem ledger_row_order_independent_iff:
  assumes "distinct es"
  shows "(\<forall>fs. mset fs = mset es \<longrightarrow> shown fs k = shown es k) \<longleftrightarrow> decided es k"
proof
  assume "\<forall>fs. mset fs = mset es \<longrightarrow> shown fs k = shown es k"
  then show "decided es k"
    using undecided_differs [OF assms] by (metis shown_champion)
next
  assume "decided es k"
  then show "\<forall>fs. mset fs = mset es \<longrightarrow> shown fs k = shown es k"
    using decided_champion by (metis set_mset_mset shown_champion)
qed

theorem ledger_row_order_independent_iff_witness:
  "shown [edit9, added, edit5] (entry_clock added) =
     shown [added, edit5, edit9] (entry_clock added) \<and>
   (\<exists>fs. mset fs = mset [added, edit5, edit9, edit3] \<and>
      shown fs (entry_clock added) \<noteq> shown [added, edit5, edit9, edit3] (entry_clock added))"
proof -
  have d: "distinct [added, edit5, edit9]" "distinct [added, edit5, edit9, edit3]"
    by (simp_all add: conflict_simps)
  have "decided [added, edit5, edit9] (entry_clock added)"
    "\<not> decided [added, edit5, edit9, edit3] (entry_clock added)"
    by (simp_all add: conflict_simps eval_simps)
  moreover have "mset [edit9, added, edit5] = mset [added, edit5, edit9]" by simp
  ultimately show ?thesis
    using d [THEN ledger_row_order_independent_iff, of "entry_clock added"] by blast
qed

text \<open>The order of arrival decides between the three conflicting edits above: replicas that
  hold the same four entries show different balances. The first three orders respect causality,
  the last one is the order in which a cache journal lists the entries.\<close>

theorem ledger_order_dependent:
  "Ledger_Balance [added, edit9, edit3, edit5] = Inr 50 \<and>
   Ledger_Balance [added, edit9, edit5, edit3] = Inr 30 \<and>
   Ledger_Balance [added, edit5, edit9, edit3] = Inr 30 \<and>
   Ledger_Balance [added, edit3, edit5, edit9] = Inr 90"
  by (simp add: conflict_simps eval_simps)

text \<open>Between an entry and two concurrent edits of it, made by different devices that had
  seen it, the edit of the device with the bigger identifier is shown, whatever the order in
  which the three arrive.\<close>

theorem ledger_bigger_id_wins:
  assumes "data_alters (entry_data p) = om_empty" and "entry_clock p \<noteq> om_empty"
    and "data_alters (entry_data a) = entry_clock p"
    and "data_alters (entry_data b) = entry_clock p"
    and "Clock_smallerThan (entry_clock p) (entry_clock a)"
    and "Clock_smallerThan (entry_clock p) (entry_clock b)"
    and "Clock_concurrent (entry_clock a) (entry_clock b)"
    and "data_id (entry_data a) < data_id (entry_data b)"
    and "mset es = {#p, a, b#}"
  shows "shown es (entry_clock p) = Some b"
proof -
  have "set es = {p, a, b}"
    using assms(9) by (metis insert_commute set_mset_add_mset_insert set_mset_empty set_mset_mset)
  moreover have "row_of p = entry_clock p" "row_of a = entry_clock p" "row_of b = entry_clock p"
    using assms by (auto simp: row_of_def)
  ultimately have "set (rivals (entry_clock p) es) = {p, a, b}"
    by (auto simp: set_rivals)
  moreover have "wins b p" "wins b a"
    using assms by (auto simp: wins_def Clock_concurrent_def)
  ultimately show ?thesis
    unfolding shown_champion by (intro champion_dominant) auto
qed

theorem ledger_bigger_id_wins_witness:
  "shown [edit9, added, edit5] (entry_clock added) = Some edit9"
proof -
  have "data_alters (entry_data added) = om_empty" "entry_clock added \<noteq> om_empty"
    "data_alters (entry_data edit5) = entry_clock added"
    "data_alters (entry_data edit9) = entry_clock added"
    "Clock_smallerThan (entry_clock added) (entry_clock edit5)"
    "Clock_smallerThan (entry_clock added) (entry_clock edit9)"
    "Clock_concurrent (entry_clock edit5) (entry_clock edit9)"
    "data_id (entry_data edit5) < data_id (entry_data edit9)"
    by (simp_all add: conflict_simps eval_simps)
  moreover have "mset [edit9, added, edit5] = {#added, edit5, edit9#}" by simp
  ultimately show ?thesis by (rule ledger_bigger_id_wins)
qed

text \<open>Without edits, the balance of entries recorded under distinct clocks is the sum of
  their amounts.\<close>

theorem ledger_plain_sum:
  assumes "list_all (\<lambda>e. data_alters (entry_data e) = om_empty) es"
    and "distinct (map entry_clock es)"
  shows "Ledger_Balance es = Inr (\<Sum>e \<leftarrow> es. data_value (entry_data e))"
  using plain_loop [OF assms, of "\<lparr>ledger_balance = 0, ledger_rows = om_empty\<rparr>"]
  by (auto simp: Ledger_Balance_def Ledger_def)

theorem ledger_plain_sum_witness:
  "Ledger_Balance [Entry_of (Clock_init [(255, 1)]) 255 300 om_empty,
     Entry_of (Clock_init [(255, 2)]) 255 200 om_empty] = Inr 500"
  by (subst ledger_plain_sum) (simp_all add: eval_simps)

end
