(* ===== verification/Url.thy ===== *)
theory Url
  imports Text_Streams
begin

text \<open>
  \<open>cashmere/utils/src/urlutils.cpp\<close>: \<open>ParseUrl\<close> searches the text for a regular expression
  and returns four of its groups. The expression is kept as a term, and a backtracking matcher
  gives it the meaning of \<open>std::regex_search\<close>: leftmost start, greedy repetition, and the last
  text a group matched. \<open>std::stoul\<close>, used on the parts of a URL, is here as well.
\<close>

section \<open>The part of \<open>std::regex\<close> that the expression uses\<close>

datatype regex =
    Lit string
  | NotIn char
  | AnyChar
  | Seq regex regex
  | Optional regex
  | Star regex
  | Group nat regex

type_synonym captures = "(nat \<times> string) list"

type_synonym continuation = "string \<Rightarrow> captures \<Rightarrow> captures option"

definition match_char :: "(char \<Rightarrow> bool) \<Rightarrow> string \<Rightarrow> captures \<Rightarrow> continuation \<Rightarrow> captures option" where
  "match_char P s g k = (case s of [] \<Rightarrow> None | c # cs \<Rightarrow> if P c then k cs g else None)"

text \<open>Greedy repetition; an iteration that consumes nothing is not tried.\<close>

primrec repeat_match ::
  "(string \<Rightarrow> captures \<Rightarrow> continuation \<Rightarrow> captures option) \<Rightarrow> nat \<Rightarrow>
     string \<Rightarrow> captures \<Rightarrow> continuation \<Rightarrow> captures option" where
  "repeat_match m 0 s g k = k s g"
| "repeat_match m (Suc n) s g k =
     (case m s g (\<lambda>s' g'. if length s' < length s then repeat_match m n s' g' k else None) of
        Some r \<Rightarrow> Some r
      | None \<Rightarrow> k s g)"

primrec regex_match :: "regex \<Rightarrow> string \<Rightarrow> captures \<Rightarrow> continuation \<Rightarrow> captures option" where
  "regex_match (Lit l) s g k = (if take (length l) s = l then k (drop (length l) s) g else None)"
| "regex_match (NotIn c) s g k = match_char (\<lambda>d. d \<noteq> c) s g k"
| "regex_match AnyChar s g k =
     match_char (\<lambda>d. (of_char d :: nat) \<noteq> 10 \<and> (of_char d :: nat) \<noteq> 13) s g k"
| "regex_match (Seq r1 r2) s g k = regex_match r1 s g (\<lambda>s' g'. regex_match r2 s' g' k)"
| "regex_match (Optional r) s g k =
     (case regex_match r s g (\<lambda>s' g'. if length s' < length s then k s' g' else None) of
        Some x \<Rightarrow> Some x
      | None \<Rightarrow> k s g)"
| "regex_match (Star r) s g k = repeat_match (regex_match r) (length s) s g k"
| "regex_match (Group n r) s g k =
     regex_match r s g (\<lambda>s' g'. k s' ((n, take (length s - length s') s) # g'))"

fun regex_search :: "regex \<Rightarrow> string \<Rightarrow> captures option" where
  "regex_search r s =
     (case regex_match r s [] (\<lambda>_ g. Some g) of
        Some g \<Rightarrow> Some g
      | None \<Rightarrow> (case s of [] \<Rightarrow> None | _ # cs \<Rightarrow> regex_search r cs))"

declare regex_search.simps [simp del]

definition capture :: "captures \<Rightarrow> nat \<Rightarrow> string" where
  "capture g n = (case map_of g n of None \<Rightarrow> [] | Some t \<Rightarrow> t)"

section \<open>URLs\<close>

record url =
  url_url :: string
  url_schema :: string
  url_id :: string
  url_hostport :: string
  url_path :: string

text \<open>\<open>([^:]*):/{2}(([^/][^@]*)@){0,1}([^/]*){0,1}(/.*){0,1}\<close>\<close>

definition kRegex :: regex where
  "kRegex =
     Seq (Group 1 (Star (NotIn CHR '':'')))
    (Seq (Lit ''://'')
    (Seq (Optional (Group 2
            (Seq (Group 3 (Seq (NotIn CHR ''/'') (Star (NotIn CHR ''@'')))) (Lit ''@''))))
    (Seq (Optional (Group 4 (Star (NotIn CHR ''/''))))
         (Optional (Group 5 (Seq (Lit ''/'') (Star AnyChar)))))))"

definition ParseUrl :: "string \<Rightarrow> url" where
  "ParseUrl u =
     (case regex_search kRegex u of
        Some g \<Rightarrow> \<lparr>url_url = u, url_schema = capture g 1, url_id = capture g 3,
          url_hostport = capture g 4, url_path = capture g 5\<rparr>
      | None \<Rightarrow> \<lparr>url_url = u, url_schema = [], url_id = [], url_hostport = [], url_path = []\<rparr>)"

definition Url_valid :: "url \<Rightarrow> bool" where
  "Url_valid u \<longleftrightarrow>
     url_url u \<noteq> [] \<and> url_schema u \<noteq> [] \<and> (url_id u \<noteq> [] \<or> url_hostport u \<noteq> [])"

lemma url_url_ParseUrl [simp]: "url_url (ParseUrl u) = u"
  by (simp add: ParseUrl_def split: option.split)

section \<open>Numbers in URLs\<close>

text \<open>\<open>None\<close> is the exception for text without digits or a value that does not fit.\<close>

definition stoul :: "nat \<Rightarrow> string \<Rightarrow> 64 word option" where
  "stoul b s =
     (let (neg, u) = scan_sign (dropWhile is_space s);
          ds = fst (scan_digits b (scan_prefix b u));
          ds = (if ds = [] then fst (scan_digits b u) else ds) in
      if ds = [] then None
      else let (v, ok) = conv_unsigned neg (digits_value b ds) in if ok then Some v else None)"

section \<open>Greedy matching\<close>

text \<open>If the text after the longest run can be matched, the longest run is taken.\<close>

lemma repeat_char:
  assumes "length s \<le> n" and "k (dropWhile P s) g \<noteq> None"
  shows "repeat_match (match_char P) n s g k = k (dropWhile P s) g"
  using assms
proof (induction n arbitrary: s)
  case (Suc n)
  show ?case
  proof (cases s)
    case (Cons c cs)
    with Suc show ?thesis by (cases "P c") (auto simp: match_char_def)
  qed (use Suc in \<open>simp add: match_char_def\<close>)
qed simp

text \<open>Without the character that must follow there is no match.\<close>

lemma repeat_char_None:
  assumes "c \<notin> set s" and "\<And>s' g'. c \<notin> set s' \<Longrightarrow> k s' g' = None"
  shows "repeat_match (match_char P) n s g k = None"
  using assms
proof (induction n arbitrary: s)
  case (Suc n)
  then show ?case by (cases s) (auto simp: match_char_def)
qed simp

declare repeat_match.simps [simp del]

lemma regex_match_NotIn [simp]: "regex_match (NotIn c) = match_char (\<lambda>d. d \<noteq> c)"
  by (simp add: fun_eq_iff)

lemma regex_match_AnyChar [simp]:
  "regex_match AnyChar = match_char (\<lambda>d. (of_char d :: nat) \<noteq> 10 \<and> (of_char d :: nat) \<noteq> 13)"
  by (simp add: fun_eq_iff)

lemma dropWhile_until: "c \<notin> set p \<Longrightarrow> dropWhile (\<lambda>d. d \<noteq> c) (p @ c # q) = c # q"
  by (induction p) auto

definition path_ok :: "string \<Rightarrow> bool" where
  "path_ok p \<longleftrightarrow>
     p = [] \<or> hd p = CHR ''/'' \<and> list_all (\<lambda>d. (of_char d :: nat) \<noteq> 10 \<and> (of_char d :: nat) \<noteq> 13) p"

text \<open>The parts of the expression: path, host and port, identifier, schema.\<close>

definition path_regex :: regex where
  "path_regex = Optional (Group 5 (Seq (Lit ''/'') (Star AnyChar)))"

definition host_regex :: regex where
  "host_regex = Optional (Group 4 (Star (NotIn CHR ''/'')))"

definition id_body :: regex where
  "id_body = Seq (NotIn CHR ''/'') (Star (NotIn CHR ''@''))"

definition id_regex :: regex where
  "id_regex = Optional (Group 2 (Seq (Group 3 id_body) (Lit ''@'')))"

definition group :: "nat \<Rightarrow> string \<Rightarrow> captures \<Rightarrow> captures" where
  "group n t g = (if t = [] then g else (n, t) # g)"

definition id_groups :: "string \<Rightarrow> captures \<Rightarrow> captures" where
  "id_groups i g = (if i = [] then g else (2, i @ ''@'') # (3, i) # g)"

lemma kRegex_parts:
  "kRegex = Seq (Group 1 (Star (NotIn CHR '':'')))
     (Seq (Lit ''://'') (Seq id_regex (Seq host_regex path_regex)))"
  by (simp add: kRegex_def id_regex_def id_body_def host_regex_def path_regex_def)

lemma match_path:
  assumes "path_ok p"
  shows "regex_match path_regex p g (\<lambda>_ g. Some g) = Some (group 5 p g)"
proof (cases p)
  case (Cons c cs)
  then have c: "c = CHR ''/''"
    and run: "dropWhile (\<lambda>d. (of_char d :: nat) \<noteq> 10 \<and> (of_char d :: nat) \<noteq> 13) cs = []"
    using assms by (auto simp: path_ok_def list_all_iff)
  show ?thesis
    unfolding path_regex_def Cons c
    by (simp, subst repeat_char) (simp_all add: run group_def)
qed (simp add: path_regex_def group_def)

lemma match_host:
  assumes "CHR ''/'' \<notin> set h" and "path_ok p"
    and k: "\<And>g. k p g \<noteq> None"
  shows "regex_match host_regex (h @ p) g k = k p (group 4 h g)"
proof -
  have run: "dropWhile (\<lambda>d. d \<noteq> CHR ''/'') (h @ p) = p"
    using assms(1,2) by (cases p) (auto simp: path_ok_def dropWhile_until dropWhile_eq_Nil_conv)
  show ?thesis
  proof (cases "h = []")
    case True
    then show ?thesis using assms(2) k
      by (cases p)
        (auto simp: host_regex_def match_char_def path_ok_def group_def repeat_match.simps)
  next
    case False
    obtain y where y: "k p ((4, h) # g) = Some y" using k by blast
    then show ?thesis
      unfolding host_regex_def using False
      by (simp, subst repeat_char) (simp_all add: run group_def)
  qed
qed

lemma match_id_body:
  assumes "i \<noteq> []" and "hd i \<noteq> CHR ''/''" and "CHR ''@'' \<notin> set i"
    and "k (CHR ''@'' # t) g \<noteq> None"
  shows "regex_match id_body (i @ CHR ''@'' # t) g k = k (CHR ''@'' # t) g"
proof -
  obtain c cs where i: "i = c # cs" using assms(1) by (cases i) simp_all
  have run: "dropWhile (\<lambda>d. d \<noteq> CHR ''@'') (cs @ CHR ''@'' # t) = CHR ''@'' # t"
    using assms(3) i by (simp add: dropWhile_until)
  show ?thesis
    unfolding id_body_def using assms(2,4) i
    by (simp add: match_char_def, subst repeat_char) (simp_all add: run)
qed

lemma match_id:
  assumes "i \<noteq> []" and "hd i \<noteq> CHR ''/''" and "CHR ''@'' \<notin> set i"
    and k: "\<And>g. k t g \<noteq> None"
  shows "regex_match id_regex (i @ CHR ''@'' # t) g k =
           k t ((2, i @ ''@'') # (3, i) # g)"
proof -
  obtain y where y: "k t ((2, i @ ''@'') # (3, i) # g) = Some y" using k by blast
  then show ?thesis
    by (simp add: id_regex_def match_id_body [OF assms(1-3)])
qed

lemma match_no_id:
  assumes "CHR ''@'' \<notin> set t"
  shows "regex_match id_regex t g k = k t g"
proof -
  have "regex_match id_body t g k' = None"
    if "\<And>s' g'. CHR ''@'' \<notin> set s' \<Longrightarrow> k' s' g' = None" for k'
    using assms that
    by (cases t)
      (auto simp: id_body_def match_char_def intro: repeat_char_None [where c = "CHR ''@''"])
  moreover have "take (Suc 0) s' \<noteq> ''@''" if "CHR ''@'' \<notin> set s'" for s'
    using that by (cases s') auto
  ultimately show ?thesis by (simp add: id_regex_def)
qed

lemma match_schema:
  assumes "CHR '':'' \<notin> set s" and k: "\<And>g. regex_match r t g k \<noteq> None"
  shows "regex_match (Seq (Group 1 (Star (NotIn CHR '':''))) (Seq (Lit ''://'') r))
           (s @ ''://'' @ t) g k = regex_match r t ((1, s) # g) k"
proof -
  have run: "dropWhile (\<lambda>d. d \<noteq> CHR '':'') (s @ ''://'' @ t) = ''://'' @ t"
    using assms(1) by (simp add: dropWhile_until)
  obtain y where "regex_match r t ((1, s) # g) k = Some y" using k by blast
  then show ?thesis
    by (simp, subst repeat_char) (use run in simp_all)
qed

lemma kRegex_search:
  assumes "CHR '':'' \<notin> set s" and "CHR ''/'' \<notin> set h" and "path_ok p"
    and "i \<noteq> [] \<and> hd i \<noteq> CHR ''/'' \<and> CHR ''@'' \<notin> set i \<and> a = i @ ''@'' \<or>
         i = [] \<and> a = [] \<and> CHR ''@'' \<notin> set (h @ p)"
  shows "regex_search kRegex (s @ ''://'' @ a @ h @ p) =
    Some (group 5 p (group 4 h (id_groups i [(1, s)])))"
proof -
  let ?ret = "\<lambda>_ g. Some (g :: captures)"
  have tail: "regex_match (Seq host_regex path_regex) (h @ p) g ?ret =
      Some (group 5 p (group 4 h g))" for g
    using assms(2,3) by (simp add: match_host match_path)
  have ids: "regex_match (Seq id_regex (Seq host_regex path_regex)) (a @ h @ p) g ?ret =
      Some (group 5 p (group 4 h (id_groups i g)))" for g
    using assms(4)
  proof
    assume "i \<noteq> [] \<and> hd i \<noteq> CHR ''/'' \<and> CHR ''@'' \<notin> set i \<and> a = i @ ''@''"
    then show ?thesis
      using match_id [of i "\<lambda>s' g'. regex_match (Seq host_regex path_regex) s' g' ?ret" "h @ p" g]
        tail by (simp add: id_groups_def)
  next
    assume "i = [] \<and> a = [] \<and> CHR ''@'' \<notin> set (h @ p)"
    then show ?thesis
      using match_no_id [of "h @ p" g] tail by (simp add: id_groups_def)
  qed
  have "regex_match kRegex (s @ ''://'' @ a @ h @ p) [] ?ret =
      Some (group 5 p (group 4 h (id_groups i [(1, s)])))"
    unfolding kRegex_parts using ids assms(1) by (subst match_schema) auto
  then show ?thesis by (simp add: regex_search.simps [of kRegex])
qed

section \<open>Properties\<close>

text \<open>C29: A URL made of a schema, an identifier, a host with port and a path is taken apart into
  exactly these parts; the identifier with its \<open>@\<close> may be missing if no \<open>@\<close> follows.\<close>

theorem ParseUrl_parts:
  assumes "CHR '':'' \<notin> set s" and "CHR ''/'' \<notin> set h" and "path_ok p"
    and "i \<noteq> [] \<and> hd i \<noteq> CHR ''/'' \<and> CHR ''@'' \<notin> set i \<and> a = i @ ''@'' \<or>
         i = [] \<and> a = [] \<and> CHR ''@'' \<notin> set (h @ p)"
  shows "ParseUrl (s @ ''://'' @ a @ h @ p) =
    \<lparr>url_url = s @ ''://'' @ a @ h @ p, url_schema = s, url_id = i, url_hostport = h, url_path = p\<rparr>"
  unfolding ParseUrl_def kRegex_search [OF assms]
  by (simp add: capture_def group_def id_groups_def)

theorem ParseUrl_parts_witness:
  "ParseUrl (''file'' @ ''://'' @ (''cafe'' @ ''@'') @ ''localhost:80'' @ ''/tmp/db'') =
    \<lparr>url_url = ''file://cafe@localhost:80/tmp/db'', url_schema = ''file'', url_id = ''cafe'',
      url_hostport = ''localhost:80'', url_path = ''/tmp/db''\<rparr>"
  by (subst ParseUrl_parts [where i = "''cafe''"]) (simp_all add: path_ok_def)

end
