(* ===== verification/Broker.thy ===== *)
theory Broker
  imports Entry Url
begin

text \<open>
  The objects of a network of brokers and how they refer to each other:
  \<open>cashmere/src/brokerbase.cpp\<close> (\<open>Connection\<close> and the non-virtual part of \<open>BrokerBase\<close>),
  \<open>brokerbaseimpl.cpp\<close>, \<open>brokerstore.cpp\<close> and the record types of
  \<open>crdt/include/cashmere/connectioninfo.h\<close>. A broker is named by its address; the world maps
  addresses to brokers, so that a call through a connection changes the broker it points to and
  may come back to the caller. A \<open>weak_ptr\<close> is an optional address, empty when that address
  holds no broker.
\<close>

section \<open>Objects\<close>

type_synonym addr = nat

record conn_info =
  info_distance :: distance
  info_clock :: clock

type_synonym provides = "(ident, conn_info) omap"
type_synonym sources_map = "(source, provides) omap"

record connection =
  conn_source :: source
  conn_version :: clock
  conn_sources :: provides
  conn_broker :: "addr option"

text \<open>The class of a broker: \<open>Broker\<close>, \<open>Journal\<close> or \<open>JournalFile\<close>.\<close>

datatype kind = Hub | Cache | File

record broker =
  b_kind :: kind
  b_url :: url
  b_id :: ident
  b_hostname :: string
  b_port :: "16 word"
  b_stored :: bool
  b_connections :: "connection list"
  b_entries :: "(clock, data) omap"

text \<open>\<open>w_store\<close> and \<open>w_builders\<close> are the tables of the \<open>BrokerStore\<close>, \<open>w_random\<close> the numbers
  that \<open>Random::next\<close> will yield and \<open>w_drawn\<close> how many were taken, \<open>w_files\<close> the file system
  under the file journals.\<close>

record world =
  w_brokers :: "(addr, broker) omap"
  w_store :: "(string, addr) omap"
  w_builders :: "(string, kind) omap"
  w_random :: "nat \<Rightarrow> ident"
  w_drawn :: nat
  w_files :: "(string, string) omap"

definition Connection_none :: connection where
  "Connection_none =
     \<lparr>conn_source = 0, conn_version = om_empty, conn_sources = om_empty, conn_broker = None\<rparr>"

definition Connection_to :: "addr option \<Rightarrow> connection" where
  "Connection_to b =
     \<lparr>conn_source = 0, conn_version = om_empty, conn_sources = om_empty, conn_broker = b\<rparr>"

section \<open>Reading and writing the world\<close>

text \<open>What a method of the broker at \<open>a\<close> reads through \<open>this\<close>; methods run on live brokers, so the
  placeholder for a missing one is never used.\<close>

definition no_broker :: broker where
  "no_broker = \<lparr>b_kind = Hub, b_url = \<lparr>url_url = [], url_schema = [], url_id = [],
     url_hostport = [], url_path = []\<rparr>, b_id = 0, b_hostname = [], b_port = 0, b_stored = False,
     b_connections = [], b_entries = om_empty\<rparr>"

definition broker_at :: "world \<Rightarrow> addr \<Rightarrow> broker" where
  "broker_at w a = (case om_find (w_brokers w) a of None \<Rightarrow> no_broker | Some b \<Rightarrow> b)"

definition set_broker :: "addr \<Rightarrow> (broker \<Rightarrow> broker) \<Rightarrow> world \<Rightarrow> world" where
  "set_broker a f w =
     (case om_find (w_brokers w) a of
        None \<Rightarrow> w
      | Some b \<Rightarrow> w\<lparr>w_brokers := om_put a (f b) (w_brokers w)\<rparr>)"

abbreviation conns :: "world \<Rightarrow> addr \<Rightarrow> connection list" where
  "conns w a \<equiv> b_connections (broker_at w a)"

abbreviation conn :: "world \<Rightarrow> addr \<Rightarrow> nat \<Rightarrow> connection" where
  "conn w a i \<equiv> conns w a ! i"

definition set_conn :: "addr \<Rightarrow> nat \<Rightarrow> (connection \<Rightarrow> connection) \<Rightarrow> world \<Rightarrow> world" where
  "set_conn a i f =
     set_broker a (\<lambda>b. b\<lparr>b_connections := (b_connections b)[i := f (b_connections b ! i)]\<rparr>)"

definition push_conn :: "addr \<Rightarrow> connection \<Rightarrow> world \<Rightarrow> world" where
  "push_conn a c = set_broker a (\<lambda>b. b\<lparr>b_connections := b_connections b @ [c]\<rparr>)"

text \<open>\<open>weak_ptr::lock\<close>.\<close>

definition Connection_broker :: "world \<Rightarrow> connection \<Rightarrow> addr option" where
  "Connection_broker w c =
     (case conn_broker c of
        None \<Rightarrow> None
      | Some b \<Rightarrow> if om_find (w_brokers w) b = None then None else Some b)"

definition Connection_reset :: "connection \<Rightarrow> connection" where
  "Connection_reset c = c\<lparr>conn_broker := None\<rparr>"

lemma reset_simps [simp]:
  "conn_broker (Connection_reset c) = None" "conn_source (Connection_reset c) = conn_source c"
  "conn_version (Connection_reset c) = conn_version c" "conn_sources (Connection_reset c) = conn_sources c"
  by (simp_all add: Connection_reset_def)

definition Connection_valid :: "world \<Rightarrow> connection \<Rightarrow> bool" where
  "Connection_valid w c \<longleftrightarrow> Connection_broker w c \<noteq> None"

definition Connection_url :: "world \<Rightarrow> connection \<Rightarrow> string" where
  "Connection_url w c =
     (case Connection_broker w c of None \<Rightarrow> [] | Some b \<Rightarrow> url_url (b_url (broker_at w b)))"

text \<open>What a broker tells about itself.\<close>

abbreviation BrokerBase_id :: "world \<Rightarrow> addr \<Rightarrow> ident" where
  "BrokerBase_id w a \<equiv> b_id (broker_at w a)"

abbreviation BrokerBase_url :: "world \<Rightarrow> addr \<Rightarrow> string" where
  "BrokerBase_url w a \<equiv> url_url (b_url (broker_at w a))"

abbreviation BrokerBase_location :: "world \<Rightarrow> addr \<Rightarrow> string" where
  "BrokerBase_location w a \<equiv> url_path (b_url (broker_at w a))"

abbreviation BrokerBase_port :: "world \<Rightarrow> addr \<Rightarrow> 16 word" where
  "BrokerBase_port w a \<equiv> b_port (broker_at w a)"

abbreviation BrokerBase_hostname :: "world \<Rightarrow> addr \<Rightarrow> string" where
  "BrokerBase_hostname w a \<equiv> b_hostname (broker_at w a)"

section \<open>Construction of brokers and the store\<close>

definition Random_next :: "world \<Rightarrow> ident \<times> world" where
  "Random_next w = (w_random w (w_drawn w), w\<lparr>w_drawn := Suc (w_drawn w)\<rparr>)"

text \<open>\<open>BrokerBase::Impl\<close>: the identifier is the hexadecimal user part of the URL, or random.\<close>

definition BrokerBase_Impl :: "kind \<Rightarrow> string \<Rightarrow> world \<Rightarrow> broker \<times> world" where
  "BrokerBase_Impl k u w =
     (let p = ParseUrl u;
          (i, w) = (case stoul 16 (url_id p) of
             Some i \<Rightarrow> (i, w)
           | None \<Rightarrow> Random_next w);
          host = takeWhile (\<lambda>c. c \<noteq> CHR '':'') (url_hostport p);
          port_text = (if CHR '':'' \<in> set (url_hostport p)
             then drop (Suc (length host)) (url_hostport p) else url_hostport p);
          port = (case stoul 10 port_text of Some n \<Rightarrow> ucast n | None \<Rightarrow> 0)
      in (\<lparr>b_kind = k, b_url = p, b_id = i, b_hostname = host, b_port = port, b_stored = False,
            b_connections = [Connection_none], b_entries = om_empty\<rparr>, w))"

definition fresh_addr :: "world \<Rightarrow> addr" where
  "fresh_addr w = fold (\<lambda>(a, _) m. max (Suc a) m) (entries (w_brokers w)) 0"

definition BrokerStore_getOrCreate :: "string \<Rightarrow> world \<Rightarrow> addr option \<times> world" where
  "BrokerStore_getOrCreate u w =
     (case om_find (w_store w) u of
        Some a \<Rightarrow> (Some a, w)
      | None \<Rightarrow>
          (case om_find (w_builders w) (url_schema (ParseUrl u)) of
             None \<Rightarrow> (None, w)
           | Some k \<Rightarrow>
               let (b, w) = BrokerBase_Impl k u w; a = fresh_addr w in
               (Some a, w\<lparr>w_brokers := om_put a (b\<lparr>b_stored := True\<rparr>) (w_brokers w),
                          w_store := om_put u a (w_store w)\<rparr>)))"

definition BrokerStore_insert :: "string \<Rightarrow> addr \<Rightarrow> world \<Rightarrow> bool \<times> world" where
  "BrokerStore_insert u a w =
     (False, (set_broker a (\<lambda>b. b\<lparr>b_stored := True\<rparr>) w)\<lparr>w_store := om_put u a (w_store w)\<rparr>)"

definition BrokerStore_size :: "world \<Rightarrow> nat" where
  "BrokerStore_size w = om_size (w_store w)"

definition BrokerBase_stub :: "addr \<Rightarrow> world \<Rightarrow> connection \<times> world" where
  "BrokerBase_stub a w =
     (if b_stored (broker_at w a) then
        let (b, w) = BrokerStore_getOrCreate (url_url (b_url (broker_at w a))) w in
        (Connection_to b, w)
      else (Connection_to (Some a), w))"

section \<open>The clock of a broker\<close>

text \<open>\<open>Broker::clock\<close> and \<open>Broker::setClock\<close>: the version of the connection at the front.\<close>

definition Broker_clock :: "world \<Rightarrow> addr \<Rightarrow> clock" where
  "Broker_clock w a = (case conns w a of [] \<Rightarrow> om_empty | c # _ \<Rightarrow> conn_version c)"

definition Broker_setClock :: "addr \<Rightarrow> clock \<Rightarrow> world \<Rightarrow> world" where
  "Broker_setClock a clock = set_conn a 0 (\<lambda>c. c\<lparr>conn_version := clock\<rparr>)"

declare Connection_none_def [eval_simps] Connection_to_def [eval_simps] broker_at_def [eval_simps]
  set_broker_def [eval_simps] set_conn_def [eval_simps] push_conn_def [eval_simps]
  Connection_broker_def [eval_simps] Connection_reset_def [eval_simps] Random_next_def [eval_simps] Connection_valid_def [eval_simps]
  Connection_url_def [eval_simps] fresh_addr_def [eval_simps]
  BrokerStore_getOrCreate_def [eval_simps] BrokerStore_insert_def [eval_simps]
  BrokerBase_stub_def [eval_simps] Broker_clock_def [eval_simps] Broker_setClock_def [eval_simps]

section \<open>Frame facts\<close>

text \<open>Which brokers exist.\<close>

definition live :: "world \<Rightarrow> addr \<Rightarrow> bool" where
  "live w a \<longleftrightarrow> om_find (w_brokers w) a \<noteq> None"

lemma live_set_broker [simp]: "live (set_broker a f w) b = live w b"
  by (auto simp: live_def set_broker_def split: option.split)

lemma broker_at_set_broker:
  "broker_at (set_broker a f w) b = (if a = b \<and> live w a then f (broker_at w a) else broker_at w b)"
  by (auto simp: live_def broker_at_def set_broker_def split: option.split)

lemma live_set_conn [simp]: "live (set_conn a i f w) b = live w b"
  by (simp add: set_conn_def)

lemma live_push_conn [simp]: "live (push_conn a c w) b = live w b"
  by (simp add: push_conn_def)

lemma conns_set_conn:
  "conns (set_conn a i f w) b =
     (if a = b \<and> live w a then (conns w a)[i := f (conn w a i)] else conns w b)"
  by (auto simp: set_conn_def broker_at_set_broker)

lemma not_live_conns: "\<not> live w a \<Longrightarrow> conns w a = []"
  by (auto simp: live_def broker_at_def no_broker_def)

lemma length_conns_set_conn [simp]: "length (conns (set_conn a i f w) b) = length (conns w b)"
  by (simp add: conns_set_conn)

lemma Connection_broker_live: "Connection_broker w c = Some b \<longleftrightarrow> conn_broker c = Some b \<and> live w b"
  by (auto simp: Connection_broker_def live_def split: option.splits if_splits)

lemma Broker_clock_conv: "conns w a \<noteq> [] \<Longrightarrow> Broker_clock w a = conn_version (conn w a 0)"
  by (cases "conns w a") (simp_all add: Broker_clock_def)

text \<open>A broker registered under its own URL is its own stub, and taking the stub changes nothing.\<close>

definition registered :: "world \<Rightarrow> addr \<Rightarrow> bool" where
  "registered w a \<longleftrightarrow>
     (b_stored (broker_at w a) \<longrightarrow>
        om_find (w_store w) (url_url (b_url (broker_at w a))) = Some a)"

lemma stub_registered: "registered w a \<Longrightarrow> BrokerBase_stub a w = (Connection_to (Some a), w)"
  by (simp add: registered_def BrokerBase_stub_def BrokerStore_getOrCreate_def)

end
