(* ===== verification/Journal_Store.thy ===== *)
theory Journal_Store
  imports Broker
begin

text \<open>
  The storage behind a journal: the virtual operations \<open>save\<close>, \<open>entry\<close> and \<open>entries\<close> of
  \<open>BrokerBase\<close>, as \<open>cashmere/plugins/src/cache.cpp\<close> and \<open>cashmere/plugins/src/file.cpp\<close>
  implement them. The cache keeps a map from clock to payload; the file journal appends one line
  per entry to the file of the entry's device. Writes to files are assumed to succeed.
\<close>

section \<open>Journal: the cache\<close>

definition Journal_save :: "addr \<Rightarrow> entry \<Rightarrow> world \<Rightarrow> bool \<times> world" where
  "Journal_save a data w =
     (if om_find (b_entries (broker_at w a)) (entry_clock data) \<noteq> None then (False, w)
      else (True, set_broker a
        (\<lambda>b. b\<lparr>b_entries := om_put (entry_clock data) (entry_data data) (b_entries b)\<rparr>) w))"

definition Journal_entry :: "world \<Rightarrow> addr \<Rightarrow> clock \<Rightarrow> data" where
  "Journal_entry w a time =
     (case om_find (b_entries (broker_at w a)) time of None \<Rightarrow> no_data | Some d \<Rightarrow> d)"

definition Journal_entries :: "world \<Rightarrow> addr \<Rightarrow> entry list" where
  "Journal_entries w a =
     map (\<lambda>(c, d). \<lparr>entry_clock = c, entry_data = d\<rparr>) (entries (b_entries (broker_at w a)))"

section \<open>JournalFile\<close>

definition file_of :: "world \<Rightarrow> addr \<Rightarrow> ident \<Rightarrow> string" where
  "file_of w a i = Filename (BrokerBase_location w a) i"

definition JournalFile_filename :: "world \<Rightarrow> addr \<Rightarrow> string" where
  "JournalFile_filename w a = file_of w a (BrokerBase_id w a)"

definition JournalFile_save :: "addr \<Rightarrow> entry \<Rightarrow> world \<Rightarrow> bool \<times> world" where
  "JournalFile_save a data w =
     (let f = file_of w a (data_id (entry_data data));
          old = (case om_find (w_files w) f of None \<Rightarrow> [] | Some t \<Rightarrow> t)
      in (True, w\<lparr>w_files := om_put f (old @ Entry_str data @ [CHR ''\<newline>'']) (w_files w)\<rparr>))"

text \<open>The loop over the counters of the clock: it stops at the first file that has no line with
  the counter's number.\<close>

fun JournalFile_lookup :: "world \<Rightarrow> addr \<Rightarrow> clock \<Rightarrow> (ident \<times> time) list \<Rightarrow> data" where
  "JournalFile_lookup w a clock [] = no_data"
| "JournalFile_lookup w a clock ((i, count) # ps) =
     (let s = open_file (om_find (w_files w) (file_of w a i));
          (found, s) = SeekToLine s (unat count) in
      if \<not> found then no_data
      else let (_, e, _) = Entry_Read s no_entry in
      if entry_clock e = clock then entry_data e else JournalFile_lookup w a clock ps)"

definition JournalFile_entry :: "world \<Rightarrow> addr \<Rightarrow> clock \<Rightarrow> data" where
  "JournalFile_entry w a clock = JournalFile_lookup w a clock (entries clock)"

fun read_entries :: "nat \<Rightarrow> istream \<Rightarrow> entry list" where
  "read_entries 0 s = []"
| "read_entries (Suc n) s =
     (let (ok, e, s) = Entry_Read s no_entry; (_, s) = ReadChar s CHR ''\<newline>'' in
      if ok then e # read_entries n s else read_entries n s)"

definition JournalFile_entries :: "world \<Rightarrow> addr \<Rightarrow> entry list" where
  "JournalFile_entries w a =
     concat (map (\<lambda>(i, count).
         read_entries (unat count) (open_file (om_find (w_files w) (file_of w a i))))
       (entries (Broker_clock w a)))"

section \<open>Virtual dispatch\<close>

text \<open>\<open>BrokerBase\<close> itself stores nothing, and neither does a hub.\<close>

definition BrokerBase_save :: "addr \<Rightarrow> entry \<Rightarrow> world \<Rightarrow> bool \<times> world" where
  "BrokerBase_save a data w =
     (case b_kind (broker_at w a) of
        Hub \<Rightarrow> (False, w) | Cache \<Rightarrow> Journal_save a data w | File \<Rightarrow> JournalFile_save a data w)"

definition BrokerBase_entry :: "world \<Rightarrow> addr \<Rightarrow> clock \<Rightarrow> data" where
  "BrokerBase_entry w a time =
     (case b_kind (broker_at w a) of
        Hub \<Rightarrow> no_data | Cache \<Rightarrow> Journal_entry w a time | File \<Rightarrow> JournalFile_entry w a time)"

definition BrokerBase_entries :: "world \<Rightarrow> addr \<Rightarrow> entry list" where
  "BrokerBase_entries w a =
     (case b_kind (broker_at w a) of
        Hub \<Rightarrow> [] | Cache \<Rightarrow> Journal_entries w a | File \<Rightarrow> JournalFile_entries w a)"

definition BrokerBase_contains :: "world \<Rightarrow> addr \<Rightarrow> clock \<Rightarrow> bool" where
  "BrokerBase_contains w a time \<longleftrightarrow> Data_valid (BrokerBase_entry w a time)"

definition BrokerBase_schema :: "kind \<Rightarrow> string" where
  "BrokerBase_schema k = (case k of Hub \<Rightarrow> ''hub'' | Cache \<Rightarrow> ''cache'' | File \<Rightarrow> ''file'')"

declare Journal_save_def [eval_simps] Journal_entry_def [eval_simps]
  Journal_entries_def [eval_simps] BrokerBase_save_def [eval_simps]
  BrokerBase_entry_def [eval_simps] BrokerBase_entries_def [eval_simps]
  BrokerBase_contains_def [eval_simps] JournalFile_save_def [eval_simps]
  JournalFile_entry_def [eval_simps] JournalFile_entries_def [eval_simps]
  file_of_def [eval_simps] Filename_def [eval_simps] join_path_def [eval_simps]
  open_file_def [eval_simps] SeekToLine_def [eval_simps] ignore_line_def [eval_simps]

section \<open>The files of a file journal\<close>

text \<open>The text of a device's file after the entries \<open>es\<close> were saved, and the files of a journal
  given the log of each device.\<close>

definition file_text :: "entry list \<Rightarrow> string" where
  "file_text es = concat (map (\<lambda>e. Entry_str e @ [CHR ''\<newline>'']) es)"

definition logged :: "world \<Rightarrow> addr \<Rightarrow> (ident \<Rightarrow> entry list) \<Rightarrow> bool" where
  "logged w a log \<longleftrightarrow>
     (\<forall>i. om_find (w_files w) (file_of w a i) =
        (if log i = [] then None else Some (file_text (log i))))"

lemma digit_char_not_newline: "d < 16 \<Longrightarrow> digit_char d \<noteq> CHR ''\<newline>''"
  using digit_char_no_space [of d] by (auto simp: is_space_def)

lemma show_nat_no_newline: "2 \<le> b \<Longrightarrow> b \<le> 16 \<Longrightarrow> CHR ''\<newline>'' \<notin> set (show_nat b n)"
  unfolding show_nat_def
proof
  assume b: "2 \<le> b" "b \<le> 16" and "CHR ''\<newline>'' \<in> set (map digit_char (digits b n))"
  then obtain d where "d \<in> set (digits b n)" "digit_char d = CHR ''\<newline>''" by auto
  then show False using digits_less [of b d n] digit_char_not_newline [of d] b by simp
qed

lemma str_no_newline:
  "CHR ''\<newline>'' \<notin> set (show_hex i)" "CHR ''\<newline>'' \<notin> set (show_dec t)" "CHR ''\<newline>'' \<notin> set (show_signed v)"
  using show_nat_no_newline by (auto simp: show_hex_def show_dec_def show_signed_def)

lemma Clock_str_no_newline: "CHR ''\<newline>'' \<notin> set (Clock_str c)"
  by (auto simp: Clock_str_def show_pair_def str_no_newline split: list.splits)

lemma Entry_str_no_newline: "CHR ''\<newline>'' \<notin> set (Entry_str e)"
  by (simp add: Entry_str_def Data_str_def str_no_newline Clock_str_no_newline)

lemma ignore_line_input: "CHR ''\<newline>'' \<notin> set l \<Longrightarrow> ignore_line (input (l @ CHR ''\<newline>'' # r)) = input r"
proof -
  assume "CHR ''\<newline>'' \<notin> set l"
  then have "dropWhile (\<lambda>c. c \<noteq> CHR ''\<newline>'') (l @ CHR ''\<newline>'' # r) = CHR ''\<newline>'' # r"
    by (induction l) auto
  then show ?thesis by (simp add: ignore_line_def good_def)
qed

lemma file_text_Cons: "file_text (e # es) = Entry_str e @ CHR ''\<newline>'' # file_text es"
  by (simp add: file_text_def)

lemma file_text_snoc: "file_text es @ Entry_str e @ [CHR ''\<newline>''] = file_text (es @ [e])"
  by (simp add: file_text_def)

lemma seek_file_text:
  "k \<le> length es \<Longrightarrow> SeekToLine (input (file_text es)) (Suc k) = (True, input (file_text (drop k es)))"
proof (induction k arbitrary: es)
  case 0
  then show ?case by (simp add: SeekToLine_def SeekToLine_loop.simps)
next
  case (Suc k)
  then obtain e es' where es: "es = e # es'" by (cases es) auto
  have "ignore_line (input (file_text es)) = input (file_text es')"
    by (simp add: es file_text_Cons ignore_line_input Entry_str_no_newline)
  then have "SeekToLine_loop (input (file_text es)) (Suc (Suc k)) =
      SeekToLine_loop (input (file_text es')) (Suc k)"
    by (subst SeekToLine_loop.simps) simp
  then show ?case using Suc by (simp add: SeekToLine_def es)
qed

lemma Entry_Read_file_text:
  "Entry_Read (input (file_text (e # es))) no_entry = (True, e, input (CHR ''\<newline>'' # file_text es))"
  unfolding file_text_Cons by (rule Entry_Read_str) (simp_all add: no_entry_def no_data_def)

lemma read_entries_file_text: "n \<le> length es \<Longrightarrow> read_entries n (input (file_text es)) = take n es"
proof (induction n arbitrary: es)
  case (Suc n)
  then obtain e es' where "es = e # es'" by (cases es) auto
  then show ?case using Suc by (simp add: Entry_Read_file_text ReadChar_input)
qed simp

section \<open>One file per device\<close>

lemma digits_value_zeros: "digits_value b (replicate k 0 @ ds) = digits_value b ds"
  by (induction k) (simp_all add: digits_value_def)

lemma Filename_inj: "Filename base i = Filename base j \<longleftrightarrow> i = j"
proof
  define pad where "pad i = replicate (16 - length (show_hex i)) (0::nat) @ digits 16 (unat i)" for i :: ident
  have zero: "digit_char 0 = CHR ''0''" by (simp add: digit_char_def char_of_def bit_simps)
  have chars: "replicate (16 - length (show_hex i)) CHR ''0'' @ show_hex i = map digit_char (pad i)" for i
    by (simp add: pad_def show_hex_def show_nat_def zero)
  have small: "d < 16" if "d \<in> set (pad i)" for d i
    using that digits_less [of 16 d "unat i"] by (auto simp: pad_def)
  have undo: "map (the \<circ> digit_value) (map digit_char (pad i)) = pad i" for i
    using small [of _ i] by (auto simp: digit_value_digit_char intro: map_idI)
  have number: "digits_value 16 (pad i) = unat i" for i by (simp add: pad_def digits_value_zeros)
  assume "Filename base i = Filename base j"
  then have "map digit_char (pad i) = map digit_char (pad j)"
    by (auto simp: Filename_def join_path_def chars split: if_splits)
  then have "pad i = pad j" using undo by metis
  then show "i = j" using number by (metis word_unat_eq_iff)
qed simp

lemma file_save_logs:
  assumes "logged w a log"
  shows "\<exists>w'. JournalFile_save a e w = (True, w') \<and> w_brokers w' = w_brokers w \<and>
    logged w' a (\<lambda>i. if i = data_id (entry_data e) then log i @ [e] else log i)"
proof -
  let ?f = "file_of w a (data_id (entry_data e))"
  let ?t = "file_text (log (data_id (entry_data e)) @ [e])"
  have "(case om_find (w_files w) ?f of None \<Rightarrow> [] | Some t \<Rightarrow> t) @ Entry_str e @ [CHR ''\<newline>''] = ?t"
    using assms by (simp add: logged_def file_text_def)
  then have "JournalFile_save a e w = (True, w\<lparr>w_files := om_put ?f ?t (w_files w)\<rparr>)"
    by (simp add: JournalFile_save_def Let_def)
  moreover have same: "file_of (w\<lparr>w_files := fs\<rparr>) a i = file_of w a i" for fs i
    by (simp add: file_of_def broker_at_def)
  have "logged (w\<lparr>w_files := om_put ?f ?t (w_files w)\<rparr>) a
      (\<lambda>i. if i = data_id (entry_data e) then log i @ [e] else log i)"
    using assms unfolding logged_def same
    by (auto simp: file_of_def Filename_inj)
  ultimately show ?thesis by simp
qed

definition JournalFile_saves :: "addr \<Rightarrow> entry list \<Rightarrow> world \<Rightarrow> world" where
  "JournalFile_saves a es w = fold (\<lambda>e w. snd (JournalFile_save a e w)) es w"

definition device_log :: "entry list \<Rightarrow> ident \<Rightarrow> entry list" where
  "device_log es i = filter (\<lambda>e. data_id (entry_data e) = i) es"

lemma saves_logged:
  "logged w a log \<Longrightarrow> logged (JournalFile_saves a es w) a (\<lambda>i. log i @ device_log es i) \<and>
     w_brokers (JournalFile_saves a es w) = w_brokers w"
proof (induction es arbitrary: w log)
  case (Cons e es)
  obtain w1 where w1: "JournalFile_save a e w = (True, w1)" "w_brokers w1 = w_brokers w"
    "logged w1 a (\<lambda>i. if i = data_id (entry_data e) then log i @ [e] else log i)"
    using file_save_logs [OF Cons.prems] by blast
  have "(\<lambda>i. (if i = data_id (entry_data e) then log i @ [e] else log i) @ device_log es i) =
      (\<lambda>i. log i @ device_log (e # es) i)"
    by (auto simp: device_log_def)
  then show ?case using Cons.IH [OF w1(3)] w1(1,2) by (simp add: JournalFile_saves_def)
qed (simp add: JournalFile_saves_def device_log_def)

lemma file_entries_logged:
  assumes "logged w a log"
    and "list_all (\<lambda>(i, t). unat t \<le> length (log i)) (entries (Broker_clock w a))"
  shows "JournalFile_entries w a =
    concat (map (\<lambda>(i, t). take (unat t) (log i)) (entries (Broker_clock w a)))"
proof -
  have "read_entries (unat t) (open_file (om_find (w_files w) (file_of w a i))) = take (unat t) (log i)"
    if "unat t \<le> length (log i)" for i t
    using that assms(1)
    by (cases "log i = []") (simp_all add: logged_def open_file_def read_entries_file_text)
  then have "map (\<lambda>(i, t). read_entries (unat t) (open_file (om_find (w_files w) (file_of w a i))))
        (entries (Broker_clock w a)) =
      map (\<lambda>(i, t). take (unat t) (log i)) (entries (Broker_clock w a))"
    using assms(2) by (fastforce simp: list_all_iff)
  then show ?thesis by (simp only: JournalFile_entries_def)
qed

lemma file_lookup_logged:
  assumes log: "logged w a log" and e: "entry_clock e = c"
    and same: "\<And>i e'. e' \<in> set (log i) \<Longrightarrow> entry_clock e' = c \<Longrightarrow> e' = e"
    and lines: "\<And>i t. (i, t) \<in> set ps \<Longrightarrow> 0 < unat t \<and> unat t \<le> length (log i)"
    and found: "\<exists>(i, t) \<in> set ps. log i ! (unat t - 1) = e"
  shows "JournalFile_lookup w a c ps = entry_data e"
  using lines found
proof (induction ps)
  case (Cons p ps)
  obtain i t where p: "p = (i, t)" by (cases p)
  have t: "0 < unat t" "unat t \<le> length (log i)" using Cons.prems(1) p by auto
  then obtain k where k: "unat t = Suc k" "k < length (log i)" by (cases "unat t") auto
  obtain e' es' where drop: "drop k (log i) = e' # es'" "e' = log i ! k"
    using k(2) by (metis Cons_nth_drop_Suc)
  have "open_file (om_find (w_files w) (file_of w a i)) = input (file_text (log i))"
    using log k(2) by (auto simp: logged_def open_file_def)
  then have step: "JournalFile_lookup w a c (p # ps) =
      (if entry_clock e' = c then entry_data e' else JournalFile_lookup w a c ps)"
    using seek_file_text [of k "log i"] k by (simp add: p Let_def drop(1) Entry_Read_file_text)
  show ?case
  proof (cases "entry_clock e' = c")
    case True
    then have "e' = e" using same [of e' i] drop(2) k(2) by simp
    then show ?thesis using step True by simp
  next
    case False
    then have "\<exists>(i, t) \<in> set ps. log i ! (unat t - 1) = e"
      using Cons.prems(2) e drop(2) k(1) by (auto simp: p)
    then show ?thesis using Cons step False by auto
  qed
qed simp

section \<open>Sample journals\<close>

definition file_journal :: "clock \<Rightarrow> (string, string) omap \<Rightarrow> world" where
  "file_journal c fs =
     \<lparr>w_brokers = om_init [(0, no_broker\<lparr>b_kind := File, b_id := 2,
         b_connections := [Connection_none\<lparr>conn_version := c\<rparr>]\<rparr>)],
      w_store = om_empty, w_builders = om_empty, w_random = (\<lambda>_. 0), w_drawn = 0, w_files = fs\<rparr>"

definition cache_journal :: "(clock, data) omap \<Rightarrow> world" where
  "cache_journal es =
     \<lparr>w_brokers = om_init [(0, no_broker\<lparr>b_kind := Cache, b_id := 2,
         b_connections := [Connection_none], b_entries := es\<rparr>)],
      w_store = om_empty, w_builders = om_empty, w_random = (\<lambda>_. 0), w_drawn = 0, w_files = om_empty\<rparr>"

definition first_of_two :: entry where
  "first_of_two = Entry_of (Clock_init [(2, 1)]) 2 7 om_empty"

definition ahead_of_two :: entry where
  "ahead_of_two = Entry_of (Clock_init [(1, 2), (2, 1)]) 2 7 om_empty"

section \<open>Properties\<close>

text \<open>A file journal that saved a list of entries lists them again, device by device and for
  each device as far as its clock counts; the text of the files is what was saved.\<close>

theorem file_journal_roundtrip:
  assumes "\<And>i. om_find (w_files w) (file_of w a i) = None"
    and "list_all (\<lambda>(i, t). unat t \<le> length (device_log es i)) (entries (Broker_clock w a))"
  shows "JournalFile_entries (JournalFile_saves a es w) a =
    concat (map (\<lambda>(i, t). take (unat t) (device_log es i)) (entries (Broker_clock w a)))"
proof -
  have "logged w a (\<lambda>_. [])" using assms(1) by (simp add: logged_def)
  then have saved: "logged (JournalFile_saves a es w) a (device_log es)"
    "w_brokers (JournalFile_saves a es w) = w_brokers w"
    using saves_logged [of w a "\<lambda>_. []" es] by simp_all
  then have "Broker_clock (JournalFile_saves a es w) a = Broker_clock w a"
    by (simp add: Broker_clock_def broker_at_def)
  then show ?thesis using file_entries_logged [OF saved(1)] assms(2) by simp
qed

theorem file_journal_roundtrip_witness:
  "JournalFile_entries (JournalFile_saves 0 [first_of_two] (file_journal (Clock_init [(2, 1)]) om_empty)) 0
     = [first_of_two]"
  using file_journal_roundtrip [of "file_journal (Clock_init [(2, 1)]) om_empty" 0 "[first_of_two]"]
  by (simp add: eval_simps file_journal_def device_log_def first_of_two_def no_broker_def)

text \<open>\<open>JournalFile::entry\<close> finds a saved entry by its clock when the files have, for each
  counter of the clock, a line with that number, and one of these lines is the entry.\<close>

theorem file_entry_found:
  assumes "logged w a log" and "entry_clock e = c"
    and "\<And>i e'. e' \<in> set (log i) \<Longrightarrow> entry_clock e' = c \<Longrightarrow> e' = e"
    and "\<And>i t. (i, t) \<in> set (entries c) \<Longrightarrow> 0 < unat t \<and> unat t \<le> length (log i)"
    and "\<exists>(i, t) \<in> set (entries c). log i ! (unat t - 1) = e"
  shows "JournalFile_entry w a c = entry_data e"
  using file_lookup_logged [OF assms] by (simp add: JournalFile_entry_def)

theorem file_entry_found_witness:
  "JournalFile_entry (JournalFile_saves 0 [first_of_two] (file_journal om_empty om_empty)) 0
     (Clock_init [(2, 1)]) = Data_of 2 7 om_empty"
proof -
  have "logged (file_journal om_empty om_empty) 0 (\<lambda>_. [])"
    by (simp add: logged_def file_journal_def)
  then have "logged (JournalFile_saves 0 [first_of_two] (file_journal om_empty om_empty)) 0
      (device_log [first_of_two])"
    using saves_logged [of _ 0 "\<lambda>_. []" "[first_of_two]"] by simp
  then have "JournalFile_entry (JournalFile_saves 0 [first_of_two] (file_journal om_empty om_empty)) 0
      (Clock_init [(2, 1)]) = entry_data first_of_two"
  proof (rule file_entry_found)
    show "entry_clock first_of_two = Clock_init [(2, 1)]" by (simp add: first_of_two_def)
    show "e' = first_of_two" if "e' \<in> set (device_log [first_of_two] i)" for i e'
      using that by (simp add: device_log_def split: if_splits)
  qed (auto simp: eval_simps device_log_def first_of_two_def)
  then show ?thesis by (simp add: first_of_two_def)
qed

text \<open>The search of \<open>JournalFile::entry\<close> ends at the first device whose file is too short, so it
  misses an entry that the journal holds and lists.\<close>

theorem file_entry_stops:
  "JournalFile_entry (JournalFile_saves 0 [ahead_of_two] (file_journal (Clock_init [(2, 1)]) om_empty)) 0
     (entry_clock ahead_of_two) = no_data \<and>
   JournalFile_entries (JournalFile_saves 0 [ahead_of_two] (file_journal (Clock_init [(2, 1)]) om_empty)) 0
     = [ahead_of_two]"
proof -
  let ?w = "file_journal (Clock_init [(2, 1)]) om_empty"
  have "logged ?w 0 (\<lambda>_. [])" by (simp add: logged_def file_journal_def)
  then have saved: "logged (JournalFile_saves 0 [ahead_of_two] ?w) 0 (device_log [ahead_of_two])"
    "w_brokers (JournalFile_saves 0 [ahead_of_two] ?w) = w_brokers ?w"
    using saves_logged [of ?w 0 "\<lambda>_. []" "[ahead_of_two]"] by simp_all
  then have missing: "open_file (om_find (w_files (JournalFile_saves 0 [ahead_of_two] ?w))
      (file_of (JournalFile_saves 0 [ahead_of_two] ?w) 0 1)) = \<lparr>rest = [], eofbit = False, failbit = True\<rparr>"
    by (simp add: logged_def open_file_def device_log_def ahead_of_two_def)
  have clock: "Broker_clock (JournalFile_saves 0 [ahead_of_two] ?w) 0 = Clock_init [(2, 1)]"
    by (simp add: Broker_clock_def broker_at_def saved(2)) (simp add: eval_simps file_journal_def)
  have "JournalFile_entries (JournalFile_saves 0 [ahead_of_two] ?w) 0 = [ahead_of_two]"
    using file_entries_logged [OF saved(1)]
    by (simp add: clock) (simp add: eval_simps device_log_def ahead_of_two_def)
  moreover have "entries (entry_clock ahead_of_two) = [(1, 2), (2, 1)]"
    by (simp add: eval_simps ahead_of_two_def)
  ultimately show ?thesis
    using missing by (simp add: JournalFile_entry_def SeekToLine_def SeekToLine_loop.simps good_def)
qed

text \<open>A cache keeps an entry under its clock, once: saving reports whether the clock was new,
  keeps what was there, and the entry can be looked up.\<close>

theorem cache_save_lookup:
  assumes "om_find (w_brokers w) a = Some b"
  shows "\<exists>w'. Journal_save a e w = (om_find (b_entries b) (entry_clock e) = None, w') \<and>
    Journal_entry w' a c =
      (case om_find (b_entries b) c of
         Some d \<Rightarrow> d
       | None \<Rightarrow> if c = entry_clock e then entry_data e else no_data)"
  using assms
  by (auto simp: Journal_save_def Journal_entry_def broker_at_def set_broker_def split: option.splits)

theorem cache_save_lookup_witness:
  "\<exists>w'. Journal_save 0 first_of_two (cache_journal om_empty) = (True, w') \<and>
     Journal_entry w' 0 (entry_clock first_of_two) = entry_data first_of_two"
  using cache_save_lookup [of "cache_journal om_empty" 0 _ first_of_two "entry_clock first_of_two"]
  by (fastforce simp: cache_journal_def)

text \<open>\<open>contains\<close> asks whether the payload is an edit, so it denies every entry that alters
  nothing, although \<open>entry\<close> returns it.\<close>

theorem plain_entry_not_contained:
  assumes "b_kind (broker_at w a) = Cache" and "om_find (b_entries (broker_at w a)) c = Some d"
    and "data_alters d = om_empty"
  shows "BrokerBase_entry w a c = d \<and> \<not> BrokerBase_contains w a c"
  using assms by (simp add: BrokerBase_contains_def BrokerBase_entry_def Journal_entry_def Data_valid_def)

theorem plain_entry_not_contained_witness:
  "\<not> BrokerBase_contains (cache_journal (om_init [(Clock_init [(2, 1)], Data_of 2 7 om_empty)])) 0
     (Clock_init [(2, 1)])"
  using plain_entry_not_contained [of "cache_journal (om_init [(Clock_init [(2, 1)], Data_of 2 7 om_empty)])" 0
      "Clock_init [(2, 1)]" "Data_of 2 7 om_empty"]
  by (simp add: eval_simps cache_journal_def)

end
