(* ===== verification/Hub.thy ===== *)
theory Hub
  imports Journal_Store
begin

text \<open>
  The operations of a broker and of a journal: \<open>cashmere/src/hub.cpp\<close> (\<open>Broker\<close>),
  \<open>journalbase.cpp\<close> (\<open>JournalBase\<close>) and the remote calls of \<open>Connection\<close> in
  \<open>brokerbase.cpp\<close>. A method that calls the broker at the other end of a connection takes the
  virtual method it calls as an argument; the \<open>BrokerBase_\<close> definitions tie the knot with a bound
  on the depth of the chain of calls and dispatch on the class of the callee.

  A method names its own connections by index, since a nested call may write them.
  No nested call of \<open>insert\<close> or \<open>refresh\<close> adds a connection, so the loops over
  \<open>_connections.size()\<close> run over a fixed range.
\<close>

section \<open>What a broker advertises\<close>

definition Broker_sources :: "world \<Rightarrow> addr \<Rightarrow> source \<Rightarrow> sources_map" where
  "Broker_sources w a sender =
     fold (\<lambda>i out.
         if i > 0 \<and> i = unat sender then out
         else if \<not> Connection_valid w (conn w a i) then out
         else if conn_sources (conn w a i) = om_empty then out
         else om_put (of_nat i) (conn_sources (conn w a i)) out)
       [0..<length (conns w a)] om_empty"

definition JournalBase_sources :: "world \<Rightarrow> addr \<Rightarrow> source \<Rightarrow> sources_map" where
  "JournalBase_sources w a sender =
     om_put 0 (om_init [(b_id (broker_at w a), \<lparr>info_distance = 0, info_clock = Broker_clock w a\<rparr>)])
       (Broker_sources w a sender)"

definition BrokerBase_sources :: "world \<Rightarrow> addr \<Rightarrow> source \<Rightarrow> sources_map" where
  "BrokerBase_sources w a sender =
     (if b_kind (broker_at w a) = Hub then Broker_sources w a sender
      else JournalBase_sources w a sender)"

definition farther :: "conn_info \<Rightarrow> conn_info" where
  "farther info = info\<lparr>info_distance := info_distance info + 1\<rparr>"

definition UpdateProvides :: "sources_map \<Rightarrow> provides" where
  "UpdateProvides provided =
     fold (\<lambda>(_, infoMap) out. om_absorb out (om_map (\<lambda>_. farther) infoMap)) (entries provided) om_empty"

definition Broker_versions :: "world \<Rightarrow> addr \<Rightarrow> (ident, clock) omap" where
  "Broker_versions w a =
     fold (\<lambda>c out.
         fold (\<lambda>(i, info) out. om_update om_empty i (\<lambda>v. Clock_merge v (info_clock info)) out)
           (entries (conn_sources c)) out)
       (conns w a) om_empty"

definition Broker_connectedPorts :: "world \<Rightarrow> addr \<Rightarrow> source list" where
  "Broker_connectedPorts w a = map of_nat [1..<length (conns w a)]"

section \<open>Query\<close>

type_synonym query_call = "world \<Rightarrow> addr \<Rightarrow> clock \<Rightarrow> source \<Rightarrow> entry list outcome"

definition Connection_query :: "query_call \<Rightarrow> world \<Rightarrow> connection \<Rightarrow> clock \<Rightarrow> entry list outcome" where
  "Connection_query peer w c clock =
     (case Connection_broker w c of
        None \<Rightarrow> Inl Null_pointer
      | Some b \<Rightarrow> peer w b clock (conn_source c))"

definition Broker_query :: "query_call \<Rightarrow> query_call" where
  "Broker_query peer w a from_clock sender =
     (case find (\<lambda>i. \<not> (i = unat sender \<or> conn_sources (conn w a i) = om_empty)
                   \<and> Connection_valid w (conn w a i)) [1..<length (conns w a)] of
        None \<Rightarrow> Inr []
      | Some i \<Rightarrow> Connection_query peer w (conn w a i) from_clock)"

definition JournalBase_query :: "world \<Rightarrow> addr \<Rightarrow> clock \<Rightarrow> entry list" where
  "JournalBase_query w a from_clock =
     filter (\<lambda>e. Clock_concurrent (entry_clock e) from_clock
               \<or> Clock_smallerThan from_clock (entry_clock e))
       (BrokerBase_entries w a)"

primrec BrokerBase_query :: "nat \<Rightarrow> query_call" where
  "BrokerBase_query 0 w a from_clock sender = Inl Out_of_fuel"
| "BrokerBase_query (Suc n) w a from_clock sender =
     (if b_kind (broker_at w a) = Hub then Broker_query (BrokerBase_query n) w a from_clock sender
      else Inr (JournalBase_query w a from_clock))"

section \<open>Insert\<close>

type_synonym insert_call = "addr \<Rightarrow> entry \<Rightarrow> source \<Rightarrow> world \<Rightarrow> (clock \<times> world) outcome"

definition learn :: "clock \<Rightarrow> provides \<Rightarrow> provides" where
  "learn c = om_map (\<lambda>_ info. info\<lparr>info_clock := Clock_merge (info_clock info) c\<rparr>)"

definition Connection_insert ::
    "insert_call \<Rightarrow> addr \<Rightarrow> nat \<Rightarrow> entry \<Rightarrow> world \<Rightarrow> (clock \<times> world) outcome" where
  "Connection_insert peer a i data w =
     (case Connection_broker w (conn w a i) of
        None \<Rightarrow> Inr (om_empty, w)
      | Some b \<Rightarrow>
          andThen (peer b data (conn_source (conn w a i)) w) (\<lambda>(clock, w).
          if \<not> Clock_valid clock then Inr (om_empty, w)
          else Inr (clock, set_conn a i (\<lambda>c. c\<lparr>conn_sources := learn (entry_clock data) (conn_sources c),
                                            conn_version := clock\<rparr>) w)))"

definition note_version :: "ident \<Rightarrow> clock \<Rightarrow> connection \<Rightarrow> connection" where
  "note_version i clock c =
     c\<lparr>conn_sources := om_update \<lparr>info_distance = 0, info_clock = om_empty\<rparr> i
         (\<lambda>info. info\<lparr>info_clock := clock\<rparr>) (conn_sources c)\<rparr>"

definition Broker_insert :: "insert_call \<Rightarrow> insert_call" where
  "Broker_insert peer a data source w =
     (if length (conns w a) \<le> unat source then Inr (refused, w)
      else
        let w = Broker_setClock a (Clock_merge (Broker_clock w a) (entry_clock data)) w;
            w = set_conn a (unat source) (note_version (data_id (entry_data data)) (Broker_clock w a)) w
        in andThen (forEach [0..<length (conns w a)]
               (\<lambda>i w. if i = unat source then Inr w
                      else andThen (Connection_insert peer a i data w) (\<lambda>(_, w). Inr w)) w)
             (\<lambda>w. Inr (Broker_clock w a, w)))"

definition JournalBase_insert :: "insert_call \<Rightarrow> insert_call" where
  "JournalBase_insert peer a data source w =
     (if \<not> Clock_isNext (entry_clock data) (Broker_clock w a) (data_id (entry_data data))
      then Inr (refused, w)
      else case BrokerBase_save a data w of (saved, w) \<Rightarrow>
        if saved then Broker_insert peer a data source w else Inr (refused, w))"

primrec BrokerBase_insert :: "nat \<Rightarrow> insert_call" where
  "BrokerBase_insert 0 a data source w = Inl Out_of_fuel"
| "BrokerBase_insert (Suc n) a data source w =
     (if b_kind (broker_at w a) = Hub then Broker_insert (BrokerBase_insert n) a data source w
      else JournalBase_insert (BrokerBase_insert n) a data source w)"

definition BrokerBase_insert_all ::
    "nat \<Rightarrow> addr \<Rightarrow> entry list \<Rightarrow> source \<Rightarrow> world \<Rightarrow> (clock \<times> world) outcome" where
  "BrokerBase_insert_all n a list sender w =
     andThen (forEach list
         (\<lambda>data w. andThen (BrokerBase_insert n a data sender w) (\<lambda>(_, w). Inr w)) w)
       (\<lambda>w. Inr (Broker_clock w a, w))"

definition Connection_insert_all ::
    "nat \<Rightarrow> addr \<Rightarrow> nat \<Rightarrow> entry list \<Rightarrow> world \<Rightarrow> (clock \<times> world) outcome" where
  "Connection_insert_all n a i list w =
     (case Connection_broker w (conn w a i) of
        None \<Rightarrow> Inl Null_pointer
      | Some b \<Rightarrow>
          andThen (BrokerBase_insert_all n b list (conn_source (conn w a i)) w) (\<lambda>(clock, w).
          Inr (clock,
               if Clock_valid clock
               then set_conn a i (\<lambda>c. c\<lparr>conn_sources := learn clock (conn_sources c)\<rparr>) w
               else w)))"

definition BrokerBase_append :: "nat \<Rightarrow> addr \<Rightarrow> data \<Rightarrow> world \<Rightarrow> (bool \<times> world) outcome" where
  "BrokerBase_append n a d w =
     andThen (BrokerBase_insert n a
         \<lparr>entry_clock = Clock_tick (Broker_clock w a) (data_id d), entry_data = d\<rparr> 0 w)
       (\<lambda>(clock, w). Inr (Clock_valid clock, w))"

definition BrokerBase_append_amount ::
    "nat \<Rightarrow> addr \<Rightarrow> amount \<Rightarrow> world \<Rightarrow> (bool \<times> world) outcome" where
  "BrokerBase_append_amount n a v w =
     BrokerBase_append n a \<lparr>data_id = b_id (broker_at w a), data_value = v, data_alters = om_empty\<rparr> w"

definition BrokerBase_replace ::
    "nat \<Rightarrow> addr \<Rightarrow> amount \<Rightarrow> clock \<Rightarrow> world \<Rightarrow> (bool \<times> world) outcome" where
  "BrokerBase_replace n a v clock w =
     BrokerBase_append n a \<lparr>data_id = b_id (broker_at w a), data_value = v, data_alters = clock\<rparr> w"

definition BrokerBase_erase :: "nat \<Rightarrow> addr \<Rightarrow> clock \<Rightarrow> world \<Rightarrow> (bool \<times> world) outcome" where
  "BrokerBase_erase n a time w =
     BrokerBase_append n a \<lparr>data_id = b_id (broker_at w a), data_value = 0, data_alters = time\<rparr> w"

section \<open>Refresh\<close>

type_synonym refresh_call = "addr \<Rightarrow> connection \<Rightarrow> source \<Rightarrow> world \<Rightarrow> (bool \<times> world) outcome"

definition Connection_refresh ::
    "refresh_call \<Rightarrow> connection \<Rightarrow> connection \<Rightarrow> world \<Rightarrow> (bool \<times> world) outcome" where
  "Connection_refresh peer c data w =
     (case Connection_broker w c of
        None \<Rightarrow> Inr (False, w)
      | Some b \<Rightarrow> peer b data (conn_source c) w)"

text \<open>What \<open>a\<close> tells the broker at its port \<open>i\<close> about itself.\<close>

definition introduction :: "addr \<Rightarrow> source \<Rightarrow> world \<Rightarrow> connection \<times> world" where
  "introduction a i w =
     (let (data, w) = BrokerBase_stub a w in
      (data\<lparr>conn_source := i, conn_version := Broker_clock w a,
            conn_sources := UpdateProvides (BrokerBase_sources w a i)\<rparr>, w))"

definition Broker_refreshConnections ::
    "refresh_call \<Rightarrow> addr \<Rightarrow> source \<Rightarrow> world \<Rightarrow> world outcome" where
  "Broker_refreshConnections peer a ignored w =
     forEach [1..<length (conns w a)]
       (\<lambda>i w. if i = unat ignored then Inr w
              else let (data, w) = introduction a (of_nat i) w in
                andThen (Connection_refresh peer (conn w a i) data w) (\<lambda>(_, w). Inr w)) w"

definition Broker_refresh :: "refresh_call \<Rightarrow> refresh_call" where
  "Broker_refresh peer a data sender w =
     (if sender = 0 \<or> length (conns w a) \<le> unat sender then Inr (False, w)
      else
        let w = set_conn a (unat sender)
          (\<lambda>c. c\<lparr>conn_source := conn_source data, conn_version := conn_version data,
                conn_sources := conn_sources data\<rparr>) w
        in andThen (Broker_refreshConnections peer a sender w) (\<lambda>w. Inr (True, w)))"

primrec BrokerBase_refresh :: "nat \<Rightarrow> refresh_call" where
  "BrokerBase_refresh 0 a data sender w = Inl Out_of_fuel"
| "BrokerBase_refresh (Suc n) a data sender w = Broker_refresh (BrokerBase_refresh n) a data sender w"

section \<open>Disconnect\<close>

definition Connection_disconnect :: "nat \<Rightarrow> addr \<Rightarrow> nat \<Rightarrow> world \<Rightarrow> world outcome" where
  "Connection_disconnect n a i w =
     (case Connection_broker w (conn w a i) of
        None \<Rightarrow> Inr w
      | Some b \<Rightarrow>
          andThen (BrokerBase_refresh n b Connection_none (conn_source (conn w a i)) w) (\<lambda>(_, w).
          Inr (set_conn a i Connection_reset w)))"

definition Broker_disconnect :: "nat \<Rightarrow> addr \<Rightarrow> source \<Rightarrow> world \<Rightarrow> (source \<times> world) outcome" where
  "Broker_disconnect n a port w =
     (if length (conns w a) \<le> unat port then Inr (- 1, w)
      else if Connection_valid w (conn w a (unat port)) then
        andThen (Connection_disconnect n a (unat port) w) (\<lambda>w.
        andThen (Broker_refreshConnections (BrokerBase_refresh n) a port w) (\<lambda>w.
        Inr (port, w)))
      else Inr (- 1, w))"

section \<open>Relay\<close>

type_synonym relay_call = "addr \<Rightarrow> data \<Rightarrow> source \<Rightarrow> world \<Rightarrow> (clock \<times> world) outcome"

definition Connection_relay ::
    "relay_call \<Rightarrow> connection \<Rightarrow> data \<Rightarrow> world \<Rightarrow> (clock \<times> world) outcome" where
  "Connection_relay peer c d w =
     (case Connection_broker w c of
        None \<Rightarrow> Inl Null_pointer
      | Some b \<Rightarrow> peer b d (conn_source c) w)"

text \<open>The search of \<open>Broker::relay\<close>: \<open>None\<close> when it meets the identifier at distance zero,
  otherwise the smallest distance and its port.\<close>

fun relay_scan ::
    "ident \<Rightarrow> (source \<times> ident \<times> conn_info) list \<Rightarrow> int \<times> source \<Rightarrow> (int \<times> source) option" where
  "relay_scan i [] best = Some best"
| "relay_scan i ((port, j, info) # xs) best =
     (if j = i then
        if info_distance info = 0 then None
        else if sint (info_distance info) < fst best
        then relay_scan i xs (sint (info_distance info), port)
        else relay_scan i xs best
      else relay_scan i xs best)"

definition long_max :: int where
  "long_max = 2 ^ 63 - 1"

definition advertised :: "sources_map \<Rightarrow> source \<Rightarrow> (source \<times> ident \<times> conn_info) list" where
  "advertised s sender =
     concat (map (\<lambda>(port, infoMap).
         if sender > 0 \<and> port = sender then [] else map (\<lambda>(i, info). (port, i, info)) (entries infoMap))
       (entries s))"

definition Broker_relay :: "relay_call \<Rightarrow> insert_call \<Rightarrow> relay_call" where
  "Broker_relay peer insert_self a d sender w =
     (case relay_scan (data_id d) (advertised (BrokerBase_sources w a 0) sender) (long_max, - 1) of
        None \<Rightarrow> insert_self a
          \<lparr>entry_clock = Clock_tick (Broker_clock w a) (data_id d), entry_data = d\<rparr> 0 w
      | Some (distance, port) \<Rightarrow>
          if distance = long_max then Inr (refused, w)
          else if length (conns w a) \<le> unat port then Inl Out_of_range
          else Connection_relay peer (conn w a (unat port)) d w)"

definition JournalBase_relay :: "relay_call \<Rightarrow> insert_call \<Rightarrow> relay_call" where
  "JournalBase_relay peer insert_self a d sender w =
     Broker_relay peer insert_self a
       (if data_id d = 0 then d\<lparr>data_id := b_id (broker_at w a)\<rparr> else d) sender w"

primrec BrokerBase_relay :: "nat \<Rightarrow> relay_call" where
  "BrokerBase_relay 0 a d sender w = Inl Out_of_fuel"
| "BrokerBase_relay (Suc n) a d sender w =
     (if b_kind (broker_at w a) = Hub
      then Broker_relay (BrokerBase_relay n) (BrokerBase_insert n) a d sender w
      else JournalBase_relay (BrokerBase_relay n) (BrokerBase_insert n) a d sender w)"

section \<open>Connect\<close>

type_synonym connect_call = "addr \<Rightarrow> connection \<Rightarrow> world \<Rightarrow> (connection \<times> world) outcome"

definition Connection_connect ::
    "connect_call \<Rightarrow> addr \<Rightarrow> nat \<Rightarrow> connection \<Rightarrow> world \<Rightarrow> world outcome" where
  "Connection_connect peer a i data w =
     (case Connection_broker w (conn w a i) of
        None \<Rightarrow> Inl Null_pointer
      | Some b \<Rightarrow>
          andThen (peer b data w) (\<lambda>(other, w).
          Inr (set_conn a i (\<lambda>c. c\<lparr>conn_source := conn_source other,
                conn_version := conn_version other, conn_sources := conn_sources other\<rparr>) w)))"

text \<open>What the caller does once the other broker has answered: both sides exchange the entries the
  other lacks, and the news goes to the other ports.\<close>

definition Broker_exchange :: "nat \<Rightarrow> addr \<Rightarrow> source \<Rightarrow> world \<Rightarrow> world outcome" where
  "Broker_exchange n a port w =
     andThen (BrokerBase_query n w a (conn_version (conn w a (unat port))) port) (\<lambda>thisEntries.
     andThen (Connection_query (BrokerBase_query n) w (conn w a (unat port)) (Broker_clock w a))
       (\<lambda>brokerEntries.
     andThen (if brokerEntries = [] then Inr w
        else andThen (BrokerBase_insert_all n a brokerEntries port w) (\<lambda>(_, w). Inr w)) (\<lambda>w.
     andThen (if thisEntries = [] then Inr w
        else andThen (Connection_insert_all n a (unat port) thisEntries w) (\<lambda>(_, w). Inr w)) (\<lambda>w.
     Broker_refreshConnections (BrokerBase_refresh n) a port w))))"

text \<open>The branch taken when the caller asks \<open>a\<close> to connect to a broker.\<close>

definition Broker_connect_out :: "connect_call \<Rightarrow> nat \<Rightarrow> connect_call" where
  "Broker_connect_out peer n a c w =
     (let (out, w) = BrokerBase_stub a w in
      if \<not> Connection_valid w c then Inr (out\<lparr>conn_source := - 1\<rparr>, w)
      else
        let port = of_nat (length (conns w a)); w = push_conn a c w in
        if length (conns w a) \<le> unat port then Inl Out_of_range
        else
          let (data, w) = introduction a port w in
          andThen (Connection_connect peer a (unat port) data w) (\<lambda>w.
          andThen (Broker_exchange n a port w) (\<lambda>w. Inr (out\<lparr>conn_source := port\<rparr>, w))))"

text \<open>The branch taken when the other broker announces itself.\<close>

definition Broker_connect_in :: "nat \<Rightarrow> connect_call" where
  "Broker_connect_in n a c w =
     (let (out, w) = BrokerBase_stub a w;
          port = of_nat (length (conns w a));
          version = Broker_clock w a;
          w = push_conn a (c\<lparr>conn_sources := learn version (conn_sources c)\<rparr>) w
      in andThen (Broker_refreshConnections (BrokerBase_refresh n) a port w) (\<lambda>w.
         Inr (out\<lparr>conn_source := port, conn_version := version,
                  conn_sources := UpdateProvides (BrokerBase_sources w a port)\<rparr>, w)))"

definition Broker_connect :: "connect_call \<Rightarrow> nat \<Rightarrow> connect_call" where
  "Broker_connect peer n a c w =
     (if conn_source c = 0 then Broker_connect_out peer n a c w else Broker_connect_in n a c w)"

primrec BrokerBase_connect :: "nat \<Rightarrow> connect_call" where
  "BrokerBase_connect 0 a c w = Inl Out_of_fuel"
| "BrokerBase_connect (Suc n) a c w = Broker_connect (BrokerBase_connect n) n a c w"

definition BrokerBase_connect_url ::
    "nat \<Rightarrow> addr \<Rightarrow> string \<Rightarrow> world \<Rightarrow> (connection \<times> world) outcome" where
  "BrokerBase_connect_url n a u w =
     (if b_stored (broker_at w a) then
        let (b, w) = BrokerStore_getOrCreate u w in BrokerBase_connect n a (Connection_to b) w
      else BrokerBase_connect n a Connection_none w)"

declare Broker_sources_def [eval_simps] JournalBase_sources_def [eval_simps]
  BrokerBase_sources_def [eval_simps] farther_def [eval_simps] UpdateProvides_def [eval_simps]
  Connection_query_def [eval_simps] Broker_query_def [eval_simps] JournalBase_query_def [eval_simps]
  learn_def [eval_simps] Connection_insert_def [eval_simps] note_version_def [eval_simps]
  Broker_insert_def [eval_simps] JournalBase_insert_def [eval_simps]
  BrokerBase_insert_all_def [eval_simps] Connection_insert_all_def [eval_simps]
  BrokerBase_append_def [eval_simps] BrokerBase_append_amount_def [eval_simps]
  Connection_refresh_def [eval_simps] introduction_def [eval_simps]
  Broker_refreshConnections_def [eval_simps] Broker_refresh_def [eval_simps]
  Connection_disconnect_def [eval_simps] Broker_disconnect_def [eval_simps]
  Connection_relay_def [eval_simps] long_max_def [eval_simps] advertised_def [eval_simps]
  Broker_relay_def [eval_simps] JournalBase_relay_def [eval_simps]
  Connection_connect_def [eval_simps] Broker_exchange_def [eval_simps] Broker_connect_out_def [eval_simps]
  Broker_connect_in_def [eval_simps] Broker_connect_def [eval_simps]
  BrokerBase_connect_url_def [eval_simps]

end
