(* ===== verification/Wiring.thy ===== *)
theory Wiring
  imports Hub
begin

text \<open>
  What a call of \<open>insert\<close> can change. The wiring of a world is its brokers, their classes and
  names and the two ends of each of their connections. The locale \<open>insert_effect\<close> collects the
  elementary steps of an insertion; every relation that contains them contains the whole
  recursive call, and each interpretation is one such relation.
\<close>

section \<open>Wiring\<close>

definition ends :: "connection \<Rightarrow> addr option \<times> source" where
  "ends c = (conn_broker c, conn_source c)"

definition frame :: "broker \<Rightarrow> (kind \<times> ident \<times> url \<times> bool) \<times> (addr option \<times> source) list" where
  "frame b = ((b_kind b, b_id b, b_url b, b_stored b), map ends (b_connections b))"

definition wiring ::
    "world \<Rightarrow> (addr, (kind \<times> ident \<times> url \<times> bool) \<times> (addr option \<times> source) list) omap" where
  "wiring w = om_map (\<lambda>_. frame) (w_brokers w)"

lemma wiring_set_broker [simp]: "(\<And>b. frame (f b) = frame b) \<Longrightarrow> wiring (set_broker a f w) = wiring w"
  unfolding wiring_def
  by (intro om_eqI) (auto simp: om_find_map set_broker_def split: option.split)

lemma wiring_set_conn [simp]:
  assumes "\<And>c. ends (f c) = ends c"
  shows "wiring (set_conn a i f w) = wiring w"
proof -
  have "map ends (cs[i := f (cs ! i)]) = map ends cs" for cs :: "connection list"
    by (cases "i < length cs") (simp_all add: map_update assms list_update_same_conv list_update_beyond)
  then show ?thesis by (simp add: set_conn_def frame_def)
qed

lemma wiring_setClock [simp]: "wiring (Broker_setClock a c w) = wiring w"
  by (simp add: Broker_setClock_def ends_def)

lemma ends_note_version [simp]: "ends (note_version i v c) = ends c"
  by (simp add: ends_def note_version_def)

lemma conn_version_note [simp]: "conn_version (note_version i v c) = conn_version c"
  by (simp add: note_version_def)

lemma wiring_files: "wiring (w\<lparr>w_files := fs\<rparr>) = wiring w"
  by (simp add: wiring_def)

lemma wiring_save: "BrokerBase_save a e w = (ok, w') \<Longrightarrow> wiring w' = wiring w"
  by (auto simp: BrokerBase_save_def Journal_save_def JournalFile_save_def Let_def frame_def wiring_files
      split: kind.splits if_splits)

lemma save_refused: "BrokerBase_save a e w = (False, w') \<Longrightarrow> w' = w"
  by (auto simp: BrokerBase_save_def Journal_save_def JournalFile_save_def Let_def split: kind.splits if_splits)

lemma wiring_find: "om_find (wiring w) a = map_option frame (om_find (w_brokers w) a)"
  by (simp add: wiring_def om_find_map)

lemma wiring_live: "wiring w = wiring w' \<Longrightarrow> live w a = live w' a"
  using wiring_find [of w a] wiring_find [of w' a]
  by (cases "om_find (w_brokers w) a"; cases "om_find (w_brokers w') a") (simp_all add: live_def)

lemma wiring_frame: "wiring w = wiring w' \<Longrightarrow> frame (broker_at w a) = frame (broker_at w' a)"
  using wiring_find [of w a] wiring_find [of w' a]
  by (auto simp: broker_at_def split: option.splits)

lemma wiring_length: "wiring w = wiring w' \<Longrightarrow> length (conns w a) = length (conns w' a)"
  by (drule wiring_frame [of _ _ a]) (auto simp: frame_def dest: map_eq_imp_length_eq)

lemma wiring_kind: "wiring w = wiring w' \<Longrightarrow> b_kind (broker_at w a) = b_kind (broker_at w' a)"
  by (drule wiring_frame [of _ _ a]) (simp add: frame_def)

lemma wiring_ends:
  assumes "wiring w = wiring w'"
  shows "conn_broker (conn w a i) = conn_broker (conn w' a i) \<or> length (conns w a) \<le> i"
    and "conn_source (conn w a i) = conn_source (conn w' a i) \<or> length (conns w a) \<le> i"
proof -
  have "map ends (conns w a) = map ends (conns w' a)"
    using wiring_frame [OF assms, of a] by (simp add: frame_def)
  then have "ends (conn w a i) = ends (conn w' a i) \<or> length (conns w a) \<le> i"
    by (metis leI map_eq_imp_length_eq nth_map)
  then show "conn_broker (conn w a i) = conn_broker (conn w' a i) \<or> length (conns w a) \<le> i"
    and "conn_source (conn w a i) = conn_source (conn w' a i) \<or> length (conns w a) \<le> i"
    by (auto simp: ends_def)
qed

lemma wiring_Connection_broker:
  assumes "wiring w = wiring w'" and "i < length (conns w a)"
  shows "Connection_broker w (conn w a i) = Connection_broker w' (conn w' a i)"
    and "conn_source (conn w a i) = conn_source (conn w' a i)"
proof -
  show "conn_source (conn w a i) = conn_source (conn w' a i)"
    using wiring_ends(2) [OF assms(1), of a i] assms(2) by simp
  have "Connection_broker w (conn w a i) = Some b \<longleftrightarrow> Connection_broker w' (conn w' a i) = Some b" for b
    using wiring_ends(1) [OF assms(1), of a i] assms(2) wiring_live [OF assms(1), of b]
    by (simp add: Connection_broker_live)
  then show "Connection_broker w (conn w a i) = Connection_broker w' (conn w' a i)"
    by (metis not_None_eq)
qed

section \<open>The effect of an insertion\<close>

definition note_peer :: "entry \<Rightarrow> clock \<Rightarrow> connection \<Rightarrow> connection" where
  "note_peer e v c = c\<lparr>conn_sources := learn (entry_clock e) (conn_sources c), conn_version := v\<rparr>"

lemma ends_note_peer [simp]: "ends (note_peer e v c) = ends c"
  by (simp add: ends_def note_peer_def)

locale insert_effect =
  fixes R :: "entry \<Rightarrow> world \<Rightarrow> world \<Rightarrow> bool"
  assumes refl: "R e w w"
    and trans: "R e u v \<Longrightarrow> R e v w \<Longrightarrow> R e u w"
    and wires: "R e v w \<Longrightarrow> wiring w = wiring v"
    and save: "BrokerBase_save a e w = (True, w') \<Longrightarrow> R e w w'"
    and advance: "R e w (Broker_setClock a (Clock_merge (Broker_clock w a) (entry_clock e)) w)"
    and noted: "R e w (set_conn a i (note_version j t) w)"
    and peer: "Connection_broker w (conn w a i) \<noteq> None \<Longrightarrow> i < length (conns w a) \<Longrightarrow>
      R e w (set_conn a i (note_peer e t) w)"
begin

lemma connection_insert:
  assumes call: "\<And>b s u c v. call b e s u = Inr (c, v) \<Longrightarrow> R e u v"
    and run: "Connection_insert call a i e w = Inr (c, w')" and i: "i < length (conns w a)"
  shows "R e w w'"
proof (cases "Connection_broker w (conn w a i)")
  case None
  with run show ?thesis by (simp add: Connection_insert_def refl)
next
  case (Some b)
  with run obtain d v where v: "call b e (conn_source (conn w a i)) w = Inr (d, v)"
    and w': "w' = v \<or> w' = set_conn a i (note_peer e d) v"
    by (auto simp: Connection_insert_def note_peer_def [abs_def] cashmere_errors split: if_splits)
  have R: "R e w v" using call v .
  have "i < length (conns v a)" "Connection_broker v (conn v a i) = Some b"
    using wiring_length [OF wires [OF R], of a] wiring_Connection_broker(1) [OF wires [OF R], of i a]
      i Some by simp_all
  then show ?thesis using w' R peer [of v a i] trans by auto
qed

lemma broker_insert:
  assumes call: "\<And>b s u c v. call b e s u = Inr (c, v) \<Longrightarrow> R e u v"
    and run: "Broker_insert call a e source w = Inr (c, w')"
  shows "R e w w'"
proof (cases "length (conns w a) \<le> unat source")
  case True
  with run show ?thesis by (simp add: Broker_insert_def refl)
next
  case False
  define u where "u = Broker_setClock a (Clock_merge (Broker_clock w a) (entry_clock e)) w"
  define v where "v = set_conn a (unat source)
    (note_version (data_id (entry_data e)) (Broker_clock u a)) u"
  have step: "R e w v" unfolding v_def u_def by (rule trans [OF advance noted])
  have "forEach [0..<length (conns v a)]
     (\<lambda>i w. if i = unat source then Inr w
            else andThen (Connection_insert call a i e w) (\<lambda>(_, w). Inr w)) v = Inr w'"
    using run False by (auto simp: Broker_insert_def Let_def u_def v_def cashmere_errors)
  then have "R e w w'"
  proof (rule forEach_invariant)
    fix i x y
    assume "i \<in> set [0..<length (conns v a)]" and x: "R e w x"
      and body: "(if i = unat source then Inr x
            else andThen (Connection_insert call a i e x) (\<lambda>(_, w). Inr w)) = Inr y"
    then have "i < length (conns x a)"
      using wiring_length [OF wires [OF x], of a] wiring_length [OF wires [OF step], of a] by simp
    then have "\<And>d. Connection_insert call a i e x = Inr (d, y) \<Longrightarrow> R e x y"
      using connection_insert [where call = call] call by blast
    then show "R e w y" using x trans [OF x] body by (auto simp: cashmere_errors split: if_splits)
  qed (rule step)
  then show ?thesis .
qed

theorem insert: "BrokerBase_insert n a e source w = Inr (c, w') \<Longrightarrow> R e w w'"
proof (induction n arbitrary: a source w c w')
  case (Suc n)
  obtain ok v where sv: "BrokerBase_save a e w = (ok, v)" by fastforce
  have "R e w w'" if "JournalBase_insert (BrokerBase_insert n) a e source w = Inr (c, w')"
  proof (cases "Clock_isNext (entry_clock e) (Broker_clock w a) (data_id (entry_data e)) \<and> ok")
    case True
    with that sv have "Broker_insert (BrokerBase_insert n) a e source v = Inr (c, w')"
      by (simp add: JournalBase_insert_def)
    then have "R e v w'" using broker_insert [where call = "BrokerBase_insert n"] Suc.IH by blast
    moreover have "R e w v" using save [of a e w v] True sv by simp
    ultimately show ?thesis using trans by blast
  next
    case False
    moreover have "v = w" if "\<not> ok" using sv that save_refused by simp
    ultimately show ?thesis using that sv refl
      by (auto simp: JournalBase_insert_def split: if_splits)
  qed
  moreover have "R e w w'" if "Broker_insert (BrokerBase_insert n) a e source w = Inr (c, w')"
    using broker_insert [where call = "BrokerBase_insert n"] Suc.IH that by blast
  ultimately show ?case using Suc.prems by (auto split: if_splits)
qed simp

end

text \<open>First interpretation: an insertion keeps the wiring.\<close>

interpretation wires: insert_effect "\<lambda>_ w w'. wiring w' = wiring w"
  by unfold_locales (auto simp: wiring_save)

section \<open>Clocks and entries\<close>

lemma clock_set_conn:
  "Broker_clock (set_conn a i f w) b =
     (if a = b \<and> i = 0 \<and> conns w a \<noteq> [] then conn_version (f (conn w a 0)) else Broker_clock w b)"
proof (cases "conns w a")
  case (Cons c cs)
  then have "live w a" using not_live_conns [of w a] by auto
  with Cons show ?thesis
    by (cases i) (auto simp: Broker_clock_def conns_set_conn split: list.split)
qed (auto simp: Broker_clock_def conns_set_conn split: list.split)

lemma clock_setClock:
  "Broker_clock (Broker_setClock a c w) b =
     (if a = b \<and> conns w a \<noteq> [] then c else Broker_clock w b)"
  by (auto simp: Broker_setClock_def clock_set_conn)

lemma entries_set_conn [simp]:
  "b_entries (broker_at (set_conn a i f w) b) = b_entries (broker_at w b)"
  by (auto simp: set_conn_def broker_at_set_broker)

lemma entries_setClock [simp]:
  "b_entries (broker_at (Broker_setClock a c w) b) = b_entries (broker_at w b)"
  by (simp add: Broker_setClock_def)

lemma broker_at_files [simp]: "broker_at (w\<lparr>w_files := fs\<rparr>) b = broker_at w b"
  by (simp add: broker_at_def)

lemma save_cases:
  assumes "BrokerBase_save a e w = (True, w')"
  obtains "b_kind (broker_at w a) = Cache" "om_find (b_entries (broker_at w a)) (entry_clock e) = None"
    "w' = set_broker a (\<lambda>b. b\<lparr>b_entries := om_put (entry_clock e) (entry_data e) (b_entries b)\<rparr>) w"
  | fs where "b_kind (broker_at w a) = File" "w' = w\<lparr>w_files := fs\<rparr>"
  using assms by (auto simp: BrokerBase_save_def Journal_save_def JournalFile_save_def Let_def
      split: kind.splits if_splits)

lemma conns_save: "BrokerBase_save a e w = (True, w') \<Longrightarrow> conns w' b = conns w b"
  by (erule save_cases) (auto simp: broker_at_set_broker)

lemma clock_save: "BrokerBase_save a e w = (True, w') \<Longrightarrow> Broker_clock w' b = Broker_clock w b"
  by (simp add: Broker_clock_def conns_save)

text \<open>The front connection of a broker leads nowhere: it only carries the broker's clock.\<close>

definition fronted :: "world \<Rightarrow> bool" where
  "fronted w \<longleftrightarrow> (\<forall>a. conns w a = [] \<or> conn_broker (conn w a 0) = None)"

lemma fronted_wiring: "wiring w = wiring w' \<Longrightarrow> fronted w = fronted w'"
  unfolding fronted_def
  by (metis wiring_ends(1) wiring_length length_0_conv length_greater_0_conv not_le)

definition clock_effect :: "entry \<Rightarrow> world \<Rightarrow> world \<Rightarrow> bool" where
  "clock_effect e w w' \<longleftrightarrow> wiring w' = wiring w \<and>
     (fronted w \<longrightarrow> (\<forall>b. Broker_clock w' b = Broker_clock w b \<or>
        Broker_clock w' b = Clock_merge (Broker_clock w b) (entry_clock e)))"

interpretation clocks: insert_effect clock_effect
proof unfold_locales
  show "clock_effect e u w" if "clock_effect e u v" "clock_effect e v w" for e u v w
    using that fronted_wiring [of u v] unfolding clock_effect_def
    by (metis merge_assoc merge_idem)
  show "clock_effect e w (set_conn a i (note_peer e t) w)"
    if c: "Connection_broker w (conn w a i) \<noteq> None" for e a i t w
  proof -
    have "i \<noteq> 0 \<or> conns w a = []" if "fronted w"
      using that c by (cases "i = 0") (auto simp: fronted_def Connection_broker_def)
    then show ?thesis by (auto simp: clock_effect_def clock_set_conn)
  qed
qed (auto simp: clock_effect_def wiring_save clock_save clock_setClock clock_set_conn Broker_clock_conv)

definition entries_effect :: "entry \<Rightarrow> world \<Rightarrow> world \<Rightarrow> bool" where
  "entries_effect e w w' \<longleftrightarrow> wiring w' = wiring w \<and>
     (\<forall>b. let old = b_entries (broker_at w b); new = b_entries (broker_at w' b) in
        new = old \<or>
        om_find old (entry_clock e) = None \<and> new = om_put (entry_clock e) (entry_data e) old)"

interpretation stored: insert_effect entries_effect
proof unfold_locales
  show "entries_effect e u w" if "entries_effect e u v" "entries_effect e v w" for e u v w
    using that unfolding entries_effect_def Let_def by (metis fun_upd_same om_find_put option.distinct(1))
  show "entries_effect e w w'" if "BrokerBase_save a e w = (True, w')" for a e w w'
    using that wiring_save [OF that]
    by (auto elim!: save_cases simp: entries_effect_def broker_at_set_broker)
qed (auto simp: entries_effect_def)

end
