(* ===== verification/Broadcast.thy ===== *)
theory Broadcast
  imports Wiring
begin

text \<open>
  Recording an entry anywhere in a network brings it everywhere. In an agreeing network all
  brokers have one clock and all caches one set of entries; \<open>append\<close> at any broker leads to an
  agreeing network again. The argument is that of a depth-first search: a broker that has
  taken the entry passes it to all its neighbours before its \<open>insert\<close> returns, and a journal
  that has taken it refuses it from then on.
\<close>

section \<open>The steps of \<open>Broker::insert\<close>\<close>

text \<open>The world after the broker has merged the clock, and the loop over its other
  connections.\<close>

definition acknowledged :: "addr \<Rightarrow> entry \<Rightarrow> source \<Rightarrow> world \<Rightarrow> world" where
  "acknowledged a e s w =
     (let w = Broker_setClock a (Clock_merge (Broker_clock w a) (entry_clock e)) w in
      set_conn a (unat s) (note_version (data_id (entry_data e)) (Broker_clock w a)) w)"

definition forwarded :: "insert_call \<Rightarrow> addr \<Rightarrow> entry \<Rightarrow> source \<Rightarrow> nat \<Rightarrow> world \<Rightarrow> world outcome" where
  "forwarded peer a e s i w =
     (if i = unat s then Inr w
      else andThen (Connection_insert peer a i e w) (\<lambda>(_, w). Inr w))"

lemma wiring_acknowledged [simp]: "wiring (acknowledged a e s w) = wiring w"
  by (simp add: acknowledged_def Let_def)

lemma length_acknowledged [simp]: "length (conns (acknowledged a e s w) b) = length (conns w b)"
  by (rule wiring_length) simp

lemma clock_acknowledged:
  "conns w a \<noteq> [] \<Longrightarrow> Broker_clock (acknowledged a e s w) b =
     (if a = b then Clock_merge (Broker_clock w a) (entry_clock e) else Broker_clock w b)"
  by (auto simp: acknowledged_def Let_def clock_set_conn clock_setClock simp flip: Broker_clock_conv)

lemma entries_acknowledged [simp]:
  "b_entries (broker_at (acknowledged a e s w) b) = b_entries (broker_at w b)"
  by (simp add: acknowledged_def Let_def)

lemma Broker_insert_steps:
  assumes "unat s < length (conns w a)"
  shows "Broker_insert peer a e s w =
    andThen (forEach [0..<length (conns w a)] (forwarded peer a e s) (acknowledged a e s w))
      (\<lambda>w. Inr (Broker_clock w a, w))"
proof -
  have "length (conns (acknowledged a e s w) a) = length (conns w a)" by simp
  then show ?thesis
    using assms by (simp add: Broker_insert_def acknowledged_def forwarded_def [abs_def] Let_def)
qed

section \<open>Networks\<close>

text \<open>Every connection leads to a broker whose matching connection leads back, the front
  connection leads nowhere.\<close>

definition well_connected :: "world \<Rightarrow> addr \<Rightarrow> nat \<Rightarrow> bool" where
  "well_connected w a i \<longleftrightarrow>
     (case conn_broker (conn w a i) of
        None \<Rightarrow> True
      | Some b \<Rightarrow> i \<noteq> 0 \<and> live w b \<and> unat (conn_source (conn w a i)) < length (conns w b) \<and>
          conn_broker (conn w b (unat (conn_source (conn w a i)))) = Some a)"

definition wired :: "world \<Rightarrow> bool" where
  "wired w \<longleftrightarrow> list_all (\<lambda>(a, b). b_connections b \<noteq> [] \<and>
     list_all (well_connected w a) [0..<length (b_connections b)]) (entries (w_brokers w))"

definition neighbours :: "world \<Rightarrow> addr \<Rightarrow> addr list" where
  "neighbours w a = concat (map (\<lambda>c. case conn_broker c of None \<Rightarrow> [] | Some b \<Rightarrow> [b]) (conns w a))"

inductive reachable :: "world \<Rightarrow> addr \<Rightarrow> addr \<Rightarrow> bool" for w a where
  here: "reachable w a a"
| step: "reachable w a b \<Longrightarrow> c \<in> set (neighbours w b) \<Longrightarrow> reachable w a c"

lemma reachable_trans: "reachable w b c \<Longrightarrow> reachable w a b \<Longrightarrow> reachable w a c"
  by (induction rule: reachable.induct) (auto intro: reachable.step)

definition connected :: "world \<Rightarrow> bool" where
  "connected w \<longleftrightarrow> (\<forall>a b. live w a \<longrightarrow> live w b \<longrightarrow> reachable w a b)"

text \<open>The state of one broker: its clock and, for a cache, its entries.\<close>

definition holds :: "clock \<Rightarrow> (clock, data) omap \<Rightarrow> world \<Rightarrow> addr \<Rightarrow> bool" where
  "holds c es w a \<longleftrightarrow> Broker_clock w a = c \<and>
     (b_kind (broker_at w a) = Cache \<longrightarrow> b_entries (broker_at w a) = es)"

definition agree :: "clock \<Rightarrow> (clock, data) omap \<Rightarrow> world \<Rightarrow> bool" where
  "agree c es w \<longleftrightarrow> list_all (\<lambda>(a, _). holds c es w a) (entries (w_brokers w))"

lemma live_entries: "live w a \<longleftrightarrow> (\<exists>b. (a, b) \<in> set (entries (w_brokers w)))"
  by (auto simp: live_def om_find_iff simp flip: om_find_iff)

lemma broker_at_entries: "(a, b) \<in> set (entries (w_brokers w)) \<Longrightarrow> broker_at w a = b"
  by (simp add: broker_at_def flip: om_find_iff)

lemma agree_live: "agree c es w \<longleftrightarrow> (\<forall>a. live w a \<longrightarrow> holds c es w a)"
  by (auto simp: agree_def live_entries list_all_iff)

lemma wired_live:
  assumes "wired w" and "live w a"
  shows "conns w a \<noteq> []" and "i < length (conns w a) \<Longrightarrow> well_connected w a i"
  using assms broker_at_entries [of a _ w]
  by (fastforce simp: wired_def list_all_iff live_entries)+

lemma wired_conn:
  assumes "wired w" and "live w a" and "i < length (conns w a)" and "conn_broker (conn w a i) = Some b"
  shows "i \<noteq> 0" and "live w b" and "unat (conn_source (conn w a i)) < length (conns w b)"
    and "conn_broker (conn w b (unat (conn_source (conn w a i)))) = Some a"
  using wired_live(2) [OF assms(1-3)] assms(4) by (simp_all add: well_connected_def)

lemma neighbours_iff:
  "b \<in> set (neighbours w a) \<longleftrightarrow> (\<exists>i < length (conns w a). conn_broker (conn w a i) = Some b)"
proof -
  have "b \<in> set (neighbours w a) \<longleftrightarrow> (\<exists>c \<in> set (conns w a). conn_broker c = Some b)"
    by (force simp: neighbours_def split: option.splits)
  then show ?thesis by (metis in_set_conv_nth)
qed

lemma wiring_neighbours:
  assumes "wiring w = wiring w'"
  shows "set (neighbours w a) = set (neighbours w' a)"
proof -
  have "b \<in> set (neighbours w a) \<longleftrightarrow> b \<in> set (neighbours w' a)" for b
    using wiring_length [OF assms, of a] wiring_ends(1) [OF assms, of a]
    by (metis neighbours_iff not_le)
  then show ?thesis by auto
qed

lemma wiring_reachable:
  assumes "wiring w = wiring w'" and "reachable w a b"
  shows "reachable w' a b"
  using assms(2) by induction (auto simp: wiring_neighbours [OF assms(1)] intro: reachable.intros)

lemma wiring_connected: "wiring w = wiring w' \<Longrightarrow> connected w \<Longrightarrow> connected w'"
  using wiring_live [of w w'] wiring_reachable [of w w'] by (simp add: connected_def)

lemma wiring_well_connected:
  assumes "wiring w = wiring w'" and "i < length (conns w a)" and "well_connected w a i"
  shows "well_connected w' a i"
proof (cases "conn_broker (conn w a i)")
  case None
  then show ?thesis using wiring_ends(1) [OF assms(1), of a i] assms(2)
    by (simp add: well_connected_def)
next
  case (Some b)
  define j where "j = unat (conn_source (conn w a i))"
  have here: "conn_broker (conn w' a i) = Some b" "j = unat (conn_source (conn w' a i))"
    using wiring_ends [OF assms(1), of a i] assms(2) Some by (simp_all add: j_def)
  have "i \<noteq> 0" "live w b" "j < length (conns w b)" "conn_broker (conn w b j) = Some a"
    using assms(3) Some by (simp_all add: well_connected_def j_def)
  then show ?thesis
    using wiring_ends(1) [OF assms(1), of b j] wiring_live [OF assms(1)] wiring_length [OF assms(1)]
    by (simp add: well_connected_def here(1) flip: here(2))
qed

lemma wired_iff:
  "wired w \<longleftrightarrow> (\<forall>a. live w a \<longrightarrow> conns w a \<noteq> [] \<and> (\<forall>i < length (conns w a). well_connected w a i))"
  using broker_at_entries [of _ _ w] by (fastforce simp: wired_def list_all_iff live_entries)

lemma wiring_wired: "wiring w = wiring w' \<Longrightarrow> wired w \<Longrightarrow> wired w'"
  using wiring_live [of w w'] wiring_length [of w w'] wiring_well_connected [of w w']
  unfolding wired_iff by (metis length_0_conv)

section \<open>One entry on its way\<close>

text \<open>An entry on its way through the brokers outside \<open>K\<close>. They agreed on the clock \<open>c\<close> and the entries
  \<open>es\<close> and each has either taken the entry or not; the brokers of \<open>K\<close> are as they were. For an
  entry that goes everywhere, \<open>K\<close> is empty.\<close>

definition touched :: "(addr \<Rightarrow> bool) \<Rightarrow> clock \<Rightarrow> entry \<Rightarrow> world \<Rightarrow> addr \<Rightarrow> bool" where
  "touched K c e w a \<longleftrightarrow> K a \<or> Broker_clock w a = Clock_merge c (entry_clock e)"

abbreviation with_entry :: "entry \<Rightarrow> (clock, data) omap \<Rightarrow> (clock, data) omap" where
  "with_entry e \<equiv> om_put (entry_clock e) (entry_data e)"

definition unmoved :: "world \<Rightarrow> world \<Rightarrow> addr \<Rightarrow> bool" where
  "unmoved w0 w a \<longleftrightarrow> Broker_clock w a = Broker_clock w0 a \<and>
     b_entries (broker_at w a) = b_entries (broker_at w0 a)"

definition in_progress ::
    "(addr \<Rightarrow> bool) \<Rightarrow> world \<Rightarrow> clock \<Rightarrow> (clock, data) omap \<Rightarrow> entry \<Rightarrow> world \<Rightarrow> bool" where
  "in_progress K w0 c es e w \<longleftrightarrow> wiring w = wiring w0 \<and>
     (\<forall>a. live w a \<longrightarrow> (K a \<longrightarrow> unmoved w0 w a) \<and>
        (\<not> K a \<longrightarrow> holds c es w a \<or> holds (Clock_merge c (entry_clock e)) (with_entry e es) w a))"

text \<open>The entry is the next of its device after the clock \<open>c\<close>, and no longer once it has been
  taken.\<close>

definition next_entry :: "clock \<Rightarrow> (clock, data) omap \<Rightarrow> entry \<Rightarrow> bool" where
  "next_entry c es e \<longleftrightarrow>
     Clock_isNext (entry_clock e) c (data_id (entry_data e)) \<and> om_find es (entry_clock e) = None \<and>
     \<not> Clock_isNext (entry_clock e) (Clock_merge c (entry_clock e)) (data_id (entry_data e))"

text \<open>A journal that does not wait for the entry refuses it; \<open>K\<close> is bordered by such journals.\<close>

definition declines :: "entry \<Rightarrow> world \<Rightarrow> addr \<Rightarrow> bool" where
  "declines e w b \<longleftrightarrow> b_kind (broker_at w b) \<noteq> Hub \<and>
     \<not> Clock_isNext (entry_clock e) (Broker_clock w b) (data_id (entry_data e))"

definition bordered :: "(addr \<Rightarrow> bool) \<Rightarrow> entry \<Rightarrow> world \<Rightarrow> bool" where
  "bordered K e w \<longleftrightarrow> (\<forall>a b. live w a \<longrightarrow> \<not> K a \<longrightarrow> b \<in> set (neighbours w a) \<longrightarrow> K b \<longrightarrow> declines e w b)"

text \<open>Brokers reached since \<open>w\<close> have told all their neighbours.\<close>

definition spread :: "(addr \<Rightarrow> bool) \<Rightarrow> clock \<Rightarrow> entry \<Rightarrow> world \<Rightarrow> world \<Rightarrow> bool" where
  "spread K c e w w' \<longleftrightarrow> (\<forall>a. touched K c e w a \<longrightarrow> touched K c e w' a) \<and>
     (\<forall>a. touched K c e w' a \<longrightarrow> touched K c e w a \<or> list_all (touched K c e w') (neighbours w' a))"

lemma spread_refl [simp]: "spread K c e w w"
  by (simp add: spread_def)

lemma spread_trans:
  assumes "spread K c e u v" and "spread K c e v w" and "wiring w = wiring v"
  shows "spread K c e u w"
  using assms wiring_neighbours [OF assms(3)] unfolding spread_def list_all_iff by metis

lemma merged_not_next:
  assumes "om_find k i \<noteq> Some 0"
  shows "\<not> Clock_isNext k (Clock_merge c k) i"
proof (cases "om_find k i")
  case (Some t)
  have "t \<noteq> max u t + 1" for u
  proof
    assume t: "t = max u t + 1"
    then have "max u t \<noteq> - 1" using assms Some by auto
    then have "max u t < max u t + 1" using unatSuc [of "max u t"]
      by (simp add: word_less_nat_alt add.commute add_eq_0_iff)
    then show False using t by (metis max.cobounded2 not_le)
  qed
  moreover have "om_find (Clock_merge c k) i = Some (max u t)" if "om_find c i = Some u" for u
    using Some that by (simp add: find_merge max_def)
  moreover have "om_find (Clock_merge c k) i = Some t" if "om_find c i = None"
    using Some that by (simp add: find_merge max_def)
  ultimately show ?thesis using Some
    by (cases "om_find c i") (auto simp: Clock_isNext_def)
qed (simp add: Clock_isNext_def)

lemma not_isNext_self: "\<not> Clock_isNext c c i"
  by (auto simp: Clock_isNext_def split: option.split)

lemma next_entry_changes: "next_entry c es e \<Longrightarrow> Clock_merge c (entry_clock e) \<noteq> c"
  by (metis next_entry_def)

lemma declines_insert:
  "declines e w b \<Longrightarrow> BrokerBase_insert n b e s w = Inr (r, w') \<Longrightarrow> r = refused \<and> w' = w"
  by (cases n) (simp_all add: declines_def JournalBase_insert_def)

lemma holds_set_conn:
  "i \<noteq> 0 \<or> (\<forall>k. conn_version (f k) = conn_version k) \<Longrightarrow>
     holds c es (set_conn a i f w) b = holds c es w b"
proof -
  have "b_kind (broker_at (set_conn a i f w) b) = b_kind (broker_at w b)"
    by (auto simp: set_conn_def broker_at_set_broker)
  moreover assume "i \<noteq> 0 \<or> (\<forall>k. conn_version (f k) = conn_version k)"
  then have "Broker_clock (set_conn a i f w) b = Broker_clock w b"
    by (auto simp: clock_set_conn Broker_clock_conv)
  ultimately show ?thesis by (simp add: holds_def)
qed

lemma in_progress_note_peer:
  "i \<noteq> 0 \<Longrightarrow> in_progress K w0 c es e (set_conn a i (note_peer d v) w) = in_progress K w0 c es e w"
  by (simp add: in_progress_def holds_set_conn unmoved_def clock_set_conn)

lemma touched_note_peer:
  "i \<noteq> 0 \<Longrightarrow> touched K c e (set_conn a i (note_peer d v) w) b = touched K c e w b"
  by (simp add: touched_def clock_set_conn)

lemma in_progress_declines:
  assumes w: "in_progress K w0 c es e w" and border: "bordered K e w0"
    and b: "live w a" "\<not> K a" "b \<in> set (neighbours w a)" "K b" "live w b"
  shows "declines e w b"
proof -
  have wires: "wiring w = wiring w0" using w by (simp add: in_progress_def)
  then have "declines e w0 b"
    using border b wiring_live [OF wires] wiring_neighbours [OF wires] by (auto simp: bordered_def)
  moreover have "Broker_clock w b = Broker_clock w0 b" using w b by (simp add: in_progress_def unmoved_def)
  ultimately show ?thesis using wiring_kind [OF wires, of b] by (simp add: declines_def)
qed

lemma in_progress_acknowledged:
  assumes wires: "wiring v = wiring w0" and a: "conns v a \<noteq> []" "\<not> K a"
    and clock: "Broker_clock v a = c \<or> touched K c e v a"
    and cache: "b_kind (broker_at v a) = Cache \<Longrightarrow> b_entries (broker_at v a) = with_entry e es"
    and others: "\<And>b. live v b \<Longrightarrow> b \<noteq> a \<Longrightarrow> (K b \<longrightarrow> unmoved w0 v b) \<and>
      (\<not> K b \<longrightarrow> holds c es v b \<or> holds (Clock_merge c (entry_clock e)) (with_entry e es) v b)"
  shows "in_progress K w0 c es e (acknowledged a e s v)" and "touched K c e (acknowledged a e s v) a"
    and "touched K c e (acknowledged a e s v) b \<longleftrightarrow> b = a \<or> touched K c e v b"
proof -
  have kind: "b_kind (broker_at (acknowledged a e s v) b) = b_kind (broker_at v b)" for b
    by (rule wiring_kind) simp
  have live: "live (acknowledged a e s v) b = live v b" for b
    by (rule wiring_live) simp
  have merged: "Clock_merge (Broker_clock v a) (entry_clock e) = Clock_merge c (entry_clock e)"
    using clock a(2) by (auto simp: touched_def merge_assoc)
  show t: "touched K c e (acknowledged a e s v) b \<longleftrightarrow> b = a \<or> touched K c e v b" for b
    using clock_acknowledged [OF a(1), of e s b] merged by (auto simp: touched_def)
  then show "touched K c e (acknowledged a e s v) a" by simp
  have "(K b \<longrightarrow> unmoved w0 (acknowledged a e s v) b) \<and>
      (\<not> K b \<longrightarrow> holds c es (acknowledged a e s v) b \<or>
        holds (Clock_merge c (entry_clock e)) (with_entry e es) (acknowledged a e s v) b)"
    if "live v b" for b
  proof (cases "b = a")
    case True
    then show ?thesis using t [of a] cache a(2) by (simp add: holds_def touched_def kind)
  next
    case False
    then show ?thesis using others [of b] that clock_acknowledged [OF a(1), of e s b]
      by (simp add: holds_def kind unmoved_def)
  qed
  then show "in_progress K w0 c es e (acknowledged a e s v)"
    by (simp add: in_progress_def wires live)
qed

text \<open>What a call of \<open>insert\<close> at \<open>a\<close> achieves when the broker at the port of entry has the
  entry already.\<close>

definition delivers :: "(addr \<Rightarrow> bool) \<Rightarrow> world \<Rightarrow> clock \<Rightarrow> (clock, data) omap \<Rightarrow> entry \<Rightarrow> insert_call \<Rightarrow> bool" where
  "delivers K w0 c es e call \<longleftrightarrow>
     (\<forall>a s w r w'. call a e s w = Inr (r, w') \<longrightarrow> in_progress K w0 c es e w \<longrightarrow> live w a \<longrightarrow> \<not> K a \<longrightarrow>
        unat s < length (conns w a) \<longrightarrow>
        (\<forall>x. conn_broker (conn w a (unat s)) = Some x \<longrightarrow> touched K c e w x) \<longrightarrow>
        in_progress K w0 c es e w' \<and> spread K c e w w' \<and> touched K c e w' a \<and>
        (touched K c e w a \<or> r = Clock_merge c (entry_clock e)))"

lemma forwarded_delivers:
  assumes call: "delivers K w0 c es e (BrokerBase_insert n)" and wired: "wired w0" and border: "bordered K e w0"
    and w: "in_progress K w0 c es e w" and a: "live w a" "\<not> K a" "touched K c e w a"
    and i: "i < length (conns w a)"
    and run: "forwarded (BrokerBase_insert n) a e s i w = Inr w'"
  shows "in_progress K w0 c es e w' \<and> spread K c e w w' \<and>
    (i \<noteq> unat s \<longrightarrow> (\<forall>b. conn_broker (conn w a i) = Some b \<longrightarrow> touched K c e w' b))"
proof (cases "i = unat s \<or> conn_broker (conn w a i) = None")
  case True
  then show ?thesis using run w
    by (auto simp: forwarded_def Connection_insert_def Connection_broker_def split: if_splits)
next
  case False
  then obtain b where b: "conn_broker (conn w a i) = Some b" by auto
  have "wired w" using w wiring_wired [OF _ wired, of w] by (simp add: in_progress_def)
  note far = wired_conn [OF this a(1) i b]
  have peer: "Connection_broker w (conn w a i) = Some b" by (simp add: Connection_broker_live b far)
  with run False obtain r v where v: "BrokerBase_insert n b e (conn_source (conn w a i)) w = Inr (r, v)"
    and w': "w' = v \<or> w' = set_conn a i (note_peer e r) v"
    by (auto simp: forwarded_def Connection_insert_def note_peer_def [abs_def] cashmere_errors
        split: if_splits)
  have "in_progress K w0 c es e v \<and> spread K c e w v \<and> touched K c e v b"
  proof (cases "K b")
    case True
    have "b \<in> set (neighbours w a)" using b i by (auto simp: neighbours_iff)
    then have "declines e w b" using in_progress_declines [OF w border a(1,2) _ True far(2)] by simp
    from declines_insert [OF this v] show ?thesis using w True by (simp add: touched_def)
  next
    case False
    then show ?thesis using call v w far a(3) by (fastforce simp: delivers_def)
  qed
  moreover have "spread K c e w w' = spread K c e w v"
    if "wiring w' = wiring v" "\<And>x. touched K c e w' x = touched K c e v x"
    using that wiring_neighbours [OF that(1)] by (simp add: spread_def list_all_iff)
  ultimately show ?thesis
    using w' b far(1) by (auto simp: in_progress_note_peer touched_note_peer)
qed

lemma Broker_insert_delivers:
  assumes call: "delivers K w0 c es e (BrokerBase_insert n)" and wired: "wired w0" and border: "bordered K e w0"
    and v: "in_progress K w0 c es e (acknowledged a e s v)" "touched K c e (acknowledged a e s v) a"
    and a: "live v a" "\<not> K a" and s: "unat s < length (conns v a)"
    and from_s: "\<And>x. conn_broker (conn v a (unat s)) = Some x \<Longrightarrow> touched K c e v x"
    and new: "\<And>b. touched K c e (acknowledged a e s v) b \<longleftrightarrow> b = a \<or> touched K c e v b"
    and run: "Broker_insert (BrokerBase_insert n) a e s v = Inr (r, w')"
  shows "in_progress K w0 c es e w' \<and> spread K c e v w' \<and> touched K c e w' a \<and>
    r = Clock_merge c (entry_clock e)"
proof -
  define u where "u = acknowledged a e s v"
  define m where "m = length (conns v a)"
  have loop: "forEach [0..<m] (forwarded (BrokerBase_insert n) a e s) u = Inr w'" and r: "r = Broker_clock w' a"
    using run by (auto simp: Broker_insert_steps [OF s] cashmere_errors u_def m_def)
  define P where "P k w \<longleftrightarrow> in_progress K w0 c es e w \<and> spread K c e u w \<and> wiring w = wiring u \<and>
    (\<forall>j < k. j \<noteq> unat s \<longrightarrow> (\<forall>b. conn_broker (conn u a j) = Some b \<longrightarrow> touched K c e w b))" for k w
  have "P m w'"
    using loop
  proof (rule forEach_upto [OF _ le0])
    show "P 0 u" using v by (simp add: P_def u_def)
  next
    fix i x y assume i: "i < m" and x: "P i x" and step: "forwarded (BrokerBase_insert n) a e s i x = Inr y"
    have wx: "wiring x = wiring u" "wiring u = wiring v" using x by (simp_all add: P_def u_def)
    have "live x a" "i < length (conns x a)"
      using wiring_live [OF wx(1), of a] wiring_live [OF wx(2), of a] a i
        wiring_length [OF wx(1), of a] wiring_length [OF wx(2), of a] by (simp_all add: m_def)
    moreover have "touched K c e x a" using x v(2) by (simp add: P_def spread_def u_def)
    ultimately have y: "in_progress K w0 c es e y" "spread K c e x y"
      "i \<noteq> unat s \<longrightarrow> (\<forall>b. conn_broker (conn x a i) = Some b \<longrightarrow> touched K c e y b)"
      using forwarded_delivers [OF call wired border _ _ a(2) _ _ step] x by (auto simp: P_def)
    have wy: "wiring y = wiring x" using x y(1) by (simp add: P_def in_progress_def)
    have "conn_broker (conn x a i) = conn_broker (conn u a i)"
      using wiring_ends(1) [OF wx(1), of a i] \<open>i < length (conns x a)\<close> by simp
    then show "P (Suc i) y"
      using x y wy spread_trans [OF _ y(2) wy, of u] unfolding P_def
      by (auto simp: less_Suc_eq spread_def)
  qed
  then have w': "in_progress K w0 c es e w'" "spread K c e u w'" "wiring w' = wiring u"
    and told: "\<And>j b. j < m \<Longrightarrow> j \<noteq> unat s \<Longrightarrow> conn_broker (conn u a j) = Some b \<Longrightarrow> touched K c e w' b"
    by (auto simp: P_def)
  have uv: "wiring u = wiring v" by (simp add: u_def)
  have keep: "touched K c e v x \<Longrightarrow> touched K c e w' x" for x
    using w'(2) new by (simp add: spread_def u_def)
  have "touched K c e w' b" if "b \<in> set (neighbours w' a)" for b
  proof -
    have "b \<in> set (neighbours v a)" using that wiring_neighbours [of w' v] w'(3) uv by simp
    then obtain j where j: "j < m" "conn_broker (conn v a j) = Some b"
      by (auto simp: neighbours_iff m_def)
    then have "conn_broker (conn u a j) = Some b" using wiring_ends(1) [of v u a j] uv
      by (simp add: m_def)
    then show ?thesis using told [of j b] from_s [of b] keep [of b] j by auto
  qed
  then have "spread K c e v w'"
    using w'(2) new keep by (auto simp: spread_def u_def list_all_iff)
  moreover have "touched K c e w' a" using w'(2) v(2) by (simp add: spread_def u_def)
  ultimately show ?thesis using w'(1) r a(2) by (simp add: touched_def)
qed

lemma insert_delivers:
  assumes next_e: "next_entry c es e" and wired: "wired w0" and border: "bordered K e w0"
  shows "delivers K w0 c es e (BrokerBase_insert n)"
proof (induction n)
  case 0
  show ?case by (simp add: delivers_def)
next
  case (Suc n)
  show ?case unfolding delivers_def
  proof (intro allI impI)
    fix a s w r w'
    assume run: "BrokerBase_insert (Suc n) a e s w = Inr (r, w')"
      and w: "in_progress K w0 c es e w" and a: "live w a" "\<not> K a" and s: "unat s < length (conns w a)"
      and from_s: "\<forall>x. conn_broker (conn w a (unat s)) = Some x \<longrightarrow> touched K c e w x"
    have some: "conns w a \<noteq> []" using s by auto
    have here: "holds c es w a \<or> holds (Clock_merge c (entry_clock e)) (with_entry e es) w a"
      using w a by (auto simp: in_progress_def)
    have go: "in_progress K w0 c es e w' \<and> spread K c e w w' \<and> touched K c e w' a \<and>
        r = Clock_merge c (entry_clock e)"
      if v: "Broker_insert (BrokerBase_insert n) a e s v = Inr (r, w')"
        and cache: "b_kind (broker_at v a) = Cache \<Longrightarrow> b_entries (broker_at v a) = with_entry e es"
        and same: "wiring v = wiring w" "\<And>b. conns v b = conns w b"
          "\<And>b. b \<noteq> a \<Longrightarrow> b_entries (broker_at v b) = b_entries (broker_at w b)" for v
    proof -
      have clock: "Broker_clock v b = Broker_clock w b" for b by (simp add: Broker_clock_def same(2))
      have t: "touched K c e v b = touched K c e w b" for b by (simp add: touched_def clock)
      have others: "holds k ks v b = holds k ks w b" "unmoved w0 v b = unmoved w0 w b"
        if "b \<noteq> a" for b k ks
        using that wiring_kind [OF same(1), of b] by (simp_all add: holds_def unmoved_def clock same(3))
      have "wiring v = wiring w0" "conns v a \<noteq> []" "Broker_clock v a = c \<or> touched K c e v a"
        using w same some here by (auto simp: in_progress_def holds_def touched_def clock)
      note ready = this a(2) cache
      have others: "(K b \<longrightarrow> unmoved w0 v b) \<and>
          (\<not> K b \<longrightarrow> holds c es v b \<or> holds (Clock_merge c (entry_clock e)) (with_entry e es) v b)"
        if "live v b" "b \<noteq> a" for b
        using w that wiring_live [OF same(1)] others by (simp add: in_progress_def)
      have ack: "in_progress K w0 c es e (acknowledged a e s v)"
        "touched K c e (acknowledged a e s v) a"
        "\<And>b. touched K c e (acknowledged a e s v) b \<longleftrightarrow> b = a \<or> touched K c e v b"
        using in_progress_acknowledged [of v w0 a K c e es s] ready others by blast+
      have "in_progress K w0 c es e w' \<and> spread K c e v w' \<and> touched K c e w' a \<and>
          r = Clock_merge c (entry_clock e)"
        using Broker_insert_delivers [OF Suc.IH wired border ack(1,2) _ a(2) _ _ ack(3) v] a s from_s
          wiring_live [OF same(1)] same(2) t by auto
      then show ?thesis by (simp add: spread_def t)
    qed
    show "in_progress K w0 c es e w' \<and> spread K c e w w' \<and> touched K c e w' a \<and>
        (touched K c e w a \<or> r = Clock_merge c (entry_clock e))"
    proof (cases "b_kind (broker_at w a) = Hub")
      case True
      then show ?thesis using run go [of w] by simp
    next
      case journal: False
      show ?thesis
      proof (cases "touched K c e w a")
        case True
        then have "\<not> Clock_isNext (entry_clock e) (Broker_clock w a) (data_id (entry_data e))"
          using next_e a(2) by (simp add: touched_def next_entry_def)
        then show ?thesis using run journal w True by (simp add: JournalBase_insert_def)
      next
        case False
        then have old: "Broker_clock w a = c" "b_kind (broker_at w a) = Cache \<Longrightarrow> b_entries (broker_at w a) = es"
          using here by (auto simp: holds_def touched_def)
        obtain ok v where sv: "BrokerBase_save a e w = (ok, v)" by fastforce
        have ok
          using sv old journal next_e by (auto simp: BrokerBase_save_def Journal_save_def
              JournalFile_save_def Let_def next_entry_def split: kind.splits if_splits)
        then have "Broker_insert (BrokerBase_insert n) a e s v = Inr (r, w')"
          using run journal old(1) next_e sv by (simp add: JournalBase_insert_def next_entry_def)
        moreover have sv': "BrokerBase_save a e w = (True, v)" using sv \<open>ok\<close> by simp
        moreover have "b_kind (broker_at v a) = Cache \<Longrightarrow> b_entries (broker_at v a) = with_entry e es"
          using sv' old(2) a by (auto elim!: save_cases simp: broker_at_set_broker)
        moreover have "b \<noteq> a \<Longrightarrow> b_entries (broker_at v b) = b_entries (broker_at w b)" for b
          using sv' by (auto elim!: save_cases simp: broker_at_set_broker)
        ultimately show ?thesis
          using go [of v] wiring_save [OF sv'] conns_save [OF sv'] by simp
      qed
    qed
  qed
qed

section \<open>Where an entry arrives\<close>

text \<open>An entry that enters at \<open>a\<close> reaches every broker that a walk from \<open>a\<close> outside \<open>K\<close> leads to.
  \<open>T\<close> is the world whose walks are taken: it may lack some connections, those to \<open>K\<close>.\<close>

lemma insert_reaches_part:
  assumes wired: "wired w" and border: "bordered K e w" and next_e: "next_entry c es e"
    and part: "\<And>b. live w b \<Longrightarrow> \<not> K b \<Longrightarrow> holds c es w b"
    and a: "live w a" "\<not> K a" "unat s < length (conns w a)"
    and port: "\<And>x. conn_broker (conn w a (unat s)) = Some x \<Longrightarrow> K x"
    and walks: "\<And>x. set (neighbours T x) \<subseteq> set (neighbours w x)"
      "\<And>x. reachable T a x \<Longrightarrow> \<not> K x"
    and run: "BrokerBase_insert n a e s w = Inr (r, w')"
  shows "r = Clock_merge c (entry_clock e)" and "wiring w' = wiring w"
    and "live w b \<Longrightarrow> K b \<Longrightarrow> unmoved w w' b"
    and "reachable T a b \<Longrightarrow> holds (Clock_merge c (entry_clock e)) (with_entry e es) w' b"
proof -
  have start: "in_progress K w c es e w" using part by (simp add: in_progress_def unmoved_def)
  have untouched: "\<not> touched K c e w b" if "live w b" "\<not> K b" for b
    using part [OF that] that(2) next_entry_changes [OF next_e] by (auto simp: holds_def touched_def)
  have "\<forall>x. conn_broker (conn w a (unat s)) = Some x \<longrightarrow> touched K c e w x"
    using port by (simp add: touched_def)
  then have *: "in_progress K w c es e w'" "spread K c e w w'" "touched K c e w' a"
      "r = Clock_merge c (entry_clock e)"
    using insert_delivers [OF next_e wired border, of n] run start a untouched [OF a(1,2)]
    unfolding delivers_def by blast+
  show wires: "wiring w' = wiring w" using *(1) by (simp add: in_progress_def)
  note live = wiring_live [OF wires]
  show "live w b \<Longrightarrow> K b \<Longrightarrow> unmoved w w' b" using *(1) live by (simp add: in_progress_def)
  show "r = Clock_merge c (entry_clock e)" by (rule *(4))
  show "holds (Clock_merge c (entry_clock e)) (with_entry e es) w' b" if b: "reachable T a b"
  proof -
    have "live w b \<and> touched K c e w' b"
      using b
    proof (induction rule: reachable.induct)
      case (step b d)
      have d: "d \<in> set (neighbours w b)" using step.hyps(2) walks(1) by blast
      then have "live w d" using wired_conn(2) [OF wired] step.IH by (auto simp: neighbours_iff)
      moreover have "touched K c e w' d"
        using *(2) step.IH untouched walks(2) [OF step.hyps(1)] d wiring_neighbours [OF wires]
        unfolding spread_def list_all_iff by blast
      ultimately show ?case by simp
    qed (simp add: a *(3))
    then show ?thesis
      using *(1) walks(2) [OF b] live next_entry_changes [OF next_e]
      by (auto simp: in_progress_def holds_def touched_def)
  qed
qed

text \<open>The entry is new to a network that agrees on the clock \<open>c\<close> and the entries \<open>es\<close>.\<close>

definition fresh_entry :: "clock \<Rightarrow> (clock, data) omap \<Rightarrow> entry \<Rightarrow> bool" where
  "fresh_entry c es e \<longleftrightarrow> clock_le c (entry_clock e) \<and> c \<noteq> entry_clock e \<and>
     Clock_isNext (entry_clock e) c (data_id (entry_data e)) \<and> om_find es (entry_clock e) = None"

lemma fresh_next: "fresh_entry c es e \<Longrightarrow> next_entry c es e"
  by (simp add: fresh_entry_def next_entry_def not_isNext_self flip: clock_le_merge_iff)

lemma insert_reaches:
  assumes wired: "wired w" and agree: "agree c es w" and fresh: "fresh_entry c es e"
    and a: "live w a" and run: "BrokerBase_insert n a e 0 w = Inr (r, w')" and net: "connected w"
  shows "r = entry_clock e \<and> wiring w' = wiring w \<and>
    agree (entry_clock e) (with_entry e es) w'"
proof -
  have merged: "Clock_merge c (entry_clock e) = entry_clock e"
    using fresh by (simp add: fresh_entry_def clock_le_merge_iff)
  have front: "unat (0 :: source) < length (conns w a)" using wired_live(1) [OF wired a] by simp
  have "conn_broker (conn w a (unat (0 :: source))) \<noteq> Some x" for x
    using wired_conn(1) [OF wired a front] by fastforce
  note part = insert_reaches_part [where K = "\<lambda>_. False" and T = w, OF wired _ fresh_next [OF fresh] _ a _ front
      _ _ _ run, unfolded merged]
  have "holds (entry_clock e) (with_entry e es) w' b" if "live w b" for b
    using part(4) [of b] agree net that a \<open>\<And>x. conn_broker (conn w a (unat 0)) \<noteq> Some x\<close>
    by (simp add: bordered_def agree_live connected_def)
  moreover have "r = entry_clock e" "wiring w' = wiring w"
    using part(1,2) agree \<open>\<And>x. conn_broker (conn w a (unat 0)) \<noteq> Some x\<close>
    by (simp_all add: bordered_def agree_live)
  ultimately show ?thesis using wiring_live [of w' w] by (simp add: agree_live)
qed

end
