(* ===== verification/Termination.thy ===== *)
theory Termination
  imports Broadcast
begin

text \<open>
  When a call of \<open>insert\<close> returns. A hub forwards every entry it is given, so among hubs the call
  returns exactly when the walks that never turn back are bounded. A cache refuses an entry it
  holds, so among caches the call returns on every topology.
\<close>

section \<open>Walks that never turn back\<close>

primrec bounded :: "nat \<Rightarrow> world \<Rightarrow> addr \<Rightarrow> source \<Rightarrow> bool" where
  "bounded 0 w a p = False"
| "bounded (Suc n) w a p =
     list_all (\<lambda>i. i = unat p \<or>
         (case Connection_broker w (conn w a i) of
            None \<Rightarrow> True
          | Some b \<Rightarrow> bounded n w b (conn_source (conn w a i))))
       [0..<length (conns w a)]"

lemma bounded_wiring: "wiring w = wiring w' \<Longrightarrow> bounded n w a p = bounded n w' a p"
proof (induction n arbitrary: a p)
  case (Suc n)
  note ends = wiring_Connection_broker [OF Suc.prems]
  show ?case
    unfolding bounded.simps list_all_iff wiring_length [OF Suc.prems, of a]
    using Suc.IH [OF Suc.prems] ends wiring_length [OF Suc.prems, of a]
    by (intro ball_cong refl disj_cong) (auto split: option.splits)
qed simp

lemma bounded_mono: "bounded n w a p \<Longrightarrow> bounded (Suc n) w a p"
proof (induction n arbitrary: a p)
  case (Suc n)
  then show ?case
    by (subst bounded.simps) (fastforce simp: list_all_iff split: option.splits)
qed simp

section \<open>Enough fuel\<close>

lemma Broker_insert_total:
  assumes call: "\<And>i v. i < length (conns w a) \<Longrightarrow> i \<noteq> unat s \<Longrightarrow> P v \<Longrightarrow> wiring v = wiring w \<Longrightarrow>
      \<exists>v'. forwarded call a e s i v = Inr v' \<and> P v' \<and> wiring v' = wiring w"
    and start: "P (acknowledged a e s w)"
  shows "\<exists>r w'. Broker_insert call a e s w = Inr (r, w')"
proof (cases "unat s < length (conns w a)")
  case True
  have "\<exists>t. forEach [0..<length (conns w a)] (forwarded call a e s) (acknowledged a e s w) = Inr t \<and>
      (P t \<and> wiring t = wiring w)"
    by (rule forEach_total) (use call start in \<open>auto simp: forwarded_def\<close>)
  then show ?thesis by (auto simp: Broker_insert_steps [OF True])
qed (simp add: Broker_insert_def)

lemma insert_total_bounded: "bounded n w a s \<Longrightarrow> \<exists>r w'. BrokerBase_insert n a e s w = Inr (r, w')"
proof (induction n arbitrary: a s w)
  case (Suc n)
  have deliver: "\<exists>r w'. Broker_insert (BrokerBase_insert n) a e s u = Inr (r, w')"
    if u: "wiring u = wiring w" for u
  proof (rule Broker_insert_total [where P = "\<lambda>_. True"])
    fix i v assume i: "i < length (conns u a)" "i \<noteq> unat s" and v: "wiring v = wiring u"
    have len: "length (conns v a) = length (conns u a)" using v by (rule wiring_length)
    have "bounded (Suc n) v a s" using Suc.prems bounded_wiring v u by metis
    then have "bounded n v b (conn_source (conn v a i))" if "Connection_broker v (conn v a i) = Some b" for b
      using i len that by (fastforce simp: list_all_iff)
    then have returns: "\<exists>r v'. BrokerBase_insert n b e (conn_source (conn v a i)) v = Inr (r, v')"
      if "Connection_broker v (conn v a i) = Some b" for b
      using Suc.IH that by blast
    have "\<exists>v'. forwarded (BrokerBase_insert n) a e s i v = Inr v'"
    proof (cases "Connection_broker v (conn v a i)")
      case None
      then show ?thesis by (simp add: forwarded_def Connection_insert_def)
    next
      case (Some b)
      then show ?thesis using returns [of b]
        by (auto simp: forwarded_def Connection_insert_def split: prod.split)
    qed
    then obtain v' where v': "forwarded (BrokerBase_insert n) a e s i v = Inr v'" ..
    have "wiring v' = wiring v"
      using v' i len wires.connection_insert [where call = "BrokerBase_insert n" and a = a and i = i
          and e = e and w = v and w' = v'] wires.insert
      by (auto simp: forwarded_def cashmere_errors)
    then show "\<exists>v'. forwarded (BrokerBase_insert n) a e s i v = Inr v' \<and> True \<and> wiring v' = wiring u"
      using v v' by simp
  qed simp
  obtain ok v where sv: "BrokerBase_save a e w = (ok, v)" by fastforce
  then have "wiring v = wiring w" by (rule wiring_save)
  then show ?case using deliver [of w] deliver [of v] sv
    by (auto simp: JournalBase_insert_def)
qed simp

text \<open>Among hubs the bound is also necessary.\<close>

definition all_hubs :: "world \<Rightarrow> bool" where
  "all_hubs w \<longleftrightarrow> list_all (\<lambda>(_, b). b_kind b = Hub) (entries (w_brokers w))"

lemma all_hubs_kind: "all_hubs w \<Longrightarrow> b_kind (broker_at w a) = Hub"
  by (auto simp: all_hubs_def broker_at_def no_broker_def list_all_iff om_find_iff split: option.split)

lemma all_hubs_wiring: "wiring w = wiring w' \<Longrightarrow> all_hubs w \<Longrightarrow> all_hubs w'"
  using wiring_kind [of w w'] all_hubs_kind [of w] broker_at_entries [of _ _ w']
  by (fastforce simp: all_hubs_def [of w'] list_all_iff)

text \<open>For the bound it is enough that the far port of each connection exists.\<close>

definition ported :: "world \<Rightarrow> bool" where
  "ported w \<longleftrightarrow> (\<forall>a i b. i < length (conns w a) \<longrightarrow> Connection_broker w (conn w a i) = Some b \<longrightarrow>
     unat (conn_source (conn w a i)) < length (conns w b))"

lemma wiring_ported: "wiring w = wiring w' \<Longrightarrow> ported w \<Longrightarrow> ported w'"
  unfolding ported_def by (metis wiring_Connection_broker wiring_length)

lemma wired_ported:
  assumes "wired w"
  shows "ported w"
  unfolding ported_def
proof (intro allI impI)
  fix a i b assume i: "i < length (conns w a)" and b: "Connection_broker w (conn w a i) = Some b"
  have "live w a" using i not_live_conns [of w a] by fastforce
  then show "unat (conn_source (conn w a i)) < length (conns w b)"
    using wired_conn(3) [OF assms _ i] b by (simp add: Connection_broker_live)
qed

lemma hubs_insert_bounded:
  assumes "all_hubs w" and "ported w" and "unat s < length (conns w a)"
    and "BrokerBase_insert n a e s w = Inr (r, w')"
  shows "bounded n w a s"
  using assms
proof (induction n arbitrary: a s w r w')
  case (Suc n)
  define u where "u = acknowledged a e s w"
  have u: "wiring u = wiring w" by (simp add: u_def)
  have "Broker_insert (BrokerBase_insert n) a e s w = Inr (r, w')"
    using Suc.prems(1,4) by (simp add: all_hubs_kind)
  then have loop: "forEach [0..<length (conns w a)] (forwarded (BrokerBase_insert n) a e s) u = Inr w'"
    by (auto simp: Broker_insert_steps [OF Suc.prems(3)] cashmere_errors u_def)
  define P where "P k v \<longleftrightarrow> wiring v = wiring w \<and> (\<forall>i < k. i \<noteq> unat s \<longrightarrow>
    (\<forall>b. Connection_broker w (conn w a i) = Some b \<longrightarrow> bounded n w b (conn_source (conn w a i))))" for k v
  have "P (length (conns w a)) w'"
    using loop
  proof (rule forEach_upto [OF _ le0])
    show "P 0 u" by (simp add: P_def u)
  next
    fix i x y assume i: "i < length (conns w a)" and x: "P i x"
      and step: "forwarded (BrokerBase_insert n) a e s i x = Inr y"
    have wx: "wiring x = wiring w" using x by (simp add: P_def)
    have ix: "i < length (conns x a)" using i wiring_length [OF wx, of a] by simp
    have wy: "wiring y = wiring x"
      using step ix wires.connection_insert [where call = "BrokerBase_insert n" and a = a and i = i
          and e = e and w = x and w' = y] wires.insert
      by (auto simp: forwarded_def cashmere_errors split: if_splits)
    have "bounded n w b (conn_source (conn w a i))"
      if b: "Connection_broker w (conn w a i) = Some b" and other: "i \<noteq> unat s" for b
    proof -
      note ends = wiring_Connection_broker [OF wx ix]
      have bx: "Connection_broker x (conn x a i) = Some b" using ends(1) b by simp
      have w_x: "all_hubs x" "ported x"
        using Suc.prems(1,2) all_hubs_wiring [of w x] wiring_ported [of w x] wx by simp_all
      have far: "unat (conn_source (conn x a i)) < length (conns x b)"
        using w_x(2) ix bx by (simp add: ported_def)
      obtain r v where "BrokerBase_insert n b e (conn_source (conn x a i)) x = Inr (r, v)"
        using step other bx by (auto simp: forwarded_def Connection_insert_def cashmere_errors)
      then have "bounded n x b (conn_source (conn x a i))"
        using Suc.IH w_x far by blast
      then show ?thesis using bounded_wiring [OF wx] ends(2) by simp
    qed
    then show "P (Suc i) y" using x wy by (auto simp: P_def less_Suc_eq)
  qed
  then show ?case by (auto simp: P_def list_all_iff split: option.split)
qed simp

section \<open>Caches\<close>

definition all_caches :: "world \<Rightarrow> bool" where
  "all_caches w \<longleftrightarrow> list_all (\<lambda>(_, b). b_kind b = Cache) (entries (w_brokers w))"

text \<open>The brokers that do not hold the entry of a clock.\<close>

definition lacking :: "clock \<Rightarrow> world \<Rightarrow> addr set" where
  "lacking c w = {a. live w a \<and> om_find (b_entries (broker_at w a)) c = None}"

lemma finite_live: "finite {a. live w a}"
  using finite_dom_om_find [of "w_brokers w"] by (simp add: live_def dom_def)

lemma finite_lacking [simp]: "finite (lacking c w)"
  by (rule finite_subset [OF _ finite_live [of w]]) (auto simp: lacking_def)

lemma card_live: "card {a. live w a} = om_size (w_brokers w)"
proof -
  have "{a. live w a} = fst ` set (entries (w_brokers w))"
    by (force simp: live_def om_find_None)
  then show ?thesis
    using distinct_card [OF distinct_entries [of "w_brokers w"]] by (simp add: om_size_def)
qed

lemma card_lacking: "card (lacking c w) \<le> om_size (w_brokers w)"
  using card_mono [OF finite_live [of w], of "lacking c w"] by (auto simp: card_live lacking_def)

lemma entries_effect_lacking:
  assumes "entries_effect e w w'"
  shows "lacking (entry_clock e) w' \<subseteq> lacking (entry_clock e) w"
proof
  fix a assume "a \<in> lacking (entry_clock e) w'"
  moreover have "live w' a = live w a"
    using stored.wires [OF assms] by (rule wiring_live)
  ultimately show "a \<in> lacking (entry_clock e) w"
    using assms unfolding entries_effect_def lacking_def Let_def mem_Collect_eq by metis
qed

lemma all_caches_kind: "all_caches w \<Longrightarrow> live w a \<Longrightarrow> b_kind (broker_at w a) = Cache"
  using broker_at_entries [of a _ w] by (fastforce simp: all_caches_def list_all_iff live_entries)

lemma all_caches_wiring:
  assumes "wiring w = wiring w'" and "all_caches w"
  shows "all_caches w'"
proof -
  have "b_kind b = Cache" if "(a, b) \<in> set (entries (w_brokers w'))" for a b
    using that all_caches_kind [OF assms(2), of a] wiring_kind [OF assms(1), of a]
      wiring_live [OF assms(1), of a] broker_at_entries [OF that] by (auto simp: live_entries)
  then show ?thesis by (auto simp: all_caches_def list_all_iff)
qed

lemma insert_total_caches:
  assumes "all_caches w" and "live w a" and "card (lacking (entry_clock e) w) < n"
  shows "\<exists>r w'. BrokerBase_insert n a e s w = Inr (r, w')"
  using assms
proof (induction n arbitrary: a s w)
  case (Suc n)
  have kind: "b_kind (broker_at w a) = Cache" using Suc.prems(1,2) by (rule all_caches_kind)
  obtain ok v where sv: "BrokerBase_save a e w = (ok, v)" by fastforce
  show ?case
  proof (cases "Clock_isNext (entry_clock e) (Broker_clock w a) (data_id (entry_data e)) \<and> ok")
    case False
    then show ?thesis using kind sv by (auto simp: JournalBase_insert_def)
  next
    case True
    then have sv': "BrokerBase_save a e w = (True, v)" using sv by simp
    have v: "wiring v = wiring w" using sv' by (rule wiring_save)
    have eff: "entries_effect e w v" using sv' by (rule stored.save)
    have "a \<in> lacking (entry_clock e) w" "a \<notin> lacking (entry_clock e) v"
      using sv' kind Suc.prems(2) by (auto elim!: save_cases simp: lacking_def broker_at_set_broker)
    then have "lacking (entry_clock e) v \<subset> lacking (entry_clock e) w"
      using entries_effect_lacking [OF eff] by blast
    then have "card (lacking (entry_clock e) v) < card (lacking (entry_clock e) w)"
      by (rule psubset_card_mono [OF finite_lacking])
    then have few: "card (lacking (entry_clock e) v) < n" using Suc.prems(3) by simp
    have "\<exists>r w'. Broker_insert (BrokerBase_insert n) a e s v = Inr (r, w')"
    proof (rule Broker_insert_total [where P = "entries_effect e v"])
      show "entries_effect e v (acknowledged a e s v)" by (simp add: entries_effect_def)
    next
      fix i x assume i: "i < length (conns v a)" "i \<noteq> unat s" and x: "entries_effect e v x"
        and wx: "wiring x = wiring v"
      have ix: "i < length (conns x a)" using i wiring_length [OF wx, of a] by simp
      have caches: "all_caches x" using all_caches_wiring [of w x] wx v Suc.prems(1) by simp
      have few_x: "card (lacking (entry_clock e) x) < n"
        using card_mono [OF finite_lacking entries_effect_lacking [OF x]] few by simp
      have "\<exists>y. forwarded (BrokerBase_insert n) a e s i x = Inr y"
      proof (cases "Connection_broker x (conn x a i)")
        case None
        then show ?thesis by (simp add: forwarded_def Connection_insert_def)
      next
        case (Some b)
        then have "live x b" by (simp add: Connection_broker_live)
        then show ?thesis using Some Suc.IH [OF caches _ few_x, of b "conn_source (conn x a i)"]
          by (auto simp: forwarded_def Connection_insert_def split: prod.split)
      qed
      then obtain y where y: "forwarded (BrokerBase_insert n) a e s i x = Inr y" ..
      then have "entries_effect e x y"
        using i ix stored.connection_insert [where call = "BrokerBase_insert n" and a = a and i = i
            and e = e and w = x and w' = y] stored.insert
        by (auto simp: forwarded_def cashmere_errors)
      then show "\<exists>y. forwarded (BrokerBase_insert n) a e s i x = Inr y \<and> entries_effect e v y \<and>
          wiring y = wiring v"
        using y x stored.trans stored.wires wx by metis
    qed
    then show ?thesis using kind sv' True by (auto simp: JournalBase_insert_def)
  qed
qed simp

end
