(* ===== verification/Routing.thy ===== *)
theory Routing
  imports Termination
begin

text \<open>
  Routes: what a broker tells its neighbours about the journals it can reach, how \<open>relay\<close>
  chooses among them, and how the announcements of \<open>refresh\<close> travel.
\<close>

section \<open>Advertisements\<close>

lemma find_absorb_all:
  "om_find (fold (\<lambda>(_, m) out. om_absorb out (om_map (\<lambda>_. farther) m)) xs out) i =
     (case om_find out i of
        Some info \<Rightarrow> Some info
      | None \<Rightarrow>
          (case find (\<lambda>(_, m). om_find m i \<noteq> None) xs of
             None \<Rightarrow> None
           | Some (_, m) \<Rightarrow> map_option farther (om_find m i)))"
  by (induction xs arbitrary: out)
    (auto simp: om_find_absorb om_find_map split: option.splits)

lemma find_put_ports:
  assumes "distinct (map f is)"
  shows "om_find (fold (\<lambda>i out. if P i then out else om_put (f i) (g i) out) is out) p =
     (case find (\<lambda>i. f i = p \<and> \<not> P i) is of None \<Rightarrow> om_find out p | Some i \<Rightarrow> Some (g i))"
  using assms
proof (induction "is" arbitrary: out)
  case (Cons i "is")
  have none: "find (\<lambda>i. f i = p \<and> \<not> P i) is = None" if "f i = p"
  proof -
    have "f j \<noteq> p" if "j \<in> set is" for j
    proof
      assume "f j = p"
      then have "f i \<in> f ` set is" using \<open>f i = p\<close> that by (metis imageI)
      then show False using Cons.prems by simp
    qed
    then show ?thesis by (auto simp: find_None_iff)
  qed
  then show ?case using Cons by (auto split: option.split)
qed simp

lemma find_single:
  assumes "i < n"
  shows "find (\<lambda>j. j = i \<and> Q j) [0..<n] = (if Q i then Some i else None)"
proof -
  have "find (\<lambda>j. j = i \<and> Q j) xs = (if Q i then Some i else None)" if "i \<in> set xs" for xs
    using that by (induction xs) (auto simp: find_None_iff)
  then show ?thesis using assms by simp
qed

section \<open>The choice of \<open>relay\<close>\<close>

text \<open>The routes to a journal, and the first of those with the smallest distance.\<close>

definition routes :: "ident \<Rightarrow> (source \<times> ident \<times> conn_info) list \<Rightarrow> (int \<times> source) list" where
  "routes i xs =
     map (\<lambda>(port, _, info). (sint (info_distance info), port)) (filter (\<lambda>(_, j, _). j = i) xs)"

definition nearest :: "(int \<times> source) list \<Rightarrow> int \<times> source" where
  "nearest rs = hd (filter (\<lambda>r. fst r = Min (fst ` set rs)) rs)"

definition nearer :: "int \<times> source \<Rightarrow> int \<times> source \<Rightarrow> int \<times> source" where
  "nearer r best = (if fst r < fst best then r else best)"

lemma nearer_simps [simp]:
  "fst r < fst best \<Longrightarrow> nearer r best = r"
  "\<not> fst r < fst best \<Longrightarrow> nearer r best = best"
  by (simp_all add: nearer_def)

lemma relay_scan_routes:
  "relay_scan i xs best =
     (if 0 \<in> fst ` set (routes i xs) then None else Some (fold nearer (routes i xs) best))"
proof (induction i xs best rule: relay_scan.induct)
  case (2 i port j info xs best)
  have "info_distance info = 0 \<longleftrightarrow> sint (info_distance info) = 0"
    by (metis sint_0 signed_word_eqI)
  then show ?case using 2 by (auto simp: routes_def)
qed (simp add: routes_def)

lemma fold_nearer: "fold nearer rs r = nearest (r # rs)"
proof (induction rs arbitrary: r)
  case Nil
  then show ?case by (simp add: nearest_def)
next
  case (Cons s rs)
  let ?S = "fst ` set rs"
  show ?case
  proof (cases "fst s < fst r")
    case True
    have "Min (insert (fst r) (insert (fst s) ?S)) = min (fst r) (Min (insert (fst s) ?S))"
      by (rule Min_insert) auto
    moreover have less: "Min (insert (fst s) ?S) < fst r"
      by (rule le_less_trans [OF Min_le True]) auto
    ultimately have "Min (insert (fst r) (insert (fst s) ?S)) = Min (insert (fst s) ?S)"
      by (simp only: min_absorb2 [OF less_imp_le [OF less]])
    moreover have "fst r \<noteq> Min (insert (fst s) ?S)" using less by (rule less_imp_neq [THEN not_sym])
    ultimately have "Min (insert (fst r) (insert (fst s) ?S)) = Min (insert (fst s) ?S)"
      "fst r \<noteq> Min (insert (fst s) ?S)" .
    then show ?thesis using Cons True by (simp add: nearest_def)
  next
    case False
    define m where "m = Min (insert (fst r) ?S)"
    have "insert (fst r) (insert (fst s) ?S) = insert (fst s) (insert (fst r) ?S)" by auto
    then have "Min (insert (fst r) (insert (fst s) ?S)) = min (fst s) m"
      unfolding m_def by (simp only:) (rule Min_insert, auto)
    moreover have le: "m \<le> fst r" unfolding m_def by (rule Min_le) auto
    ultimately have all: "Min (fst ` set (r # s # rs)) = m" using False by simp
    have less: "Min (fst ` set (r # rs)) = m" by (simp add: m_def)
    have "fst r \<noteq> m \<Longrightarrow> fst s \<noteq> m" using le False by linarith
    then have "nearest (r # s # rs) = nearest (r # rs)"
      unfolding nearest_def all less by (cases "fst r = m") simp_all
    then show ?thesis using Cons False by simp
  qed
qed

lemma nearest_member:
  assumes "rs \<noteq> []"
  shows "nearest rs \<in> set rs"
proof -
  have "Min (fst ` set rs) \<in> fst ` set rs" using assms by (intro Min_in) auto
  then have "filter (\<lambda>r. fst r = Min (fst ` set rs)) rs \<noteq> []" by (force simp: filter_empty_conv)
  then show ?thesis unfolding nearest_def using hd_in_set by fastforce
qed

lemma Broker_relay_routes:
  "Broker_relay peer insert_self a d sender w =
     (let rs = routes (data_id d) (advertised (BrokerBase_sources w a 0) sender) in
      if 0 \<in> fst ` set rs then insert_self a
          \<lparr>entry_clock = Clock_tick (Broker_clock w a) (data_id d), entry_data = d\<rparr> 0 w
      else if rs = [] then Inr (refused, w)
      else if length (conns w a) \<le> unat (snd (nearest rs)) then Inl Out_of_range
      else Connection_relay peer (conn w a (unat (snd (nearest rs)))) d w)"
proof -
  define rs where "rs = routes (data_id d) (advertised (BrokerBase_sources w a 0) sender)"
  have short: "fst r < long_max" if r: "r \<in> set rs" for r
  proof -
    obtain info :: conn_info where "fst r = sint (info_distance info)"
      using r by (auto simp: rs_def routes_def)
    then show ?thesis using sint_less [of "info_distance info"] by (simp add: long_max_def)
  qed
  show ?thesis
  proof (cases rs)
    case Nil
    then show ?thesis by (simp add: Broker_relay_def relay_scan_routes flip: rs_def)
  next
    case (Cons r rs')
    then have "fold nearer rs (long_max, - 1) = nearest rs"
      using short [of r] by (simp add: fold_nearer)
    moreover have "fst (nearest rs) \<noteq> long_max" using short nearest_member [of rs] Cons by fastforce
    ultimately show ?thesis using Cons
      by (simp add: Broker_relay_def relay_scan_routes Let_def split: prod.split flip: rs_def) auto
  qed
qed

lemma find_sources:
  assumes "length (conns w a) \<le> 2 ^ 32"
  shows "om_find (Broker_sources w a sender) p =
    (let i = unat p in
     if i < length (conns w a) \<and> \<not> (p \<noteq> 0 \<and> p = sender) \<and> Connection_valid w (conn w a i) \<and>
        conn_sources (conn w a i) \<noteq> om_empty
     then Some (conn_sources (conn w a i)) else None)"
proof -
  define skip where "skip i \<longleftrightarrow> i > 0 \<and> i = unat sender \<or> \<not> Connection_valid w (conn w a i) \<or>
    conn_sources (conn w a i) = om_empty" for i
  have "Broker_sources w a sender = fold (\<lambda>i out. if skip i then out
      else om_put (of_nat i) (conn_sources (conn w a i)) out) [0..<length (conns w a)] om_empty"
    unfolding Broker_sources_def skip_def by (intro fold_cong refl) (auto simp: fun_eq_iff)
  moreover have inj: "(of_nat i :: source) = p \<longleftrightarrow> i = unat p" if "i < length (conns w a)" for i
  proof -
    have "unat (of_nat i :: source) = i" using that assms by (intro unat_port) linarith
    moreover have "(of_nat (unat p) :: source) = p" by simp
    ultimately show ?thesis by metis
  qed
  have "distinct (map (of_nat :: nat \<Rightarrow> source) [0..<length (conns w a)])"
    unfolding distinct_map
  proof (intro conjI inj_onI)
    fix i j assume i: "i \<in> set [0..<length (conns w a)]" and j: "j \<in> set [0..<length (conns w a)]"
      and same: "(of_nat i :: source) = of_nat j"
    have "unat (of_nat i :: source) = i" "unat (of_nat j :: source) = j"
      using i j assms by (simp_all add: unat_port)
    then show "i = j" unfolding same by (rule trans [OF sym])
  qed simp
  moreover have "find (\<lambda>i. (of_nat i :: source) = p \<and> \<not> skip i) [0..<length (conns w a)] =
      find (\<lambda>i. i = unat p \<and> \<not> skip i) [0..<length (conns w a)]"
    using inj by (intro find_cong) auto
  moreover have "\<dots> = (if unat p < length (conns w a) \<and> \<not> skip (unat p) then Some (unat p) else None)"
    using find_single [of "unat p" _ "\<lambda>i. \<not> skip i"] by (auto simp: find_None_iff)
  ultimately have "om_find (Broker_sources w a sender) p =
      (if unat p < length (conns w a) \<and> \<not> skip (unat p) then Some (conn_sources (conn w a (unat p)))
       else None)"
    by (simp only: find_put_ports) simp
  moreover have "skip (unat p) \<longleftrightarrow> p \<noteq> 0 \<and> p = sender \<or> \<not> Connection_valid w (conn w a (unat p)) \<or>
      conn_sources (conn w a (unat p)) = om_empty"
    unfolding skip_def by (metis neq0_conv unat_0 word_unat_eq_iff)
  ultimately show ?thesis by (simp add: Let_def)
qed

section \<open>Refresh\<close>

text \<open>In a settled network the two ends of a connection name each other's ports, and a broker that
  lives in the store is registered under its own URL.\<close>

definition named_back :: "world \<Rightarrow> addr \<Rightarrow> nat \<Rightarrow> bool" where
  "named_back w a i \<longleftrightarrow>
     (case conn_broker (conn w a i) of
        None \<Rightarrow> True
      | Some b \<Rightarrow> conn_source (conn w b (unat (conn_source (conn w a i)))) = of_nat i)"

definition settled :: "world \<Rightarrow> bool" where
  "settled w \<longleftrightarrow> wired w \<and>
     list_all (\<lambda>(a, b). registered w a \<and> length (b_connections b) \<le> 2 ^ 32 \<and>
       list_all (named_back w a) [0..<length (b_connections b)]) (entries (w_brokers w))"

lemma settled_live:
  assumes "settled w" and "live w a"
  shows "registered w a" and "length (conns w a) \<le> 2 ^ 32"
    and "i < length (conns w a) \<Longrightarrow> named_back w a i"
  using assms broker_at_entries [of a _ w]
  by (fastforce simp: settled_def list_all_iff live_entries)+

lemma settled_iff:
  "settled w \<longleftrightarrow> wired w \<and> (\<forall>a. live w a \<longrightarrow> registered w a \<and> length (conns w a) \<le> 2 ^ 32 \<and>
     (\<forall>i < length (conns w a). named_back w a i))"
  using broker_at_entries [of _ _ w] by (fastforce simp: settled_def list_all_iff live_entries)

definition same_net :: "world \<Rightarrow> world \<Rightarrow> bool" where
  "same_net w w' \<longleftrightarrow> wiring w' = wiring w \<and> w_store w' = w_store w"

lemma same_net_refl [simp]: "same_net w w"
  by (simp add: same_net_def)

lemma same_net_trans: "same_net u v \<Longrightarrow> same_net v w \<Longrightarrow> same_net u w"
  by (simp add: same_net_def)

lemma same_net_settled:
  assumes same: "same_net w w'" and "settled w"
  shows "settled w'"
proof -
  have wires: "wiring w = wiring w'" using same by (simp add: same_net_def)
  have "named_back w' a i" if "live w a" "i < length (conns w a)" for a i
  proof (cases "conn_broker (conn w a i)")
    case None
    then show ?thesis using wiring_ends(1) [OF wires, of a i] that by (simp add: named_back_def)
  next
    case (Some b)
    have w: "wired w" using assms(2) by (simp add: settled_iff)
    note far = wired_conn(3) [OF w that Some]
    define j where "j = conn_source (conn w a i)"
    have "conn_broker (conn w' a i) = Some b" "conn_source (conn w' a i) = j"
      using wiring_ends [OF wires, of a i] that Some by (simp_all add: j_def)
    moreover have "conn_source (conn w' b (unat j)) = of_nat i"
      using settled_live(3) [OF assms(2) that] Some wiring_ends(2) [OF wires, of b "unat j"] far
      by (simp add: named_back_def j_def)
    ultimately show ?thesis by (simp add: named_back_def)
  qed
  moreover have "registered w' a = registered w a" for a
    using same wiring_frame [OF wires, of a] by (simp add: registered_def same_net_def frame_def)
  ultimately show ?thesis
    using assms(2) wiring_wired [OF wires] wiring_live [OF wires] wiring_length [OF wires]
    by (simp add: settled_iff)
qed

lemma introduction_registered:
  "registered w a \<Longrightarrow> introduction a i w =
     ((Connection_to (Some a))\<lparr>conn_source := i, conn_version := Broker_clock w a,
        conn_sources := UpdateProvides (BrokerBase_sources w a i)\<rparr>, w)"
  by (simp add: introduction_def stub_registered)

lemma store_set_conn [simp]: "w_store (set_conn a i f w) = w_store w"
  by (simp add: set_conn_def set_broker_def split: option.split)

lemma wiring_set_conn_at:
  assumes "ends (f (conn w a i)) = ends (conn w a i) \<or> length (conns w a) \<le> i"
  shows "wiring (set_conn a i f w) = wiring w"
proof (rule om_eqI)
  fix b
  have "map ends ((conns w a)[i := f (conn w a i)]) = map ends (conns w a)"
    using assms by (cases "i < length (conns w a)") (simp_all add: map_update list_update_same_conv list_update_beyond)
  then show "om_find (wiring (set_conn a i f w)) b = om_find (wiring w) b"
    by (auto simp: wiring_find set_conn_def set_broker_def broker_at_def frame_def split: option.splits)
qed

text \<open>One announcement, and what a refresh does when its callees behave: it returns when the walks
  are bounded, only then, and keeps the network.\<close>

definition announces :: "nat \<Rightarrow> refresh_call \<Rightarrow> bool" where
  "announces n call \<longleftrightarrow> (\<forall>a d p w. settled w \<longrightarrow> live w a \<longrightarrow> p \<noteq> 0 \<longrightarrow> unat p < length (conns w a) \<longrightarrow>
     conn_source d = conn_source (conn w a (unat p)) \<longrightarrow>
     conn_broker (conn w a (unat p)) \<noteq> None \<longrightarrow>
     (bounded n w a p \<longrightarrow> (\<exists>ok w'. call a d p w = Inr (ok, w'))) \<and>
     (\<forall>ok w'. call a d p w = Inr (ok, w') \<longrightarrow> bounded n w a p \<and> same_net w w' \<and> ok))"

definition announced :: "refresh_call \<Rightarrow> addr \<Rightarrow> source \<Rightarrow> nat \<Rightarrow> world \<Rightarrow> world outcome" where
  "announced peer a ignored i w =
     (if i = unat ignored then Inr w
      else let (data, w) = introduction a (of_nat i) w in
        andThen (Connection_refresh peer (conn w a i) data w) (\<lambda>(_, w). Inr w))"

text \<open>What the loop knows of one port: the walk that starts through it is bounded.\<close>

definition port_bounded :: "nat \<Rightarrow> world \<Rightarrow> addr \<Rightarrow> nat \<Rightarrow> bool" where
  "port_bounded n w a i \<longleftrightarrow>
     (case Connection_broker w (conn w a i) of
        None \<Rightarrow> True
      | Some b \<Rightarrow> bounded n w b (conn_source (conn w a i)))"

lemma announced_step:
  assumes call: "announces n call" and w: "settled w" "live w a" and i: "i < length (conns w a)" "0 < i"
  shows "i = unat p \<or> port_bounded n w a i \<Longrightarrow> \<exists>w'. announced call a p i w = Inr w'"
    and "announced call a p i w = Inr w' \<Longrightarrow> (i = unat p \<or> port_bounded n w a i) \<and> same_net w w'"
proof -
  have reg: "registered w a" using settled_live(1) [OF w] .
  have "(i = unat p \<or> port_bounded n w a i \<longrightarrow> (\<exists>w'. announced call a p i w = Inr w')) \<and>
    (\<forall>w'. announced call a p i w = Inr w' \<longrightarrow> (i = unat p \<or> port_bounded n w a i) \<and> same_net w w')"
  proof (cases "Connection_broker w (conn w a i)")
    case None
    then show ?thesis
      by (simp add: announced_def introduction_registered [OF reg] Connection_refresh_def port_bounded_def)
  next
    case (Some b)
    then have b: "conn_broker (conn w a i) = Some b" "live w b" by (simp_all add: Connection_broker_live)
    have wired: "wired w" using w(1) by (simp add: settled_iff)
    define j where "j = conn_source (conn w a i)"
    have j: "unat j < length (conns w b)" "conn_broker (conn w b (unat j)) = Some a"
      using wired_conn(3,4) [OF wired w(2) i(1) b(1)] by (simp_all add: j_def)
    have "j \<noteq> 0" using wired_conn(1) [OF wired b(2) j] by auto
    moreover have "conn_source (conn w b (unat j)) = of_nat i"
      using settled_live(3) [OF w i(1)] b(1) by (simp add: named_back_def j_def)
    ultimately have spec: "(bounded n w b j \<longrightarrow> (\<exists>ok w'. call b d j w = Inr (ok, w'))) \<and>
        (\<forall>ok w'. call b d j w = Inr (ok, w') \<longrightarrow> bounded n w b j \<and> same_net w w' \<and> ok)"
      if "conn_source d = of_nat i" for d
      using call w(1) b(2) j that unfolding announces_def by (metis option.distinct(1))
    define d where "d = (Connection_to (Some a))\<lparr>conn_source := of_nat i, conn_version := Broker_clock w a,
        conn_sources := UpdateProvides (BrokerBase_sources w a (of_nat i))\<rparr>"
    have run: "announced call a p i w =
        (if i = unat p then Inr w else andThen (call b d j w) (\<lambda>(_, w). Inr w))"
      using Some by (simp add: announced_def introduction_registered [OF reg] Connection_refresh_def
          d_def j_def)
    have "conn_source d = of_nat i" by (simp add: d_def)
    then show ?thesis using spec [of d] Some
      by (auto simp: run port_bounded_def cashmere_errors simp flip: j_def)
  qed
  then show "i = unat p \<or> port_bounded n w a i \<Longrightarrow> \<exists>w'. announced call a p i w = Inr w'"
    and "announced call a p i w = Inr w' \<Longrightarrow> (i = unat p \<or> port_bounded n w a i) \<and> same_net w w'"
    by blast+
qed

lemma port_bounded_same_net:
  "same_net w w' \<Longrightarrow> i < length (conns w a) \<Longrightarrow> port_bounded n w' a i = port_bounded n w a i"
  using wiring_Connection_broker [of w w' i a] bounded_wiring [of w w']
  by (simp add: port_bounded_def same_net_def split: option.split)

lemma bounded_ports:
  assumes "wired w" and "live w a"
  shows "bounded (Suc n) w a p \<longleftrightarrow>
    (\<forall>i. 0 < i \<longrightarrow> i < length (conns w a) \<longrightarrow> i = unat p \<or> port_bounded n w a i)"
proof -
  have "port_bounded n w a 0"
    using wired_conn(1) [OF assms, of 0] wired_live(1) [OF assms]
    by (cases "conn_broker (conn w a 0)") (auto simp: port_bounded_def Connection_broker_def)
  then have "bounded (Suc n) w a p \<longleftrightarrow> (\<forall>i < length (conns w a). i = unat p \<or> port_bounded n w a i)"
    by (auto simp: list_all_iff port_bounded_def)
  then show ?thesis using \<open>port_bounded n w a 0\<close> by (metis gr0I)
qed

lemma refreshConnections_announced:
  "Broker_refreshConnections peer a p w = forEach [1..<length (conns w a)] (announced peer a p) w"
  by (simp add: Broker_refreshConnections_def announced_def [abs_def])

lemma refreshConnections_bounded:
  assumes call: "announces n call" and w: "settled w" "live w a"
  shows "bounded (Suc n) w a p \<Longrightarrow> \<exists>w'. Broker_refreshConnections call a p w = Inr w'"
    and "Broker_refreshConnections call a p w = Inr w' \<Longrightarrow> bounded (Suc n) w a p \<and> same_net w w'"
proof -
  define len where "len = length (conns w a)"
  have wired: "wired w" using w(1) by (simp add: settled_iff)
  have len: "1 \<le> len" using wired_live(1) [OF wired w(2)] by (cases "conns w a") (simp_all add: len_def)
  have later: "settled v \<and> live v a \<and> length (conns v a) = len" if "same_net w v" for v
    using that same_net_settled [OF that w(1)] w(2) wiring_live [of v w a] wiring_length [of v w a]
    by (simp add: same_net_def len_def)
  show "\<exists>w'. Broker_refreshConnections call a p w = Inr w'" if "bounded (Suc n) w a p"
  proof -
    have "\<exists>t. forEach [1..<len] (announced call a p) w = Inr t \<and> same_net w t"
    proof (rule forEach_total)
      fix i v assume i: "i \<in> set [1..<len]" and v: "same_net w v"
      have iv: "0 < i" "i < length (conns v a)" "i < length (conns w a)" using i later [OF v] by (auto simp: len_def)
      have "i = unat p \<or> port_bounded n v a i"
        using that iv bounded_ports [OF wired w(2)] port_bounded_same_net [OF v iv(3)] by blast
      then obtain v' where "announced call a p i v = Inr v'"
        using announced_step(1) [OF call _ _ iv(2,1)] later [OF v] by blast
      moreover from this have "same_net v v'"
        using announced_step(2) [OF call _ _ iv(2,1)] later [OF v] by blast
      ultimately show "\<exists>v'. announced call a p i v = Inr v' \<and> same_net w v'"
        using same_net_trans [OF v] by blast
    qed simp
    then show ?thesis by (auto simp: refreshConnections_announced len_def)
  qed
  show "bounded (Suc n) w a p \<and> same_net w w'" if "Broker_refreshConnections call a p w = Inr w'"
  proof -
    define P where "P k v \<longleftrightarrow> same_net w v \<and>
      (\<forall>i. 0 < i \<longrightarrow> i < k \<longrightarrow> i = unat p \<or> port_bounded n w a i)" for k v
    have "forEach [1..<len] (announced call a p) w = Inr w'"
      using that by (simp add: refreshConnections_announced len_def)
    then have "P len w'"
    proof (rule forEach_upto [OF _ len])
      show "P 1 w" by (simp add: P_def)
    next
      fix i x y assume i: "1 \<le> i" "i < len" and x: "P i x" and step: "announced call a p i x = Inr y"
      have wx: "same_net w x" using x by (simp add: P_def)
      have ix: "i < length (conns x a)" "0 < i" "i < length (conns w a)"
        using i later [OF wx] by (simp_all add: len_def)
      have "(i = unat p \<or> port_bounded n x a i) \<and> same_net x y"
        using announced_step(2) [OF call _ _ ix(1,2) step] later [OF wx] by blast
      then show "P (Suc i) y"
        using x same_net_trans [OF wx] port_bounded_same_net [OF wx ix(3)]
        by (auto simp: P_def less_Suc_eq)
    qed
    then show ?thesis using bounded_ports [OF wired w(2)] by (simp add: P_def len_def)
  qed
qed

lemma refresh_announces: "announces n (BrokerBase_refresh n)"
proof (induction n)
  case 0
  show ?case by (simp add: announces_def)
next
  case (Suc n)
  show ?case unfolding announces_def
  proof (intro allI impI)
    fix a w and d :: connection and p :: source
    assume w: "settled w" "live w a" and p: "p \<noteq> 0" "unat p < length (conns w a)"
      and source: "conn_source d = conn_source (conn w a (unat p))"
    define u where "u = set_conn a (unat p)
      (\<lambda>c. c\<lparr>conn_source := conn_source d, conn_version := conn_version d,
            conn_sources := conn_sources d\<rparr>) w"
    have net: "same_net w u"
      unfolding same_net_def u_def by (intro conjI wiring_set_conn_at) (simp_all add: ends_def source)
    then have wires: "wiring u = wiring w" by (simp add: same_net_def)
    have u: "settled u" "live u a" "bounded (Suc n) u a p = bounded (Suc n) w a p"
      using same_net_settled [OF net w(1)] wiring_live [OF wires, of a] w(2) bounded_wiring [OF wires]
      by blast+
    have run: "BrokerBase_refresh (Suc n) a d p w =
        andThen (Broker_refreshConnections (BrokerBase_refresh n) a p u) (\<lambda>w. Inr (True, w))"
      using p by (simp add: Broker_refresh_def u_def)
    show "(bounded (Suc n) w a p \<longrightarrow> (\<exists>ok w'. BrokerBase_refresh (Suc n) a d p w = Inr (ok, w'))) \<and>
        (\<forall>ok w'. BrokerBase_refresh (Suc n) a d p w = Inr (ok, w') \<longrightarrow>
           bounded (Suc n) w a p \<and> same_net w w' \<and> ok)"
      using refreshConnections_bounded [OF Suc.IH u(1,2), of p] u(3) same_net_trans [OF net]
      unfolding run by (auto simp: cashmere_errors simp del: bounded.simps)
  qed
qed

end
