(* ===== verification/Network.thy ===== *)
theory Network
  imports Routing Ledger
begin

text \<open>
  Networks of hubs and journals as a whole: the theorems on \<open>insert\<close>, \<open>append\<close> and \<open>query\<close>,
  and a small network on which each of them is applied.
\<close>

section \<open>The shared log\<close>

text \<open>The specification of a network in agreement: one clock and one set of entries, extended by
  every append.\<close>

definition log_append :: "data \<Rightarrow> clock \<times> (clock, data) omap \<Rightarrow> clock \<times> (clock, data) omap" where
  "log_append d = (\<lambda>(c, es). (Clock_tick c (data_id d), om_put (Clock_tick c (data_id d)) d es))"

definition appends :: "nat \<Rightarrow> (addr \<times> data) list \<Rightarrow> world \<Rightarrow> world outcome" where
  "appends n ops =
     forEach ops (\<lambda>(a, d) w. andThen (BrokerBase_append n a d w) (\<lambda>(_, w). Inr w))"

text \<open>The counters can be ticked \<open>m\<close> times, and no entry is ahead of the clock.\<close>

definition room :: "clock \<Rightarrow> nat \<Rightarrow> bool" where
  "room c m \<longleftrightarrow> m < 2 ^ 64 \<and> list_all (\<lambda>(_, t). unat t + m < 2 ^ 64) (entries c)"

definition covered :: "clock \<Rightarrow> (clock, data) omap \<Rightarrow> bool" where
  "covered c es \<longleftrightarrow> list_all (\<lambda>(k, _). Clock_merge k c = c) (entries es)"

lemma room_find: "room c m \<longleftrightarrow> m < 2 ^ 64 \<and> (\<forall>i t. om_find c i = Some t \<longrightarrow> unat t + m < 2 ^ 64)"
  by (auto simp: room_def list_all_iff om_find_iff)

lemma covered_find: "covered c es \<longleftrightarrow> (\<forall>k. om_find es k \<noteq> None \<longrightarrow> clock_le k c)"
proof -
  have "Clock_merge k c = c \<longleftrightarrow> clock_le k c" for k by (rule clock_le_merge_iff)
  then show ?thesis by (fastforce simp: covered_def list_all_iff om_find_iff simp del: not_None_eq)
qed

lemma unat_plus_room: "unat (t :: 64 word) + Suc m < 2 ^ 64 \<Longrightarrow> unat (t + 1) = Suc (unat t)"
  by (simp add: unat_word_ariths)

lemma room_tick:
  assumes "room c (Suc m)"
  shows "room (Clock_tick c i) m" and "clock_le c (Clock_tick c i)" and "c \<noteq> Clock_tick c i"
proof -
  have step: "unat (t + 1) = Suc (unat t)" if "om_find c i = Some t" for t
    using assms that by (intro unat_plus_room [of t m]) (auto simp: room_find)
  show "room (Clock_tick c i) m"
    unfolding room_find
  proof (intro conjI allI impI)
    show "m < 2 ^ 64" using assms by (simp add: room_find)
    fix j t assume j: "om_find (Clock_tick c i) j = Some t"
    have old: "om_find c k = Some u \<Longrightarrow> unat u + m < 2 ^ 64 - 1" for k u
      using assms by (auto simp: room_find)
    show "unat t + m < 2 ^ 64"
    proof (cases "j = i \<and> om_find c i \<noteq> None")
      case True
      then obtain u where "om_find c i = Some u" "t = u + 1" using j by (auto simp: find_tick)
      then show ?thesis using step old [of i u] by simp
    next
      case False
      then have "t = 1 \<or> om_find c j = Some t" using j by (auto simp: find_tick split: if_splits)
      then show ?thesis
      proof
        assume "t = 1"
        then show ?thesis using assms by (simp add: room_find)
      next
        assume "om_find c j = Some t"
        from old [OF this] show ?thesis by simp
      qed
    qed
  qed
  have grows: "om_find c i < om_find (Clock_tick c i) i"
    using step by (cases "om_find c i") (simp_all add: find_tick word_less_nat_alt)
  then show "clock_le c (Clock_tick c i)" by (auto simp: clock_le_def find_tick)
  show "c \<noteq> Clock_tick c i" using grows by auto
qed

lemma isNext_tick: "Clock_isNext (Clock_tick c i) c i"
  by (auto simp: find_tick Clock_isNext_def split: option.split)

lemma fresh_tick:
  assumes "room c (Suc m)" and "covered c es"
  shows "fresh_entry c es \<lparr>entry_clock = Clock_tick c (data_id d), entry_data = d\<rparr>"
proof -
  have "om_find es (Clock_tick c (data_id d)) = None"
    using assms(2) room_tick(2,3) [OF assms(1), of "data_id d"] clock_le_antisym
    by (auto simp: covered_find)
  then show ?thesis using room_tick [OF assms(1)] by (simp add: fresh_entry_def isNext_tick)
qed

lemma covered_append:
  assumes "room c (Suc m)" and "covered c es"
  shows "covered (fst (log_append d (c, es))) (snd (log_append d (c, es)))"
proof -
  have "clock_le k (Clock_tick c i)" if "clock_le k c" for k i
    using that room_tick(2) [OF assms(1), of i] by (rule clock_le_trans)
  then show ?thesis using assms(2) by (auto simp: log_append_def covered_find)
qed

lemma append_agree:
  assumes net: "wired w" "connected w" and agree: "agree c es w" and log: "room c (Suc m)" "covered c es"
    and a: "live w a" and enough: "bounded n w a 0"
  shows "\<exists>w'. BrokerBase_append n a d w = Inr (Clock_valid (Clock_tick c (data_id d)), w') \<and>
    wiring w' = wiring w \<and>
    agree (fst (log_append d (c, es))) (snd (log_append d (c, es))) w'"
proof -
  let ?e = "\<lparr>entry_clock = Clock_tick c (data_id d), entry_data = d\<rparr>"
  have clock: "Broker_clock w a = c" using agree a by (simp add: agree_live holds_def)
  obtain r w' where run: "BrokerBase_insert n a ?e 0 w = Inr (r, w')"
    using insert_total_bounded [OF enough] by blast
  have "r = entry_clock ?e \<and> wiring w' = wiring w \<and>
      agree (entry_clock ?e) (om_put (entry_clock ?e) (entry_data ?e) es) w'"
    by (rule insert_reaches [OF net(1) agree fresh_tick [OF log] a run net(2)])
  then show ?thesis using run by (simp add: BrokerBase_append_def clock log_append_def)
qed

lemma agree_entries:
  assumes "agree c es w" and "live w a" and "b_kind (broker_at w a) = Cache"
  shows "BrokerBase_entries w a = map (\<lambda>(c, d). \<lparr>entry_clock = c, entry_data = d\<rparr>) (entries es)"
  using assms by (simp add: agree_live holds_def BrokerBase_entries_def Journal_entries_def)

lemma appends_agree:
  assumes "wired w" and "connected w" and "agree c es w" and "room c (length ops)" and "covered c es"
    and "list_all (\<lambda>(a, d). live w a \<and> bounded n w a 0) ops"
  shows "\<exists>w'. appends n ops w = Inr w' \<and> wiring w' = wiring w \<and>
    agree (fst (fold (\<lambda>(_, d). log_append d) ops (c, es)))
      (snd (fold (\<lambda>(_, d). log_append d) ops (c, es))) w'"
  using assms
proof (induction ops arbitrary: w c es)
  case Nil
  then show ?case by (simp add: appends_def)
next
  case (Cons op ops)
  obtain a d where op: "op = (a, d)" by (cases op)
  obtain c1 es1 where log: "log_append d (c, es) = (c1, es1)" by fastforce
  have room: "room c (Suc (length ops))" using Cons.prems(4) by simp
  obtain w1 ok where w1: "BrokerBase_append n a d w = Inr (ok, w1)" "wiring w1 = wiring w"
      "agree c1 es1 w1"
    using append_agree [OF Cons.prems(1-3) room Cons.prems(5), of a n d] Cons.prems(6)
    by (auto simp: op log)
  have "room c1 (length ops)" "covered c1 es1"
    using room_tick(1) [OF room, of "data_id d"] covered_append [OF room Cons.prems(5), of d] log
    by (auto simp: log_append_def)
  moreover have "list_all (\<lambda>(a, d). live w1 a \<and> bounded n w1 a 0) ops"
    using Cons.prems(6) wiring_live [OF w1(2)] bounded_wiring [OF w1(2)]
    by (simp add: list_all_iff)
  ultimately obtain w' where "appends n ops w1 = Inr w'" "wiring w' = wiring w1"
    "agree (fst (fold (\<lambda>(_, d). log_append d) ops (c1, es1)))
      (snd (fold (\<lambda>(_, d). log_append d) ops (c1, es1))) w'"
    using Cons.IH [of w1 c1 es1] wiring_wired [of w w1] wiring_connected [of w w1] Cons.prems(1,2)
      w1(2,3) by auto
  then show ?case using w1(1,2) by (simp add: appends_def op log)
qed

section \<open>A small network\<close>

text \<open>A broker with its clock, the far ends of its connections and its entries, and the world of a
  list of brokers.\<close>

definition member ::
    "kind \<Rightarrow> ident \<Rightarrow> clock \<Rightarrow> (addr \<times> source) list \<Rightarrow> (clock, data) omap \<Rightarrow> broker" where
  "member k i c links es = no_broker\<lparr>b_kind := k, b_id := i,
     b_connections := Connection_none\<lparr>conn_version := c\<rparr> #
       map (\<lambda>(b, s). (Connection_to (Some b))\<lparr>conn_source := s\<rparr>) links,
     b_entries := es\<rparr>"

definition world_of :: "broker list \<Rightarrow> world" where
  "world_of bs = \<lparr>w_brokers = om_init (zip [0..<length bs] bs), w_store = om_empty,
     w_builders = om_empty, w_random = (\<lambda>_. 0), w_drawn = 0, w_files = om_empty\<rparr>"

text \<open>Two caches and the hub between them, agreeing on one entry.\<close>

definition trio_clock :: clock where
  "trio_clock = Clock_init [(1, 1)]"

definition trio_entries :: "(clock, data) omap" where
  "trio_entries = om_init [(trio_clock, Data_of 1 10 om_empty)]"

definition trio :: world where
  "trio = world_of
     [member Cache 1 trio_clock [(1, 1)] trio_entries,
      member Hub 3 trio_clock [(0, 1), (2, 1)] om_empty,
      member Cache 2 trio_clock [(1, 2)] trio_entries]"

lemmas sample_simps = member_def world_of_def trio_clock_def trio_entries_def trio_def
  no_broker_def live_def holds_def wired_def well_connected_def agree_def room_def covered_def
  upt_rec

lemma trio_wired: "wired trio"
  by (simp add: eval_simps sample_simps)

lemma trio_agree: "agree trio_clock trio_entries trio"
  by (simp add: eval_simps sample_simps)

lemma trio_log: "room trio_clock 2" "covered trio_clock trio_entries"
  by (simp_all add: eval_simps sample_simps)

lemma trio_live: "live trio a \<longleftrightarrow> a = 0 \<or> a = 1 \<or> a = 2"
  by (auto simp add: eval_simps sample_simps)

lemma trio_neighbours: "neighbours trio 0 = [1]" "neighbours trio 1 = [0, 2]" "neighbours trio 2 = [1]"
  by (simp_all add: eval_simps sample_simps neighbours_def)

lemma trio_connected: "connected trio"
proof -
  have "reachable trio a 1" if "live trio a" for a
    using that trio_neighbours reachable.step [OF reachable.here, of 1 trio a]
    by (auto simp: trio_live intro: reachable.here)
  moreover have "reachable trio 1 b \<Longrightarrow> reachable trio a 1 \<Longrightarrow> reachable trio a b" for a b
    by (induction rule: reachable.induct) (auto intro: reachable.step)
  moreover have "reachable trio 1 b" if "live trio b" for b
    using that trio_neighbours reachable.step [OF reachable.here, of b trio 1]
    by (auto simp: trio_live intro: reachable.here)
  ultimately show ?thesis by (simp add: connected_def)
qed

lemma trio_bounded: "bounded 3 trio 0 0" "bounded 3 trio 2 0"
  by (simp_all add: eval_simps sample_simps numeral_nat)

lemma trio_settled: "settled trio"
  using trio_wired
  by (simp add: settled_def) (simp add: eval_simps sample_simps registered_def named_back_def)

text \<open>Two entries of which the second follows the first, a journal on its own, a ring of caches and
  hubs with one and with two connections between them.\<close>

definition early_entry :: entry where
  "early_entry = Entry_of (Clock_init [(2, 1)]) 2 7 om_empty"

definition later_entry :: entry where
  "later_entry = Entry_of (Clock_init [(1, 1), (2, 1)]) 1 5 om_empty"

definition lone :: world where
  "lone = world_of [member Cache 9 om_empty [] om_empty]"

definition held :: "(clock \<times> world) outcome \<Rightarrow> entry list" where
  "held r = (case r of Inl _ \<Rightarrow> [] | Inr (_, w) \<Rightarrow> BrokerBase_entries w 0)"

definition ring :: world where
  "ring = world_of
     [member Cache 1 om_empty [(1, 2), (2, 1)] om_empty,
      member Cache 2 om_empty [(2, 2), (0, 1)] om_empty,
      member Cache 3 om_empty [(0, 2), (1, 1)] om_empty]"

definition hub_pair :: world where
  "hub_pair = world_of
     [member Hub 1 om_empty [(1, 1)] om_empty, member Hub 2 om_empty [(0, 1)] om_empty]"

definition hub_cycle :: world where
  "hub_cycle = world_of
     [member Hub 1 om_empty [(1, 1), (1, 2)] om_empty, member Hub 2 om_empty [(0, 1), (0, 2)] om_empty]"

lemma hub_cycle_conn:
  "a < 2 \<Longrightarrow> length (conns hub_cycle a) = 3"
  "a < 2 \<Longrightarrow> Connection_broker hub_cycle (conn hub_cycle a 1) = Some (1 - a)"
  "a < 2 \<Longrightarrow> Connection_broker hub_cycle (conn hub_cycle a 2) = Some (1 - a)"
  "a < 2 \<Longrightarrow> conn_source (conn hub_cycle a 1) = 1"
  "a < 2 \<Longrightarrow> conn_source (conn hub_cycle a 2) = 2"
  by (auto simp: less_2_cases_iff eval_simps sample_simps hub_cycle_def)

lemma hub_cycle_unbounded: "a < 2 \<Longrightarrow> p < 3 \<Longrightarrow> \<not> bounded n hub_cycle a p"
proof (induction n arbitrary: a p)
  case (Suc n)
  define i :: nat where "i = (if unat p = 1 then 2 else 1)"
  have i: "i < 3" "i \<noteq> unat p" "i = 1 \<or> i = 2" by (auto simp: i_def)
  moreover have "\<not> bounded n hub_cycle (1 - a) (conn_source (conn hub_cycle a i))"
    using Suc i(3) by (intro Suc.IH) (auto simp: hub_cycle_conn simp del: One_nat_def)
  moreover have "Connection_broker hub_cycle (conn hub_cycle a i) = Some (1 - a)"
    using Suc.prems(1) i(3) by (auto simp: hub_cycle_conn simp del: One_nat_def)
  ultimately show ?case using Suc.prems(1)
    by (fastforce simp: list_all_iff hub_cycle_conn(1) split: option.splits)
qed simp

section \<open>Theorems\<close>





text \<open>Whatever the network, an \<open>insert\<close> that returns changes no connection, no clock but by
  merging the entry's clock into it, and no cache but by adding the entry under a clock it did not
  hold.\<close>

theorem insert_effects:
  assumes "fronted w" and "BrokerBase_insert n a e s w = Inr (r, w')"
  shows "wiring w' = wiring w \<and>
    (Broker_clock w' b = Broker_clock w b \<or>
       Broker_clock w' b = Clock_merge (Broker_clock w b) (entry_clock e)) \<and>
    (let old = b_entries (broker_at w b); new = b_entries (broker_at w' b) in
       new = old \<or>
       om_find old (entry_clock e) = None \<and> new = om_put (entry_clock e) (entry_data e) old)"
  using clocks.insert [OF assms(2)] stored.insert [OF assms(2)] assms(1)
  by (simp add: clock_effect_def entries_effect_def)

theorem insert_effects_witness:
  "Broker_clock (snd (projr (BrokerBase_insert 3 0 (Entry_of (Clock_init [(1, 2)]) 1 5 om_empty) 0 trio))) 2
     \<in> {trio_clock, Clock_merge trio_clock (Clock_init [(1, 2)])}"
proof -
  have front: "fronted trio" using trio_wired wired_conn(1) [of trio _ 0] not_live_conns [of trio]
    unfolding fronted_def by (metis length_greater_0_conv not_None_eq)
  obtain r w' where run: "BrokerBase_insert 3 0 (Entry_of (Clock_init [(1, 2)]) 1 5 om_empty) 0 trio = Inr (r, w')"
    using insert_total_bounded [OF trio_bounded(1)] by blast
  have "Broker_clock trio 2 = trio_clock" by (simp add: eval_simps sample_simps)
  then show ?thesis using insert_effects [OF front run, of 2] run by simp
qed

text \<open>A journal refuses, unchanged, an entry whose counter is not beyond the one it has reached
  for that device: a second delivery has no effect.\<close>

theorem known_entry_refused:
  assumes "b_kind (broker_at w a) \<noteq> Hub"
    and "om_find (entry_clock e) (data_id (entry_data e)) = Some t"
    and "om_find (Broker_clock w a) (data_id (entry_data e)) = Some u" and "t \<le> u" and "u \<noteq> - 1"
  shows "BrokerBase_insert (Suc n) a e s w = Inr (refused, w)"
proof -
  have "1 + u \<noteq> 0" using assms(5) by (auto simp: add_eq_0_iff)
  then have "u < u + 1" using unatSuc [of u] by (simp add: word_less_nat_alt add.commute)
  then have "t \<noteq> u + 1" using assms(4) by auto
  then have "\<not> Clock_isNext (entry_clock e) (Broker_clock w a) (data_id (entry_data e))"
    using assms(2,3) by (simp add: Clock_isNext_def)
  then show ?thesis using assms(1) by (simp add: JournalBase_insert_def)
qed

theorem known_entry_refused_witness:
  "BrokerBase_insert 1 0 (Entry_of trio_clock 1 10 om_empty) 1 trio = Inr (refused, trio)"
  using known_entry_refused [of trio 0 "Entry_of trio_clock 1 10 om_empty" 1 1 0 1]
  by (simp add: eval_simps sample_simps)

text \<open>Counters jump with every merge, so a journal can refuse an entry it never had: given the
  entry of device 1 that follows an entry of device 2, it takes the first and refuses the second,
  although in the order of their making it takes both.\<close>

theorem late_entry_lost:
  "held (BrokerBase_insert_all 1 0 [early_entry, later_entry] 0 lone) = [later_entry, early_entry] \<and>
   held (BrokerBase_insert_all 1 0 [later_entry, early_entry] 0 lone) = [later_entry]"
  by (simp add: eval_simps sample_simps early_entry_def later_entry_def lone_def held_def)

text \<open>C16: Among caches every \<open>insert\<close> returns, on any topology, with a chain of calls no longer
  than the number of brokers.\<close>

theorem caches_always_return:
  assumes "all_caches w" and "live w a" and "om_size (w_brokers w) < n"
  shows "\<exists>r w'. BrokerBase_insert n a e s w = Inr (r, w')"
  using insert_total_caches [of w a e n] card_lacking [of "entry_clock e" w] assms by simp

theorem caches_always_return_witness:
  "\<exists>r w'. BrokerBase_insert 4 0 early_entry 0 ring = Inr (r, w')"
  using caches_always_return [of ring 0 4 early_entry 0]
  by (simp add: eval_simps sample_simps ring_def all_caches_def om_size_def)

text \<open>C18: Among hubs \<open>insert\<close> returns exactly when the walks from the broker that never turn back
  are bounded.\<close>

theorem hubs_return_iff:
  assumes "all_hubs w" and "wired w" and "live w a" and "unat s < length (conns w a)"
  shows "(\<exists>r w'. BrokerBase_insert n a e s w = Inr (r, w')) \<longleftrightarrow> bounded n w a s"
  using insert_total_bounded [of n w a s e] hubs_insert_bounded [OF assms(1) wired_ported assms(4)]
    assms(2) by blast

theorem hubs_return_iff_witness:
  "(\<exists>r w'. BrokerBase_insert 2 0 early_entry 0 hub_pair = Inr (r, w')) \<and>
   \<not> (\<exists>r w'. BrokerBase_insert 1 0 early_entry 0 hub_pair = Inr (r, w'))"
  using hubs_return_iff [of hub_pair 0 0 2 early_entry] hubs_return_iff [of hub_pair 0 0 1 early_entry]
  by (simp add: eval_simps sample_simps hub_pair_def all_hubs_def numeral_2_eq_2)

text \<open>Two hubs with two connections between them forward an entry to each other for ever.\<close>

theorem hub_cycle_never_returns:
  "BrokerBase_insert n 0 e 0 hub_cycle \<noteq> Inr (r, w)"
proof -
  have "all_hubs hub_cycle" "wired hub_cycle" "unat (0 :: source) < length (conns hub_cycle 0)"
    by (simp_all add: eval_simps sample_simps hub_cycle_def all_hubs_def)
  then show ?thesis using hubs_insert_bounded wired_ported hub_cycle_unbounded [of 0 0 n] by fastforce
qed

text \<open>C31: A journal answers \<open>query\<close> with exactly those of its entries that are not below the given
  clock, in the order in which it holds them.\<close>

theorem journal_query_spec:
  "JournalBase_query w a from_clock =
     filter (\<lambda>e. Clock_merge (entry_clock e) from_clock \<noteq> from_clock) (BrokerBase_entries w a)"
proof -
  have "Clock_concurrent c from_clock \<or> Clock_smallerThan from_clock c \<longleftrightarrow> \<not> clock_le c from_clock" for c
    using clock_le_antisym [of c from_clock] by (auto simp: Clock_concurrent_def smallerThan_iff)
  then show ?thesis by (simp add: JournalBase_query_def clock_le_merge_iff)
qed

text \<open>\<open>JournalBase::insert\<close> stores an entry before \<open>Broker::insert\<close> checks the port it came
  from: with a port out of range a journal that expects the entry keeps it and says that it was
  refused, and its clock stays behind.\<close>

theorem bad_port_stores:
  assumes "b_kind (broker_at w a) \<noteq> Hub" and "length (conns w a) \<le> unat s"
    and "Clock_isNext (entry_clock e) (Broker_clock w a) (data_id (entry_data e))"
  shows "BrokerBase_insert (Suc n) a e s w = Inr (refused, snd (BrokerBase_save a e w))"
proof -
  obtain ok v where sv: "BrokerBase_save a e w = (ok, v)" by fastforce
  moreover have "ok \<Longrightarrow> conns v a = conns w a" using conns_save [of a e w v a] sv by simp
  ultimately show ?thesis using assms by (simp add: JournalBase_insert_def Broker_insert_def)
qed

theorem bad_port_stores_witness:
  "BrokerBase_insert 1 0 early_entry 5 lone = Inr (refused, snd (BrokerBase_save 0 early_entry lone)) \<and>
   BrokerBase_entries (snd (BrokerBase_save 0 early_entry lone)) 0 = [early_entry]"
  using bad_port_stores [of lone 0 5 early_entry 0]
  by (simp add: eval_simps sample_simps early_entry_def lone_def)

text \<open>A journal at distance zero is served by the broker itself; otherwise \<open>relay\<close> passes the
  payload through the first of the ports with the smallest advertised distance, and refuses when
  no port but the sender's advertises the journal.\<close>

theorem relay_takes_nearest:
  "BrokerBase_relay (Suc n) a d sender w =
     (let d = (if b_kind (broker_at w a) \<noteq> Hub \<and> data_id d = 0
               then d\<lparr>data_id := b_id (broker_at w a)\<rparr> else d);
          rs = routes (data_id d) (advertised (BrokerBase_sources w a 0) sender) in
      if 0 \<in> fst ` set rs then BrokerBase_insert n a
          \<lparr>entry_clock = Clock_tick (Broker_clock w a) (data_id d), entry_data = d\<rparr> 0 w
      else if rs = [] then Inr (refused, w)
      else if length (conns w a) \<le> unat (snd (nearest rs)) then Inl Out_of_range
      else Connection_relay (BrokerBase_relay n) (conn w a (unat (snd (nearest rs)))) d w)"
  by (simp add: JournalBase_relay_def Broker_relay_routes Let_def)

text \<open>A broker tells a neighbour about a journal what the lowest port that knows the journal
  knows of it, one step farther.\<close>

theorem first_port_wins:
  "om_find (UpdateProvides provided) i =
     (case find (\<lambda>(_, infoMap). om_find infoMap i \<noteq> None) (entries provided) of
        None \<Rightarrow> None
      | Some (_, infoMap) \<Rightarrow> map_option farther (om_find infoMap i))"
  by (simp add: UpdateProvides_def find_absorb_all)

text \<open>The sources a broker advertises on a port are, port by port, what its live connections
  provide, except what it heard on that port; a journal adds itself at distance zero.\<close>

theorem sources_split_horizon:
  assumes "length (conns w a) \<le> 2 ^ 32"
  shows "om_find (BrokerBase_sources w a sender) p =
    (if p = 0 \<and> b_kind (broker_at w a) \<noteq> Hub
     then Some (om_init [(b_id (broker_at w a), \<lparr>info_distance = 0, info_clock = Broker_clock w a\<rparr>)])
     else if unat p < length (conns w a) \<and> \<not> (p \<noteq> 0 \<and> p = sender) \<and>
        Connection_valid w (conn w a (unat p)) \<and> conn_sources (conn w a (unat p)) \<noteq> om_empty
     then Some (conn_sources (conn w a (unat p))) else None)"
  using find_sources [OF assms, of sender p]
  by (simp add: BrokerBase_sources_def JournalBase_sources_def Let_def)

theorem sources_split_horizon_witness:
  "om_find (BrokerBase_sources trio 0 0) 0 =
     Some (om_init [(1, \<lparr>info_distance = 0, info_clock = trio_clock\<rparr>)])"
proof -
  have "length (conns trio 0) \<le> 2 ^ 32" "b_kind (broker_at trio 0) = Cache" "b_id (broker_at trio 0) = 1"
    "Broker_clock trio 0 = trio_clock"
    by (simp_all add: eval_simps sample_simps)
  then show ?thesis using sources_split_horizon [of trio 0 0 0] by simp
qed



text \<open>Between two brokers with two connections the announcements never end: no refresh through
  one of the connections returns.\<close>

theorem double_connection_never_refreshes:
  "BrokerBase_refresh n 0 ((Connection_to (Some 1))\<lparr>conn_source := 1\<rparr>) 1 hub_cycle \<noteq> Inr (ok, w)"
proof -
  have "wired hub_cycle" by (simp add: eval_simps sample_simps hub_cycle_def)
  then have "settled hub_cycle"
    by (simp add: settled_def) (simp add: eval_simps sample_simps registered_def named_back_def hub_cycle_def)
  moreover have "live hub_cycle 0" "unat (1 :: source) < length (conns hub_cycle 0)"
    "conn_source (conn hub_cycle 0 1) = 1" "conn_broker (conn hub_cycle 0 1) \<noteq> None"
    by (simp_all add: eval_simps sample_simps hub_cycle_def)
  ultimately have "BrokerBase_refresh n 0 ((Connection_to (Some 1))\<lparr>conn_source := 1\<rparr>) 1 hub_cycle = Inr (ok, w)
      \<Longrightarrow> bounded n hub_cycle 0 1"
    using refresh_announces [of n] unfolding announces_def
    by (metis (no_types, lifting) connection.select_convs(1) connection.surjective connection.update_convs(1)
        unat_1 zero_neq_one)
  then show ?thesis using hub_cycle_unbounded [of 0 1 n] by auto
qed

end
