(* ===== verification/Grpc.thy ===== *)
theory Grpc
  imports Network
begin

text \<open>
  Brokers in other processes: the messages of \<open>grpc/proto/proto/cashmere.proto\<close>, the conversions
  of \<open>grpc/utils/src/grpcutils.cpp\<close>, the client \<open>BrokerGrpcStub\<close> of \<open>grpc/plugins/src/grpc.cpp\<close>
  and the service \<open>GrpcRunner\<close> of \<open>grpc/runner/src/grpcrunner.cpp\<close>. The transport, which is the
  gRPC library, is an argument of each client operation: it takes a request and returns the
  response, or nothing when the status is not OK. A protobuf map is a map without order; since
  its keys are distinct the conversions do not depend on the order of their loops.
\<close>

section \<open>Messages\<close>

record Grpc_Data =
  g_id :: ident
  g_value :: amount
  g_alters :: clock

record Grpc_Entry =
  g_clock :: clock
  g_data :: Grpc_Data

record Grpc_ConnectionInfo =
  g_distance :: "32 word"
  g_info_clock :: clock

type_synonym Grpc_Infos = "(ident, Grpc_ConnectionInfo) omap"

record ConnectionRequest =
  creq_url :: string
  creq_source :: source
  creq_clock :: clock
  creq_sources :: Grpc_Infos

record ConnectionResponse =
  cres_source :: source
  cres_clock :: clock
  cres_sources :: Grpc_Infos

record InsertRequest =
  ireq_sender :: source
  ireq_entry :: Grpc_Entry

record QueryRequest =
  qreq_sender :: source
  qreq_clock :: clock

record RefreshRequest =
  rreq_sender :: source
  rreq_source :: source
  rreq_clock :: clock
  rreq_sources :: Grpc_Infos

record RelayInsertRequest =
  lreq_sender :: source
  lreq_entry :: Grpc_Data

section \<open>Conversions\<close>

definition ClockFrom :: "clock \<Rightarrow> clock" where
  "ClockFrom version = fold (\<lambda>(i, count) out. om_put i count out) (entries version) om_empty"

definition DataFrom :: "Grpc_Data \<Rightarrow> data" where
  "DataFrom d = \<lparr>data_id = g_id d, data_value = g_value d, data_alters = ClockFrom (g_alters d)\<rparr>"

definition EntryFrom :: "Grpc_Entry \<Rightarrow> entry" where
  "EntryFrom e = \<lparr>entry_clock = ClockFrom (g_clock e), entry_data = DataFrom (g_data e)\<rparr>"

definition IdConnectionInfoMapFrom :: "Grpc_Infos \<Rightarrow> provides" where
  "IdConnectionInfoMapFrom sources =
     fold (\<lambda>(i, info) out.
         om_put i \<lparr>info_distance = ucast (g_distance info), info_clock = ClockFrom (g_info_clock info)\<rparr> out)
       (entries sources) om_empty"

definition SourcesFrom :: "(source, Grpc_Infos) omap \<Rightarrow> sources_map" where
  "SourcesFrom sources =
     fold (\<lambda>(port, infoMap) out. om_put port (IdConnectionInfoMapFrom infoMap) out)
       (entries sources) om_empty"

definition SetClock :: "clock \<Rightarrow> clock \<Rightarrow> clock" where
  "SetClock version data = fold (\<lambda>(i, count) out. om_put i count out) (entries data) version"

definition SetData :: "data \<Rightarrow> Grpc_Data" where
  "SetData d = \<lparr>g_id = data_id d, g_value = data_value d, g_alters = SetClock om_empty (data_alters d)\<rparr>"

definition SetEntry :: "entry \<Rightarrow> Grpc_Entry" where
  "SetEntry e = \<lparr>g_clock = SetClock om_empty (entry_clock e), g_data = SetData (entry_data e)\<rparr>"

definition SetConnectionInfo :: "conn_info \<Rightarrow> Grpc_ConnectionInfo" where
  "SetConnectionInfo info =
     \<lparr>g_distance = scast (info_distance info), g_info_clock = SetClock om_empty (info_clock info)\<rparr>"

definition SetIdConnectionInfoMap :: "provides \<Rightarrow> Grpc_Infos" where
  "SetIdConnectionInfoMap data =
     fold (\<lambda>(i, info) out. om_put i (SetConnectionInfo info) out) (entries data) om_empty"

definition SetSources :: "sources_map \<Rightarrow> (source, Grpc_Infos) omap" where
  "SetSources sources =
     fold (\<lambda>(port, infoMap) out. om_put port (SetIdConnectionInfoMap infoMap) out)
       (entries sources) om_empty"

section \<open>The client\<close>

text \<open>A remote call: a request, the world of both processes, and the response when the status is
  OK.\<close>

type_synonym ('q, 'r) rpc = "'q \<Rightarrow> world \<Rightarrow> ('r option \<times> world) outcome"

text \<open>The address of the channel: host and port of the URL as the constructor read them.\<close>

definition BrokerGrpcStub_channel :: "broker \<Rightarrow> string" where
  "BrokerGrpcStub_channel b = b_hostname b @ '':'' @ show_nat 10 (unat (b_port b))"

text \<open>Three operations have no remote call.\<close>

definition Stub_versions :: "(ident, clock) omap" where
  "Stub_versions = om_empty"

definition Stub_connectedPorts :: "source list" where
  "Stub_connectedPorts = []"

definition Stub_disconnect :: "source \<Rightarrow> source" where
  "Stub_disconnect port = 0"

definition Stub_clock :: "(unit, clock) rpc \<Rightarrow> world \<Rightarrow> (clock \<times> world) outcome" where
  "Stub_clock rpc w =
     andThen (rpc () w) (\<lambda>(response, w).
       case response of Some c \<Rightarrow> Inr (ClockFrom c, w) | None \<Rightarrow> Inr (refused, w))"

definition Stub_sources ::
    "(source, (source, Grpc_Infos) omap) rpc \<Rightarrow> source \<Rightarrow> world \<Rightarrow> (sources_map \<times> world) outcome" where
  "Stub_sources rpc sender w =
     andThen (rpc sender w) (\<lambda>(response, w).
       case response of Some s \<Rightarrow> Inr (SourcesFrom s, w) | None \<Rightarrow> Inr (om_empty, w))"

definition Stub_insert ::
    "(InsertRequest, clock) rpc \<Rightarrow> entry \<Rightarrow> source \<Rightarrow> world \<Rightarrow> (clock \<times> world) outcome" where
  "Stub_insert rpc data sender w =
     andThen (rpc \<lparr>ireq_sender = sender, ireq_entry = SetEntry data\<rparr> w) (\<lambda>(response, w).
       case response of Some c \<Rightarrow> Inr (ClockFrom c, w) | None \<Rightarrow> Inr (om_empty, w))"

definition Stub_query ::
    "(QueryRequest, Grpc_Entry list) rpc \<Rightarrow> clock \<Rightarrow> source \<Rightarrow> world \<Rightarrow> (entry list \<times> world) outcome" where
  "Stub_query rpc from_clock sender w =
     andThen (rpc \<lparr>qreq_sender = sender, qreq_clock = SetClock om_empty from_clock\<rparr> w) (\<lambda>(response, w).
       case response of Some es \<Rightarrow> Inr (map EntryFrom es, w) | None \<Rightarrow> Inr ([], w))"

definition Stub_connect ::
    "(ConnectionRequest, ConnectionResponse) rpc \<Rightarrow> addr \<Rightarrow> connection \<Rightarrow> world \<Rightarrow> (connection \<times> world) outcome"
  where
  "Stub_connect rpc self c w =
     andThen (rpc \<lparr>creq_url = Connection_url w c, creq_source = conn_source c,
         creq_clock = SetClock om_empty (conn_version c),
         creq_sources = SetIdConnectionInfoMap (conn_sources c)\<rparr> w) (\<lambda>(response, w).
       case response of
         Some r \<Rightarrow>
           let (data, w) = BrokerBase_stub self w in
           Inr (data\<lparr>conn_source := cres_source r, conn_version := ClockFrom (cres_clock r)\<rparr>, w)
       | None \<Rightarrow> Inr (Connection_none, w))"

definition Stub_refresh ::
    "(RefreshRequest, unit) rpc \<Rightarrow> connection \<Rightarrow> source \<Rightarrow> world \<Rightarrow> (bool \<times> world) outcome" where
  "Stub_refresh rpc c sender w =
     andThen (rpc \<lparr>rreq_sender = sender, rreq_source = conn_source c,
         rreq_clock = SetClock om_empty (conn_version c),
         rreq_sources = SetIdConnectionInfoMap (conn_sources c)\<rparr> w) (\<lambda>(response, w).
       Inr (response \<noteq> None, w))"

definition Stub_relay ::
    "(RelayInsertRequest, clock) rpc \<Rightarrow> data \<Rightarrow> source \<Rightarrow> world \<Rightarrow> (clock \<times> world) outcome" where
  "Stub_relay rpc d sender w =
     andThen (rpc \<lparr>lreq_sender = sender, lreq_entry = SetData d\<rparr> w) (\<lambda>(response, w).
       case response of Some c \<Rightarrow> Inr (ClockFrom c, w) | None \<Rightarrow> Inr (refused, w))"

section \<open>The service\<close>

text \<open>The virtual method of the broker that a handler calls is an argument.\<close>

definition GrpcRunner_Connect :: "nat \<Rightarrow> addr \<Rightarrow> (ConnectionRequest, ConnectionResponse) rpc" where
  "GrpcRunner_Connect n a request w =
     (if \<not> b_stored (broker_at w a) then Inl Null_pointer
      else let (b, w) = BrokerStore_getOrCreate (creq_url request) w in
      if creq_source request = 0 then
        andThen (BrokerBase_connect n a (Connection_to b) w) (\<lambda>(c, w).
        Inr (Some \<lparr>cres_source = conn_source c, cres_clock = om_empty, cres_sources = om_empty\<rparr>, w))
      else
        andThen (BrokerBase_connect n a
            ((Connection_to b)\<lparr>conn_source := creq_source request,
               conn_version := ClockFrom (creq_clock request),
               conn_sources := IdConnectionInfoMapFrom (creq_sources request)\<rparr>) w) (\<lambda>(out, w).
        Inr (Some \<lparr>cres_source = conn_source out, cres_clock = SetClock om_empty (conn_version out),
               cres_sources = SetIdConnectionInfoMap (conn_sources out)\<rparr>, w)))"

definition GrpcRunner_Query :: "query_call \<Rightarrow> addr \<Rightarrow> (QueryRequest, Grpc_Entry list) rpc" where
  "GrpcRunner_Query call a request w =
     andThen (call w a (ClockFrom (qreq_clock request)) (qreq_sender request)) (\<lambda>list.
     Inr (Some (map SetEntry list), w))"

definition GrpcRunner_Insert :: "insert_call \<Rightarrow> addr \<Rightarrow> (InsertRequest, clock) rpc" where
  "GrpcRunner_Insert call a request w =
     andThen (call a (EntryFrom (ireq_entry request)) (ireq_sender request) w) (\<lambda>(clock, w).
     if Clock_valid clock then Inr (Some (SetClock om_empty (Broker_clock w a)), w)
     else Inr (None, w))"

definition GrpcRunner_Refresh :: "refresh_call \<Rightarrow> addr \<Rightarrow> (RefreshRequest, unit) rpc" where
  "GrpcRunner_Refresh call a request w =
     andThen (call a
         (Connection_none\<lparr>conn_source := rreq_source request,
            conn_version := ClockFrom (rreq_clock request),
            conn_sources := IdConnectionInfoMapFrom (rreq_sources request)\<rparr>) (rreq_sender request) w)
       (\<lambda>(_, w). Inr (Some (), w))"

definition GrpcRunner_Relay :: "relay_call \<Rightarrow> addr \<Rightarrow> (RelayInsertRequest, clock) rpc" where
  "GrpcRunner_Relay call a request w =
     andThen (call a (DataFrom (lreq_entry request)) (lreq_sender request) w) (\<lambda>(clock, w).
     Inr (Some (SetClock om_empty clock), w))"

definition GrpcRunner_Sources :: "addr \<Rightarrow> (source, (source, Grpc_Infos) omap) rpc" where
  "GrpcRunner_Sources a sender w = Inr (Some (SetSources (BrokerBase_sources w a sender)), w)"

definition GrpcRunner_GetClock :: "addr \<Rightarrow> (unit, clock) rpc" where
  "GrpcRunner_GetClock a request w = Inr (Some (SetClock om_empty (Broker_clock w a)), w)"

section \<open>Conversions are inverse\<close>

lemma fold_put_map:
  "fold (\<lambda>(k, v) out. om_put k (f v) out) (entries m) om_empty = om_map (\<lambda>_. f) m"
  using find_fold_put [of "entries m" "\<lambda>_. f" om_empty]
  by (intro om_eqI) (simp add: om_find_map om_find_def [of m] split: option.split)

lemma om_map_id: "om_map (\<lambda>_ v. v) m = m"
  by (intro om_eqI) (simp add: om_find_map option.map_ident)

lemma om_map_map: "om_map f (om_map g m) = om_map (\<lambda>k v. f k (g k v)) m"
  by (intro om_eqI) (simp add: om_find_map option.map_comp comp_def)

lemma ClockFrom_id [simp]: "ClockFrom c = c"
  using fold_put_map [of "\<lambda>v. v" c] by (simp add: ClockFrom_def om_map_id)

lemma SetClock_id [simp]: "SetClock om_empty c = c"
  using ClockFrom_id [of c] by (simp add: SetClock_def ClockFrom_def)

lemma DataFrom_SetData [simp]: "DataFrom (SetData d) = d"
  by (simp add: DataFrom_def SetData_def)

lemma EntryFrom_SetEntry [simp]: "EntryFrom (SetEntry e) = e"
  by (simp add: EntryFrom_def SetEntry_def)

lemma distance_back: "(ucast (scast (x :: 16 word) :: 32 word) :: 16 word) = x"
  by (rule bit_word_eqI) (simp add: bit_simps)

lemma info_eta: "\<lparr>info_distance = info_distance v, info_clock = info_clock v\<rparr> = v"
  by (cases v) simp

lemma InfosFrom_SetInfos [simp]: "IdConnectionInfoMapFrom (SetIdConnectionInfoMap m) = m"
  by (simp add: IdConnectionInfoMapFrom_def SetIdConnectionInfoMap_def fold_put_map om_map_map
      SetConnectionInfo_def distance_back info_eta om_map_id)

lemma SourcesFrom_SetSources [simp]: "SourcesFrom (SetSources s) = s"
  by (simp add: SourcesFrom_def SetSources_def fold_put_map om_map_map om_map_id)

section \<open>Client and service together\<close>

lemma insert_result: "BrokerBase_insert n a e s w = Inr (c, w') \<Longrightarrow> c = refused \<or> c = Broker_clock w' a"
  by (cases n) (auto simp: Broker_insert_def JournalBase_insert_def Let_def cashmere_errors
      split: if_splits prod.splits)

lemma Stub_insert_Runner:
  "Stub_insert (GrpcRunner_Insert (BrokerBase_insert n) a) e s w =
     andThen (BrokerBase_insert n a e s w) (\<lambda>(c, w).
       Inr (if Clock_valid c then c else om_empty, w))"
  using insert_result [of n a e s w]
  by (cases "BrokerBase_insert n a e s w")
    (auto simp: Stub_insert_def GrpcRunner_Insert_def split: prod.splits)

lemma refresh_ignores_broker:
  "BrokerBase_refresh n a (d\<lparr>conn_broker := b\<rparr>) s w = BrokerBase_refresh n a d s w"
  by (cases n) (simp_all add: Broker_refresh_def)

lemma Stub_relay_Runner: "Stub_relay (GrpcRunner_Relay (BrokerBase_relay n) a) d s w = BrokerBase_relay n a d s w"
  by (cases "BrokerBase_relay n a d s w")
    (auto simp: Stub_relay_def GrpcRunner_Relay_def split: prod.split)

section \<open>Theorems\<close>

text \<open>The conversions to messages and back are the identity on entries, on the information about
  journals and on sources: the 16-bit distance survives its 32-bit field.\<close>

theorem grpc_conversions:
  "EntryFrom (SetEntry e) = e \<and> IdConnectionInfoMapFrom (SetIdConnectionInfoMap m) = m \<and>
   SourcesFrom (SetSources s) = s"
  by simp

text \<open>Over a transport that delivers every request, the remote broker answers \<open>query\<close>, \<open>relay\<close>,
  \<open>sources\<close> and \<open>clock\<close> as the local one does.\<close>

theorem grpc_transparent:
  "Stub_query (GrpcRunner_Query (BrokerBase_query n) a) from_clock s w =
     andThen (BrokerBase_query n w a from_clock s) (\<lambda>list. Inr (list, w)) \<and>
   Stub_relay (GrpcRunner_Relay (BrokerBase_relay n) a) d s w = BrokerBase_relay n a d s w \<and>
   Stub_sources (GrpcRunner_Sources a) s w = Inr (BrokerBase_sources w a s, w) \<and>
   Stub_clock (GrpcRunner_GetClock a) w = Inr (Broker_clock w a, w)"
proof (intro conjI)
  show "Stub_query (GrpcRunner_Query (BrokerBase_query n) a) from_clock s w =
     andThen (BrokerBase_query n w a from_clock s) (\<lambda>list. Inr (list, w))"
    by (cases "BrokerBase_query n w a from_clock s")
      (simp_all add: Stub_query_def GrpcRunner_Query_def comp_def)
qed (simp_all add: Stub_relay_Runner Stub_sources_def GrpcRunner_Sources_def Stub_clock_def GrpcRunner_GetClock_def)

text \<open>A remote refusal of an entry arrives as the empty clock, which is valid: the connection
  forgets the version it knew of the peer and marks the entry as known by every journal behind
  it. A local peer's refusal leaves the connection alone.\<close>

theorem remote_refusal_taken_for_success:
  assumes "Connection_broker w (conn w a i) = Some b"
    and "BrokerBase_insert n b e (conn_source (conn w a i)) w = Inr (refused, w')"
  shows "Connection_insert (\<lambda>b. Stub_insert (GrpcRunner_Insert (BrokerBase_insert n) b)) a i e w =
      Inr (om_empty, set_conn a i (\<lambda>c. c\<lparr>conn_sources := learn (entry_clock e) (conn_sources c),
                                       conn_version := om_empty\<rparr>) w') \<and>
    Connection_insert (BrokerBase_insert n) a i e w = Inr (om_empty, w')"
  using assms by (simp add: Connection_insert_def Stub_insert_Runner) (simp add: Clock_valid_def)

theorem remote_refusal_taken_for_success_witness:
  "\<exists>w'. Connection_insert (\<lambda>b. Stub_insert (GrpcRunner_Insert (BrokerBase_insert 2) b)) 1 1
       (Entry_of trio_clock 1 10 om_empty) trio = Inr (om_empty, w')"
proof -
  have "Connection_broker trio (conn trio 1 1) = Some 0" "conn_source (conn trio 1 1) = 1"
    "BrokerBase_insert 2 0 (Entry_of trio_clock 1 10 om_empty) 1 trio = Inr (refused, trio)"
    by (simp_all add: eval_simps sample_simps numeral_2_eq_2)
  then show ?thesis
    using remote_refusal_taken_for_success [of trio 1 1 0 2 "Entry_of trio_clock 1 10 om_empty" trio]
    by auto
qed

text \<open>\<open>BrokerGrpcStub::connect\<close> drops the sources of the response: whatever the peer provides,
  the new connection provides nothing until the peer refreshes it.\<close>

theorem grpc_connect_drops_sources:
  "case Stub_connect rpc self c w of
     Inl e \<Rightarrow> True
   | Inr (out, w') \<Rightarrow> conn_sources out = om_empty"
  by (auto simp: Stub_connect_def andThen_def BrokerBase_stub_def Connection_to_def Connection_none_def
      split: sum.splits prod.splits option.splits if_splits)

text \<open>A delivered \<open>refresh\<close> has the effect of a local one, but reports success even when the
  broker refused it.\<close>

theorem grpc_refresh_reports_success:
  "Stub_refresh (GrpcRunner_Refresh (BrokerBase_refresh n) a) d s w =
     andThen (BrokerBase_refresh n a d s w) (\<lambda>(_, w). Inr (True, w))"
proof -
  have "(Connection_none\<lparr>conn_source := conn_source d, conn_version := conn_version d,
      conn_sources := conn_sources d\<rparr>) = d\<lparr>conn_broker := None\<rparr>"
    by (simp add: Connection_none_def)
  then show ?thesis
    by (cases "BrokerBase_refresh n a d s w")
      (auto simp: Stub_refresh_def GrpcRunner_Refresh_def refresh_ignores_broker split: prod.split)
qed

end
