(* ===== verification/Cli.thy ===== *)
theory Cli
  imports Entry
begin

text \<open>
  The command line: \<open>src/cli/command.cpp\<close> (the commands of the prompt) and \<open>src/cli/options.cpp\<close> (the
  options of the program). \<open>getopt\<close> is a library
  call: the options are read from the list of option characters and arguments it yields and the
  operands it leaves.
\<close>

section \<open>Words and integers from text\<close>

text \<open>Extraction of a string: white space is skipped and the characters up to the next white space
  are taken.\<close>

definition extract_word :: "string \<Rightarrow> istream \<Rightarrow> string \<times> istream" where
  "extract_word old s =
     (if \<not> good s then (old, s\<lparr>failbit := True\<rparr>)
      else let t = dropWhile is_space (rest s) in
        if t = [] then (old, \<lparr>rest = [], eofbit = True, failbit = True\<rparr>)
        else let r = dropWhile (\<lambda>c. \<not> is_space c) t in
          (takeWhile (\<lambda>c. \<not> is_space c) t, \<lparr>rest = r, eofbit = (r = []), failbit = False\<rparr>))"

text \<open>\<open>std::stoi\<close> with its two exceptions, converted to an unsigned number.\<close>

definition stoi :: "string \<Rightarrow> source outcome" where
  "stoi s =
     (let (neg, u) = scan_sign (dropWhile is_space s); ds = fst (scan_digits 10 u);
          v = (if neg then - int (digits_value 10 ds) else int (digits_value 10 ds)) in
      if ds = [] then Inl Invalid_argument
      else if - (2 ^ 31) \<le> v \<and> v < 2 ^ 31 then Inr (of_int v) else Inl Out_of_range)"

section \<open>Commands\<close>

datatype command_type =
  Invalid | Connect | Disconnect | Append | Relay | Sources | Versions | ListCommands | Quit

record command =
  cmd_type :: command_type
  cmd_url :: string
  cmd_source :: source
  cmd_data :: data
  cmd_name :: string

definition no_command :: command where
  "no_command =
     \<lparr>cmd_type = Invalid, cmd_url = [], cmd_source = 0, cmd_data = no_data, cmd_name = []\<rparr>"

definition kNameTypeMap :: "(string \<times> command_type) list" where
  "kNameTypeMap =
     [(''connect'', Connect), (''disconnect'', Disconnect), (''add'', Append), (''relay'', Relay),
      (''sources'', Sources), (''list'', ListCommands), (''quit'', Quit)]"

definition kTypeNameMap :: "(command_type \<times> string) list" where
  "kTypeNameMap =
     [(Invalid, ''<unknown>''), (Connect, ''connect''), (Disconnect, ''disconnect''), (Append, ''add''),
      (Relay, ''relay''), (Sources, ''sources''), (ListCommands, ''list''), (Quit, ''quit'')]"

definition ReadValueAndOptionalClock :: "istream \<Rightarrow> data \<Rightarrow> bool \<times> data \<times> istream" where
  "ReadValueAndOptionalClock s d =
     (let (v, s) = extract_signed (data_value d) s; d = d\<lparr>data_value := v\<rparr> in
      if failbit s then (False, d, s)
      else let (_, s) = ReadSpaces s; (c, s) = peek s in
      if c = Some CHR ''\<newline>'' \<or> eofbit s then (True, d, s)
      else let (ok, alters, s) = Clock_Read s (data_alters d) in (ok, d\<lparr>data_alters := alters\<rparr>, s))"

definition ReadData :: "istream \<Rightarrow> data \<Rightarrow> bool \<times> data \<times> istream" where
  "ReadData s d =
     (let (i, s) = extract_hex (data_id d) s; d = d\<lparr>data_id := i\<rparr> in
      if failbit s then (False, d, s) else ReadValueAndOptionalClock s d)"

definition Command_Read :: "istream \<Rightarrow> command outcome" where
  "Command_Read s =
     (let (name, s) = extract_word [] s; command = no_command\<lparr>cmd_name := name\<rparr> in
      case map_of kNameTypeMap name of
        None \<Rightarrow> Inr command
      | Some t \<Rightarrow>
          let command = command\<lparr>cmd_type := t\<rparr> in
          (case t of
             Connect \<Rightarrow> let (u, s) = extract_word [] s in Inr (command\<lparr>cmd_url := u\<rparr>)
           | Relay \<Rightarrow> let (ok, d, s) = ReadData s no_data in
               Inr (command\<lparr>cmd_data := d, cmd_type := if ok then Relay else Invalid\<rparr>)
           | Append \<Rightarrow> let (ok, d, s) = ReadValueAndOptionalClock s no_data in
               Inr (command\<lparr>cmd_data := d, cmd_type := if ok then Append else Invalid\<rparr>)
           | Disconnect \<Rightarrow> let (argument, s) = extract_word [] s in
               andThen (stoi argument) (\<lambda>port. Inr (command\<lparr>cmd_source := port\<rparr>))
           | _ \<Rightarrow> Inr command))"

definition Command_ok :: "command \<Rightarrow> bool" where
  "Command_ok c \<longleftrightarrow> cmd_type c \<noteq> Invalid"

section \<open>Options\<close>

datatype status =
  Ok | InvalidArgument | InvalidOptionArgument | MissingCommand | MissingCommandArgument | MissingOption

record options =
  opt_id :: ident
  opt_source :: source
  opt_hostname :: string
  opt_service :: bool
  opt_dbPath :: string
  opt_command :: command
  opt_status :: status
  opt_option :: char
  opt_argument :: string

definition no_options :: options where
  "no_options =
     \<lparr>opt_id = 0, opt_source = 54321, opt_hostname = ''0.0.0.0'', opt_service = False,
      opt_dbPath = [], opt_command = no_command, opt_status = Ok, opt_option = CHR 0x00,
      opt_argument = []\<rparr>"

definition Options_step :: "char \<Rightarrow> string \<Rightarrow> options \<Rightarrow> options" where
  "Options_step opt optarg st =
     (if opt = CHR ''i'' then
        let (i, s) = extract_hex (opt_id st) (input optarg) in
        st\<lparr>opt_id := i, opt_status := if failbit s then InvalidOptionArgument else opt_status st\<rparr>
      else if opt = CHR ''d'' then st\<lparr>opt_dbPath := optarg\<rparr>
      else if opt = CHR ''p'' then
        (case stoi optarg of
           Inr port \<Rightarrow> st\<lparr>opt_source := port\<rparr>
         | Inl _ \<Rightarrow> st\<lparr>opt_status := InvalidOptionArgument\<rparr>)
      else if opt = CHR ''h'' then st\<lparr>opt_hostname := optarg\<rparr>
      else if opt = CHR ''s'' then st\<lparr>opt_service := True\<rparr>
      else st)"

text \<open>The loop and the option it stopped at.\<close>

fun Options_loop :: "(char \<times> string) list \<Rightarrow> options \<Rightarrow> options" where
  "Options_loop [] st = st"
| "Options_loop ((opt, optarg) # more_opts) st =
     (let st = Options_step opt optarg st in
      if opt_status st = Ok then Options_loop more_opts st
      else st\<lparr>opt_option := opt, opt_argument := optarg\<rparr>)"

definition Options_read :: "(char \<times> string) list \<Rightarrow> string list \<Rightarrow> options outcome" where
  "Options_read opts operands =
     (let st = Options_loop opts no_options in
      if opt_status st \<noteq> Ok then Inr st
      else if operands \<noteq> [] then
        andThen (Command_Read (input (concat (map (\<lambda>a. a @ '' '') operands)))) (\<lambda>c.
        Inr (st\<lparr>opt_command := c\<rparr>))
      else if \<not> opt_service st then Inr (st\<lparr>opt_status := MissingCommand\<rparr>)
      else Inr st)"

definition Command_eq :: "command \<Rightarrow> command \<Rightarrow> bool" where
  "Command_eq a b \<longleftrightarrow> cmd_type a = cmd_type b \<and> cmd_data a = cmd_data b"

definition Options_ok :: "options \<Rightarrow> bool" where
  "Options_ok st \<longleftrightarrow> opt_status st = Ok"

definition Options_eq :: "options \<Rightarrow> options \<Rightarrow> bool" where
  "Options_eq a b \<longleftrightarrow> opt_id a = opt_id b \<and> opt_source a = opt_source b \<and>
     opt_hostname a = opt_hostname b \<and> opt_service a = opt_service b \<and>
     Command_eq (opt_command a) (opt_command b)"

definition Options_Error_eq :: "options \<Rightarrow> options \<Rightarrow> bool" where
  "Options_Error_eq a b \<longleftrightarrow> opt_status a = opt_status b \<and> opt_option a = opt_option b \<and>
     opt_argument a = opt_argument b"

definition status_number :: "status \<Rightarrow> nat" where
  "status_number st = (case st of Ok \<Rightarrow> 0 | InvalidArgument \<Rightarrow> 1 | InvalidOptionArgument \<Rightarrow> 2
     | MissingCommand \<Rightarrow> 3 | MissingCommandArgument \<Rightarrow> 4 | MissingOption \<Rightarrow> 5)"

definition Options_Error_str :: "options \<Rightarrow> string" where
  "Options_Error_str st =
     ''Options::Error{'' @ ''status = '' @ show_nat 10 (status_number (opt_status st)) @ '', option = '' @
     [opt_option st] @ '', optionArgument = '' @ opt_argument st @ ''}'' @ [CHR ''\<newline>''] @ ''}''"

section \<open>Reading what was written\<close>

text \<open>The commands as a user types them.\<close>

definition add_line :: "amount \<Rightarrow> clock \<Rightarrow> string" where
  "add_line v c = ''add '' @ show_signed v @ '' '' @ Clock_str c"

definition relay_line :: "ident \<Rightarrow> amount \<Rightarrow> clock \<Rightarrow> string" where
  "relay_line i v c = ''relay '' @ show_hex i @ '' '' @ show_signed v @ '' '' @ Clock_str c"

lemma Clock_str_Cons: "\<exists>cs. Clock_str c = CHR ''{'' # cs"
  by (simp add: Clock_str_def split: list.split)

lemma extract_word_known:
  assumes "list_all (\<lambda>c. \<not> is_space c) u" and "u \<noteq> []" and "is_space d"
  shows "extract_word old (input (u @ d # r)) = (u, input (d # r))"
proof -
  have "dropWhile is_space (u @ d # r) = u @ d # r" using assms(1,2) by (cases u) simp_all
  moreover have "takeWhile (\<lambda>c. \<not> is_space c) (u @ d # r) = u"
    "dropWhile (\<lambda>c. \<not> is_space c) (u @ d # r) = d # r"
    using assms(1,3) by (induction u) simp_all
  ultimately show ?thesis by (simp add: extract_word_def)
qed

lemma read_value_and_clock:
  assumes "data_alters d = om_empty"
  shows "ReadValueAndOptionalClock (input (CHR '' '' # show_signed v @ CHR '' '' # Clock_str c)) d =
     (True, d\<lparr>data_value := v, data_alters := c\<rparr>, input [])"
proof -
  obtain cs where cs: "Clock_str c = CHR ''{'' # cs" using Clock_str_Cons by blast
  have spaces: "snd (ReadSpaces (input (CHR '' '' # Clock_str c))) = input (Clock_str c)"
    by (simp add: ReadSpaces_space) (simp add: cs ReadSpaces_input)
  have read: "Clock_Read (input (Clock_str c)) om_empty = (True, c, input [])"
    using Clock_Read_str [of c "[]" om_empty] by simp
  have value_end: "extract_signed old (input (CHR '' '' # show_signed v @ CHR '' '' # Clock_str c)) =
      (v, input (CHR '' '' # Clock_str c))" for old
    by (simp add: extract_space extract_signed_show)
  obtain b s where bs: "ReadSpaces (input (CHR '' '' # Clock_str c)) = (b, s)" by fastforce
  then have s: "s = input (Clock_str c)" using spaces by simp
  have "peek (input (Clock_str c)) = (Some CHR ''{'', input (Clock_str c))"
    by (simp add: cs peek_input)
  then show ?thesis
    by (simp add: ReadValueAndOptionalClock_def value_end bs s assms read)
qed

lemma Command_Read_fails:
  "Command_Read s = Inl f \<longleftrightarrow>
     (case extract_word [] s of (name, r) \<Rightarrow> name = ''disconnect'' \<and> stoi (fst (extract_word [] r)) = Inl f)"
  by (cases "extract_word [] s")
    (auto simp: Command_Read_def kNameTypeMap_def no_command_def cashmere_errors split: prod.split)

lemma Command_Read_named:
  assumes "list_all (\<lambda>c. \<not> is_space c) u" and "u \<noteq> []"
  shows "extract_word [] (input (u @ CHR '' '' # r)) = (u, input (CHR '' '' # r))"
  using extract_word_known [OF assms, of "CHR '' ''" "[]" r] by (simp add: is_space_def)

lemma Command_Read_add:
  "Command_Read (input (add_line v c)) =
     Inr (no_command\<lparr>cmd_type := Append, cmd_name := ''add'', cmd_data := Data_of 0 v c\<rparr>)"
proof -
  have word: "extract_word [] (input (add_line v c)) =
      (''add'', input (CHR '' '' # show_signed v @ CHR '' '' # Clock_str c))"
    using Command_Read_named [of "''add''" "show_signed v @ CHR '' '' # Clock_str c"]
    by (simp add: add_line_def is_space_def)
  then show ?thesis
    by (simp add: Command_Read_def word kNameTypeMap_def read_value_and_clock no_command_def no_data_def)
qed

section \<open>Theorems\<close>

text \<open>C33: The commands \<open>add\<close> and \<open>relay\<close> read back the amount, the clock and the device that were
  typed.\<close>

theorem command_text_roundtrip:
  "Command_Read (input (add_line v c)) =
     Inr (no_command\<lparr>cmd_type := Append, cmd_name := ''add'',
       cmd_data := Data_of 0 v c\<rparr>) \<and>
   Command_Read (input (relay_line i v c)) =
     Inr (no_command\<lparr>cmd_type := Relay, cmd_name := ''relay'',
       cmd_data := Data_of i v c\<rparr>)"
proof (intro conjI Command_Read_add)
  have relay: "extract_word [] (input (relay_line i v c)) =
      (''relay'', input (CHR '' '' # show_hex i @ CHR '' '' # show_signed v @ CHR '' '' # Clock_str c))"
    using Command_Read_named [of "''relay''" "show_hex i @ CHR '' '' # show_signed v @ CHR '' '' # Clock_str c"]
    by (simp add: relay_line_def is_space_def)
  have "ReadData (input (CHR '' '' # show_hex i @ CHR '' '' # show_signed v @ CHR '' '' # Clock_str c)) no_data =
      (True, Data_of i v c, input [])"
  proof -
    have "ReadValueAndOptionalClock (input (CHR '' '' # show_signed v @ CHR '' '' # Clock_str c))
        (no_data\<lparr>data_id := i\<rparr>) = (True, Data_of i v c, input [])"
      by (subst read_value_and_clock) (simp_all add: no_data_def)
    then show ?thesis by (simp add: ReadData_def extract_space extract_hex_show)
  qed
  then show "Command_Read (input (relay_line i v c)) =
     Inr (no_command\<lparr>cmd_type := Relay, cmd_name := ''relay'', cmd_data := Data_of i v c\<rparr>)"
    by (simp add: Command_Read_def relay kNameTypeMap_def no_command_def)
qed

text \<open>The two tables of command names are inverse to each other, and neither knows the command that
  prints the versions: no text reads as it.\<close>

theorem versions_cannot_be_typed:
  "(map_of kNameTypeMap name = Some t \<longleftrightarrow> map_of kTypeNameMap t = Some name \<and> t \<noteq> Invalid) \<and>
   (case Command_Read s of Inl f \<Rightarrow> f \<in> {Invalid_argument, Out_of_range} | Inr c \<Rightarrow> cmd_type c \<noteq> Versions)"
proof
  show "map_of kNameTypeMap name = Some t \<longleftrightarrow> map_of kTypeNameMap t = Some name \<and> t \<noteq> Invalid"
    by (cases t) (auto simp: kNameTypeMap_def kTypeNameMap_def)
  have known: "map_of kNameTypeMap u \<noteq> Some Versions" for u
    by (auto simp: kNameTypeMap_def)
  obtain u r where u: "extract_word [] s = (u, r)" by fastforce
  have number: "stoi v = Inl f \<Longrightarrow> f \<in> {Invalid_argument, Out_of_range}" for v f
    by (auto simp: stoi_def Let_def split: prod.splits if_splits)
  show "case Command_Read s of Inl f \<Rightarrow> f \<in> {Invalid_argument, Out_of_range} | Inr c \<Rightarrow> cmd_type c \<noteq> Versions"
  proof (cases "map_of kNameTypeMap u")
    case None
    then show ?thesis by (simp add: Command_Read_def u no_command_def)
  next
    case (Some t)
    then show ?thesis using known [of u] number
      by (cases t) (auto simp: Command_Read_def u no_command_def andThen_def split: prod.splits sum.splits)
  qed
qed

text \<open>An option argument that is not a number stops the reading of the options there: the error
  names the option and its argument, and what follows is ignored.\<close>

theorem bad_option_argument_reported:
  assumes "opt = CHR ''i'' \<and> failbit (snd (extract_hex 0 (input optarg))) \<or>
           opt = CHR ''p'' \<and> stoi optarg \<in> range Inl"
  shows "\<exists>st. Options_read ((opt, optarg) # more_opts) operands = Inr st \<and>
    opt_status st = InvalidOptionArgument \<and> opt_option st = opt \<and> opt_argument st = optarg \<and>
    opt_command st = no_command"
proof -
  have "opt_status (Options_step opt optarg no_options) = InvalidOptionArgument \<and>
      opt_command (Options_step opt optarg no_options) = no_command"
    using assms
  proof
    assume "opt = CHR ''i'' \<and> failbit (snd (extract_hex 0 (input optarg)))"
    then show ?thesis by (simp add: Options_step_def no_options_def split_def)
  next
    assume p: "opt = CHR ''p'' \<and> stoi optarg \<in> range Inl"
    then obtain f where "stoi optarg = Inl f" by blast
    with p show ?thesis by (simp add: Options_step_def no_options_def)
  qed
  then show ?thesis by (simp add: Options_read_def Let_def)
qed

theorem bad_option_argument_reported_witness:
  "\<exists>st. Options_read [(CHR ''p'', ''http''), (CHR ''s'', [])] [] = Inr st \<and>
     opt_status st = InvalidOptionArgument \<and> opt_option st = CHR ''p''"
proof -
  have "stoi ''http'' = Inl Invalid_argument"
    by (simp add: stoi_def is_space_def digit_in_def digit_value_def)
  then show ?thesis
    using bad_option_argument_reported [of "CHR ''p''" "''http''" "[(CHR ''s'', [])]" "[]"] by auto
qed

end
