(* ===== verification/Printing.thy ===== *)
theory Printing
  imports Hub
begin

text \<open>
  The output operators of connections and of the maps they carry
  (\<open>cashmere/crdt/src/connectioninfo.cpp\<close>, the same operators again in
  \<open>cashmere/src/brokerbase.cpp\<close>), of URLs (\<open>cashmere/utils/src/urlutils.cpp\<close>), and the equality of
  connections. Streams print numbers in decimal unless the operator asks for hexadecimal.
\<close>

definition show_distance :: "distance \<Rightarrow> string" where
  "show_distance d =
     (if sint d < 0 then CHR ''-'' # show_nat 10 (nat (- sint d)) else show_nat 10 (nat (sint d)))"

definition show_source :: "source \<Rightarrow> string" where
  "show_source p = show_nat 10 (unat p)"

definition ConnectionInfo_str :: "conn_info \<Rightarrow> string" where
  "ConnectionInfo_str info =
     ''ConnectionInfo{ .distance = '' @ show_distance (info_distance info) @
     '', .version = '' @ Clock_str (info_clock info) @ ''}''"

text \<open>The loop the three operators share: the first item, then the others after a comma.\<close>

definition show_items :: "('k::linorder \<Rightarrow> 'v \<Rightarrow> string) \<Rightarrow> ('k, 'v) omap \<Rightarrow> string" where
  "show_items item m =
     (case entries m of
        [] \<Rightarrow> []
      | (k, v) # xs \<Rightarrow> item k v @ concat (map (\<lambda>(k, v). '', '' @ item k v) xs))"

definition IdConnectionInfoMap_str :: "provides \<Rightarrow> string" where
  "IdConnectionInfoMap_str m =
     ''IdConnectionInfoMap{'' @
     show_items (\<lambda>i info. ''{'' @ show_hex i @ '', '' @ ConnectionInfo_str info @ ''}'') m @ ''}''"

definition SourcesMap_str :: "sources_map \<Rightarrow> string" where
  "SourcesMap_str m =
     ''SourcesMap{'' @
     show_items (\<lambda>p infos. ''{'' @ show_source p @ '', '' @ IdConnectionInfoMap_str infos @ ''}'') m @ ''}''"

definition IdClockMap_str :: "(ident, clock) omap \<Rightarrow> string" where
  "IdClockMap_str m =
     ''IdClockMap{'' @
     show_items (\<lambda>i c. ''{'' @ show_hex i @ '', '' @ Clock_str c @ ''}'') m @ ''}''"

definition Connection_str :: "world \<Rightarrow> connection \<Rightarrow> string" where
  "Connection_str w c =
     ''Connection{ .url: '' @ Connection_url w c @ '', .source = '' @ show_source (conn_source c) @
     ''.version= '' @ Clock_str (conn_version c) @
     '', .provides = '' @ IdConnectionInfoMap_str (conn_sources c) @ ''}''"

definition Connection_eq :: "world \<Rightarrow> connection \<Rightarrow> connection \<Rightarrow> bool" where
  "Connection_eq w c d \<longleftrightarrow> Connection_url w c = Connection_url w d \<and>
     conn_version c = conn_version d \<and> conn_sources c = conn_sources d \<and> conn_source c = conn_source d"

definition Url_str :: "url \<Rightarrow> string" where
  "Url_str u =
     ''{'' @ url_url u @ '', '' @ url_id u @ '', '' @ url_hostport u @ '', '' @ url_path u @ ''}''"

section \<open>Remote reads\<close>

text \<open>\<open>Connection::clock\<close> and \<open>Connection::provides\<close> with \<open>Origin::Remote\<close>: the connection takes the
  peer's clock, or adds what the peer advertises to what it knew.\<close>

definition Connection_clock_remote :: "addr \<Rightarrow> nat \<Rightarrow> world \<Rightarrow> (clock \<times> world) outcome" where
  "Connection_clock_remote a i w =
     (case Connection_broker w (conn w a i) of
        None \<Rightarrow> Inl Null_pointer
      | Some b \<Rightarrow>
          Inr (Broker_clock w b, set_conn a i (\<lambda>c. c\<lparr>conn_version := Broker_clock w b\<rparr>) w))"

definition Connection_provides_remote :: "addr \<Rightarrow> nat \<Rightarrow> world \<Rightarrow> (provides \<times> world) outcome" where
  "Connection_provides_remote a i w =
     (case Connection_broker w (conn w a i) of
        None \<Rightarrow> Inl Null_pointer
      | Some b \<Rightarrow>
          let c = fold (\<lambda>(_, infos) c.
                c\<lparr>conn_version := fold (\<lambda>(_, info) v. Clock_merge v (info_clock info))
                     (entries infos) (conn_version c),
                  conn_sources := om_absorb (conn_sources c) (om_map (\<lambda>_. farther) infos)\<rparr>)
              (entries (BrokerBase_sources w b (conn_source (conn w a i)))) (conn w a i)
          in Inr (conn_sources c, set_conn a i (\<lambda>_. c) w))"

text \<open>A hub that knows a cache with an old clock.\<close>

definition stale_pair :: world where
  "stale_pair =
     \<lparr>w_brokers = om_init
        [(0, no_broker\<lparr>b_kind := Hub, b_id := 1, b_connections := [Connection_none,
            (Connection_to (Some 1))\<lparr>conn_source := 1,
               conn_sources := om_init [(2, \<lparr>info_distance = 1, info_clock = om_empty\<rparr>)]\<rparr>]\<rparr>),
         (1, no_broker\<lparr>b_kind := Cache, b_id := 2, b_connections :=
            [Connection_none\<lparr>conn_version := Clock_init [(2, 1)]\<rparr>,
             (Connection_to (Some 0))\<lparr>conn_source := 1\<rparr>]\<rparr>)],
      w_store = om_empty, w_builders = om_empty, w_random = (\<lambda>_. 0), w_drawn = 0, w_files = om_empty\<rparr>"

section \<open>Properties\<close>

lemma provides_remote_kept:
  "fold (\<lambda>(_, infos) c.
      c\<lparr>conn_version := fold (\<lambda>(_, info) v. Clock_merge v (info_clock info)) (entries infos) (conn_version c),
        conn_sources := om_absorb (conn_sources c) (om_map (\<lambda>_. farther) infos)\<rparr>) xs c = c' \<Longrightarrow>
   om_find (conn_sources c) i = Some info \<Longrightarrow> om_find (conn_sources c') i = Some info"
  by (induction xs arbitrary: c) (auto simp: om_find_absorb)

text \<open>Reading the remote sources never updates what a connection already knew of a journal: an
  old distance and an old clock stay, whatever the peer says now.\<close>

theorem remote_sources_stay_stale:
  assumes "om_find (conn_sources (conn w a i)) j = Some info"
    and "Connection_provides_remote a i w = Inr (infos, w')"
  shows "om_find infos j = Some info"
  using assms provides_remote_kept [OF _ assms(1)]
  by (auto simp: Connection_provides_remote_def Let_def split: option.splits)

theorem remote_sources_stay_stale_witness:
  "om_find (fst (projr (Connection_provides_remote 0 1 stale_pair))) 2 =
     Some \<lparr>info_distance = 1, info_clock = om_empty\<rparr> \<and> Broker_clock stale_pair 1 = Clock_init [(2, 1)]"
proof -
  have known: "om_find (conn_sources (conn stale_pair 0 1)) 2 = Some \<lparr>info_distance = 1, info_clock = om_empty\<rparr>"
    and valid: "Connection_broker stale_pair (conn stale_pair 0 1) = Some 1"
    and clock: "Broker_clock stale_pair 1 = Clock_init [(2, 1)]"
    by (simp_all add: eval_simps stale_pair_def no_broker_def)
  obtain infos w' where run: "Connection_provides_remote 0 1 stale_pair = Inr (infos, w')"
    using valid by (simp add: Connection_provides_remote_def Let_def)
  show ?thesis using remote_sources_stay_stale [OF known run] run clock by simp
qed

end
