(* ===== verification/Store.thy ===== *)
theory Store
  imports Broker
begin

text \<open>
  Stores make an object for a URL on first demand and return the same object from then on:
  \<open>cashmere/src/brokerstore.cpp\<close> for brokers, and \<open>wrapperstore.cpp\<close>, modelled in \<open>Service\<close>, for
  the services that wrap them. The locale states what the two have in common; the facts on the
  store of brokers follow.
\<close>

section \<open>Stores\<close>

locale creating_store =
  fixes get :: "'u \<Rightarrow> 's \<Rightarrow> 'r option \<times> 's"
    and known :: "'s \<Rightarrow> 'u \<Rightarrow> 'r option"
  assumes again: "known s u = Some r \<Longrightarrow> get u s = (Some r, s)"
    and registers: "get u s = (Some r, s') \<Longrightarrow> known s' u = Some r"
    and refuses: "get u s = (None, s') \<Longrightarrow> s' = s"
    and others: "get u s = (x, s') \<Longrightarrow> v \<noteq> u \<Longrightarrow> known s' v = known s v"
begin

lemma keeps:
  assumes "get u s = (x, s')" and "known s v = Some r"
  shows "known s' v = Some r"
  using assms again [of s u r] others [of u s x s' v] by (cases "v = u") auto

lemma keeps_all: "known s v = Some r \<Longrightarrow> known (fold (\<lambda>u s. snd (get u s)) us s) v = Some r"
  by (induction us arbitrary: s) (auto intro: keeps [OF surjective_pairing])

text \<open>Whatever else is asked for, a URL stands for the object it was made for.\<close>

lemma identity:
  assumes "get u s = (Some r, s')"
  shows "get u (fold (\<lambda>v s. snd (get v s)) us s') = (Some r, fold (\<lambda>v s. snd (get v s)) us s')"
  by (intro again keeps_all registers [OF assms])

end

section \<open>Brokers\<close>

lemma fold_max_ge: "m \<le> fold (\<lambda>(a, _) m. max (Suc a) m) xs m"
proof (induction xs arbitrary: m)
  case (Cons x xs)
  show ?case using Cons.IH [of "max (Suc (fst x)) m"] by (simp add: split_def)
qed simp

lemma fold_max_above: "(a, b) \<in> set xs \<Longrightarrow> a < fold (\<lambda>(a, _) m. max (Suc a) m) xs m"
proof (induction xs arbitrary: m)
  case (Cons x xs)
  show ?case
  proof (cases "x = (a, b)")
    case True
    then show ?thesis using fold_max_ge [of "max (Suc a) m" xs] by simp
  next
    case False
    then show ?thesis using Cons by (simp add: split_def)
  qed
qed simp

lemma live_below_fresh: "live w a \<Longrightarrow> a < fresh_addr w"
  by (auto simp: live_def om_find_iff fresh_addr_def intro: fold_max_above simp del: not_None_eq
      simp flip: not_None_eq)

lemma fresh_not_live: "\<not> live w (fresh_addr w)"
  using live_below_fresh by blast

text \<open>What the store answers: the broker it has, nothing for a schema without builder, or a new
  broker at a new address.\<close>

lemma getOrCreate_cases:
  assumes "BrokerStore_getOrCreate u w = (r, w')"
  obtains a where "om_find (w_store w) u = Some a" "r = Some a" "w' = w"
  | "om_find (w_store w) u = None" "om_find (w_builders w) (url_schema (ParseUrl u)) = None"
    "r = None" "w' = w"
  | k b v where "om_find (w_store w) u = None" "om_find (w_builders w) (url_schema (ParseUrl u)) = Some k"
    "BrokerBase_Impl k u w = (b, v)" "r = Some (fresh_addr v)"
    "w' = v\<lparr>w_brokers := om_put (fresh_addr v) (b\<lparr>b_stored := True\<rparr>) (w_brokers v),
            w_store := om_put u (fresh_addr v) (w_store v)\<rparr>"
  using assms by (auto simp: BrokerStore_getOrCreate_def Let_def split: option.splits prod.splits)

lemma Impl_cases:
  assumes "BrokerBase_Impl k u w = (b, v)"
  shows "w_brokers v = w_brokers w" and "w_store v = w_store w" and "w_builders v = w_builders w"
    and "w_files v = w_files w" and "b_kind b = k" and "b_connections b = [Connection_none]"
    and "b_entries b = om_empty" and "b_url b = ParseUrl u"
  using assms by (auto simp: BrokerBase_Impl_def Random_next_def Let_def split: option.splits)

lemma live_brokers: "w_brokers v = w_brokers w \<Longrightarrow> live v a = live w a"
  by (simp add: live_def)

lemma fresh_brokers: "w_brokers v = w_brokers w \<Longrightarrow> fresh_addr v = fresh_addr w"
  by (simp add: fresh_addr_def)

lemma getOrCreate_keeps:
  assumes "BrokerStore_getOrCreate u w = (r, w')"
  shows "live w a \<Longrightarrow> live w' a" and "live w a \<Longrightarrow> broker_at w' a = broker_at w a"
    and "live w' a \<Longrightarrow> \<not> live w a \<Longrightarrow> conns w' a = [Connection_none]"
    and "om_find (w_store w') v = Some a \<Longrightarrow> om_find (w_store w) v = Some a \<or> v = u \<and> live w' a \<and> r = Some a"
    and "om_find (w_store w) v = Some a \<Longrightarrow> om_find (w_store w') v = Some a"
proof -
  show "live w a \<Longrightarrow> live w' a"
    using assms by (cases rule: getOrCreate_cases) (auto simp: live_def Impl_cases)
  show "live w a \<Longrightarrow> broker_at w' a = broker_at w a"
    using assms
  proof (cases rule: getOrCreate_cases)
    case (3 k b v)
    then show "live w a \<Longrightarrow> broker_at w' a = broker_at w a"
      using fresh_not_live [of w] fresh_brokers [of v w] by (auto simp: broker_at_def Impl_cases)
  qed simp_all
  show "live w' a \<Longrightarrow> \<not> live w a \<Longrightarrow> conns w' a = [Connection_none]"
    using assms
    by (cases rule: getOrCreate_cases) (auto simp: live_def broker_at_def Impl_cases split: if_splits)
  show "om_find (w_store w') v = Some a \<Longrightarrow> om_find (w_store w) v = Some a \<or> v = u \<and> live w' a \<and> r = Some a"
    using assms by (cases rule: getOrCreate_cases) (auto simp: live_def Impl_cases split: if_splits)
  show "om_find (w_store w) v = Some a \<Longrightarrow> om_find (w_store w') v = Some a"
    using assms by (cases rule: getOrCreate_cases) (auto simp: Impl_cases split: if_splits)
qed

lemma getOrCreate_registers:
  "BrokerStore_getOrCreate u w = (Some a, w') \<Longrightarrow> om_find (w_store w') u = Some a"
  by (erule getOrCreate_cases) (auto simp: Impl_cases)

text \<open>The store of brokers is a store.\<close>

interpretation brokers: creating_store BrokerStore_getOrCreate "\<lambda>w. om_find (w_store w)"
proof unfold_locales
  fix u v :: string and a :: addr and x :: "addr option" and s s' :: world
  show "om_find (w_store s) u = Some a \<Longrightarrow> BrokerStore_getOrCreate u s = (Some a, s)"
    by (simp add: BrokerStore_getOrCreate_def)
  show "BrokerStore_getOrCreate u s = (Some a, s') \<Longrightarrow> om_find (w_store s') u = Some a"
    by (rule getOrCreate_registers)
  show "BrokerStore_getOrCreate u s = (None, s') \<Longrightarrow> s' = s"
    by (erule getOrCreate_cases) simp_all
  show "BrokerStore_getOrCreate u s = (x, s') \<Longrightarrow> v \<noteq> u \<Longrightarrow> om_find (w_store s') v = om_find (w_store s) v"
    by (erule getOrCreate_cases) (auto simp: Impl_cases)
qed

end
