(* ===== verification/Soundness.thy ===== *)
theory Soundness
  imports Routing Store
begin

text \<open>
  What the operations of a network can assume of each other's state. In a
  well-formed world every broker has its front connection, no connection leads to an address
  without a broker, and the store names brokers that exist. Requests keep a world well-formed and
  none of them throws or follows a null pointer, so the checks the code leaves out are not missed.
\<close>

section \<open>Well-formed worlds\<close>

definition anchored :: "world \<Rightarrow> connection \<Rightarrow> bool" where
  "anchored w c \<longleftrightarrow> (case conn_broker c of None \<Rightarrow> True | Some b \<Rightarrow> live w b)"

definition well_formed :: "world \<Rightarrow> bool" where
  "well_formed w \<longleftrightarrow>
     list_all (\<lambda>(_, b). b_connections b \<noteq> [] \<and> conn_broker (hd (b_connections b)) = None \<and>
       list_all (anchored w) (b_connections b)) (entries (w_brokers w)) \<and>
     list_all (\<lambda>(_, a). live w a) (entries (w_store w))"

lemma anchored_iff: "anchored w c \<longleftrightarrow> (\<forall>b. conn_broker c = Some b \<longrightarrow> live w b)"
  by (simp add: anchored_def split: option.split)

lemma well_formed_iff:
  "well_formed w \<longleftrightarrow>
     (\<forall>a. live w a \<longrightarrow> conns w a \<noteq> [] \<and> conn_broker (conn w a 0) = None \<and>
        (\<forall>c \<in> set (conns w a). anchored w c)) \<and>
     (\<forall>u a. om_find (w_store w) u = Some a \<longrightarrow> live w a)"
proof -
  have "list_all (\<lambda>(_, b). b_connections b \<noteq> [] \<and> conn_broker (hd (b_connections b)) = None \<and>
       list_all (anchored w) (b_connections b)) (entries (w_brokers w)) \<longleftrightarrow>
     (\<forall>a. live w a \<longrightarrow> conns w a \<noteq> [] \<and> conn_broker (conn w a 0) = None \<and>
        (\<forall>c \<in> set (conns w a). anchored w c))"
    using broker_at_entries [of _ _ w]
    by (fastforce simp: list_all_iff live_entries hd_conv_nth)
  moreover have "list_all (\<lambda>(_, a). live w a) (entries (w_store w)) \<longleftrightarrow>
      (\<forall>u a. om_find (w_store w) u = Some a \<longrightarrow> live w a)"
    by (auto simp: list_all_iff om_find_iff)
  ultimately show ?thesis by (simp add: well_formed_def)
qed

text \<open>A well-formed world may grow: brokers and connections are added, none is taken away or led
  elsewhere.\<close>

definition grows :: "world \<Rightarrow> world \<Rightarrow> bool" where
  "grows w w' \<longleftrightarrow> well_formed w \<longrightarrow> well_formed w' \<and>
     (\<forall>a. live w a \<longrightarrow> live w' a \<and> length (conns w a) \<le> length (conns w' a) \<and>
        (\<forall>i < length (conns w a). conn_broker (conn w' a i) = conn_broker (conn w a i)))"

lemma grows_refl [simp]: "grows w w"
  by (simp add: grows_def)

lemma grows_trans [trans]: "grows u v \<Longrightarrow> grows v w \<Longrightarrow> grows u w"
  unfolding grows_def by (metis le_trans less_le_trans)

lemma grows_well_formed: "grows w w' \<Longrightarrow> well_formed w \<Longrightarrow> well_formed w'"
  by (simp add: grows_def)

lemma grows_live: "grows w w' \<Longrightarrow> well_formed w \<Longrightarrow> live w a \<Longrightarrow> live w' a"
  by (simp add: grows_def)

lemma grows_length: "grows w w' \<Longrightarrow> well_formed w \<Longrightarrow> live w a \<Longrightarrow> length (conns w a) \<le> length (conns w' a)"
  by (simp add: grows_def)

lemma grows_valid:
  assumes "grows w w'" and "well_formed w" and "i < length (conns w a)"
    and "Connection_broker w (conn w a i) = Some b"
  shows "Connection_broker w' (conn w' a i) = Some b"
proof -
  have "live w a" using assms(3) not_live_conns [of w a] by fastforce
  then show ?thesis using assms by (auto simp: grows_def Connection_broker_live)
qed

lemma well_formed_live:
  assumes "well_formed w" and "live w a"
  shows "0 < length (conns w a)" and "conn_broker (conn w a 0) = None"
  using assms by (auto simp: well_formed_iff)

lemma grows_set_conn:
  assumes "\<And>c. conn_broker (f c) = conn_broker c"
  shows "grows w (set_conn a i f w)"
proof -
  have ends: "conn_broker (conn (set_conn a i f w) b j) = conn_broker (conn w b j)" for b j
    by (cases "i < length (conns w a)")
      (auto simp: conns_set_conn nth_list_update assms list_update_beyond)
  have "anchored (set_conn a i f w) c"
    if wf: "well_formed w" and b: "live w b" and c: "c \<in> set (conns (set_conn a i f w) b)" for b c
  proof -
    obtain j where j: "j < length (conns w b)" "c = conn (set_conn a i f w) b j"
      using c by (metis in_set_conv_nth length_conns_set_conn)
    then have "anchored w (conn w b j)" using wf b by (simp add: well_formed_iff)
    then show ?thesis by (simp add: anchored_iff j(2) ends)
  qed
  moreover have "conns (set_conn a i f w) b \<noteq> [] \<longleftrightarrow> conns w b \<noteq> []" for b
    using length_conns_set_conn [of a i f w b] by (metis length_0_conv)
  ultimately show ?thesis by (auto simp: grows_def well_formed_iff [of "set_conn a i f w"] ends)
    (auto simp: well_formed_iff)
qed

lemma store_push [simp]: "w_store (push_conn a c w) = w_store w"
  by (simp add: push_conn_def set_broker_def split: option.split)

lemma conns_push: "conns (push_conn a c w) b = (if a = b \<and> live w a then conns w a @ [c] else conns w b)"
  by (auto simp: push_conn_def broker_at_set_broker)

lemma broker_push [simp]:
  "b_stored (broker_at (push_conn a c w) b) = b_stored (broker_at w b)"
  "b_url (broker_at (push_conn a c w) b) = b_url (broker_at w b)"
  "b_kind (broker_at (push_conn a c w) b) = b_kind (broker_at w b)"
  "b_id (broker_at (push_conn a c w) b) = b_id (broker_at w b)"
  "b_entries (broker_at (push_conn a c w) b) = b_entries (broker_at w b)"
  by (auto simp: push_conn_def broker_at_set_broker)

lemma registered_push [simp]: "registered (push_conn a c w) b = registered w b"
  by (simp add: registered_def)

lemma grows_push: "anchored w c \<Longrightarrow> grows w (push_conn a c w)"
  by (auto simp: grows_def well_formed_iff conns_push nth_append anchored_iff)

lemma same_net_grows:
  assumes "same_net w w'"
  shows "grows w w'"
proof -
  have wires: "wiring w = wiring w'" using assms by (simp add: same_net_def)
  have ends: "conn_broker (conn w' a i) = conn_broker (conn w a i)" if "i < length (conns w a)" for a i
    using wiring_ends(1) [OF wires, of a i] that by simp
  have "anchored w' c" if wf: "well_formed w" and b: "live w b" and c: "c \<in> set (conns w' b)" for b c
  proof -
    obtain j where j: "j < length (conns w b)" "c = conn w' b j"
      using c wiring_length [OF wires, of b] by (metis in_set_conv_nth)
    then have "anchored w (conn w b j)" using wf b by (simp add: well_formed_iff)
    then show ?thesis by (simp add: anchored_iff j(2) ends [OF j(1)] wiring_live [OF wires])
  qed
  moreover have "conns w b \<noteq> [] \<longleftrightarrow> conns w' b \<noteq> []" for b
    using wiring_length [OF wires, of b] by (metis length_0_conv)
  ultimately show ?thesis
    using assms wiring_length [OF wires] wiring_live [OF wires] ends
    by (auto simp: grows_def well_formed_iff [of w'] same_net_def) (auto simp: well_formed_iff)
qed

lemma grows_create:
  assumes "BrokerStore_getOrCreate u w = (r, w')"
  shows "grows w w'"
proof -
  note keeps = getOrCreate_keeps [OF assms]
  have "well_formed w'" if wf: "well_formed w"
    unfolding well_formed_iff
  proof (intro conjI allI impI ballI)
    fix a assume a: "live w' a"
    show "conns w' a \<noteq> []" "conn_broker (conn w' a 0) = None"
      using keeps(2,3) [of a] a wf by (cases "live w a"; force simp: well_formed_iff Connection_none_def)+
    show "anchored w' c" if "c \<in> set (conns w' a)" for c
    proof (cases "live w a")
      case True
      then have "anchored w c" using that keeps(2) [OF True] wf by (simp add: well_formed_iff)
      then show ?thesis using keeps(1) by (auto simp: anchored_iff)
    next
      case False
      then show ?thesis using that keeps(3) [OF a] by (simp add: anchored_def Connection_none_def)
    qed
  next
    fix v a assume "om_find (w_store w') v = Some a"
    from keeps(4) [OF this] show "live w' a" using keeps(1) wf by (auto simp: well_formed_iff)
  qed
  then show ?thesis using keeps(1,2) by (simp add: grows_def)
qed

lemma created_live:
  "BrokerStore_getOrCreate u w = (Some a, w') \<Longrightarrow> well_formed w \<Longrightarrow> live w' a"
  using getOrCreate_registers [of u w a w'] grows_well_formed [OF grows_create, of u w "Some a" w']
  by (auto simp: well_formed_iff)

lemma stub_cases:
  assumes "BrokerBase_stub a w = (c, w')"
  obtains "\<not> b_stored (broker_at w a)" "c = Connection_to (Some a)" "w' = w"
  | b where "b_stored (broker_at w a)" "c = Connection_to b"
    "BrokerStore_getOrCreate (url_url (b_url (broker_at w a))) w = (b, w')"
  using assms by (auto simp: BrokerBase_stub_def Let_def split: if_splits prod.splits)

lemma grows_stub: "BrokerBase_stub a w = (c, w') \<Longrightarrow> grows w w'"
  by (erule stub_cases) (auto dest: grows_create)

lemma anchored_stub:
  assumes "BrokerBase_stub a w = (c, w')" and "well_formed w" and "live w a"
  shows "anchored w' c"
  using assms(1)
proof (cases rule: stub_cases)
  case 1
  then show ?thesis using assms(3) by (simp add: anchored_def Connection_to_def)
next
  case (2 b)
  then show ?thesis using created_live [of _ w _ w'] assms(2)
    by (cases b) (auto simp: anchored_def Connection_to_def)
qed

section \<open>No exceptions\<close>

text \<open>A call is sound when it returns or, given too little fuel, is cut off; it never throws.\<close>

definition sound :: "'a outcome \<Rightarrow> bool" where
  "sound m \<longleftrightarrow> (\<forall>f. m = Inl f \<longrightarrow> f = Out_of_fuel)"

named_theorems soundness

lemma sound_Inr [simp]: "sound (Inr x)"
  by (simp add: sound_def)

lemma sound_Inl [simp]: "sound (Inl f) \<longleftrightarrow> f = Out_of_fuel"
  by (simp add: sound_def)

lemma sound_andThen [soundness]:
  "sound m \<Longrightarrow> (\<And>x. m = Inr x \<Longrightarrow> sound (f x)) \<Longrightarrow> sound (andThen m f)"
  by (cases m) simp_all

lemma sound_if [soundness]: "(b \<Longrightarrow> sound m) \<Longrightarrow> (\<not> b \<Longrightarrow> sound n) \<Longrightarrow> sound (if b then m else n)"
  by simp

lemma sound_prod [soundness]: "(\<And>x y. p = (x, y) \<Longrightarrow> sound (f x y)) \<Longrightarrow> sound (case p of (x, y) \<Rightarrow> f x y)"
  by (cases p) simp

lemma sound_option [soundness]:
  "(m = None \<Longrightarrow> sound n) \<Longrightarrow> (\<And>x. m = Some x \<Longrightarrow> sound (f x)) \<Longrightarrow>
   sound (case m of None \<Rightarrow> n | Some x \<Rightarrow> f x)"
  by (cases m) simp_all

lemma sound_forEach:
  assumes "P s" and "\<And>i u. i \<in> set is \<Longrightarrow> P u \<Longrightarrow> sound (body i u)"
    and "\<And>i u v. i \<in> set is \<Longrightarrow> P u \<Longrightarrow> body i u = Inr v \<Longrightarrow> P v"
  shows "sound (forEach is body s)"
  using assms
proof (induction "is" arbitrary: s)
  case (Cons i "is")
  show ?case unfolding forEach.simps
  proof (rule sound_andThen)
    fix u assume "body i s = Inr u"
    then have "P u" using Cons.prems by (meson list.set_intros(1))
    then show "sound (forEach is body u)" using Cons by (meson list.set_intros(2))
  qed (use Cons.prems in simp)
qed simp

lemma sound_loop [soundness]:
  "(\<And>i u. i \<in> set is \<Longrightarrow> sound (body i u)) \<Longrightarrow> sound (forEach is body s)"
  by (rule sound_forEach [where P = "\<lambda>_. True"]) simp_all

text \<open>Insertions, announcements and queries look before they follow a connection.\<close>

lemma insert_sound: "sound (BrokerBase_insert n a e s w)"
proof (induction n arbitrary: a s w)
  case (Suc n)
  then show ?case
    by (auto simp: Broker_insert_def JournalBase_insert_def Connection_insert_def Let_def
        intro!: soundness)
qed simp

lemma insert_all_sound: "sound (BrokerBase_insert_all n a es s w)"
  by (auto simp: BrokerBase_insert_all_def insert_sound intro!: soundness)

lemma refresh_sound: "sound (BrokerBase_refresh n a d p w)"
proof (induction n arbitrary: a d p w)
  case (Suc n)
  then show ?case
    by (auto simp: Broker_refresh_def Broker_refreshConnections_def Connection_refresh_def Let_def
        intro!: soundness)
qed simp

lemma refreshConnections_sound: "sound (Broker_refreshConnections (BrokerBase_refresh n) a p w)"
  by (auto simp: Broker_refreshConnections_def Connection_refresh_def Let_def refresh_sound
      intro!: soundness)

lemma query_sound: "sound (BrokerBase_query n w a c s)"
proof (induction n arbitrary: a s)
  case (Suc n)
  have "Connection_valid w (conn w a i)"
    if "find (\<lambda>i. \<not> (i = unat s \<or> conn_sources (conn w a i) = om_empty) \<and>
          Connection_valid w (conn w a i)) [1..<length (conns w a)] = Some i" for i
    using that by (auto simp: find_Some_iff)
  then show ?case using Suc
    by (fastforce simp: Broker_query_def Connection_query_def Connection_valid_def intro!: soundness)
qed simp

section \<open>The effect of an announcement\<close>

definition heard :: "connection \<Rightarrow> connection \<Rightarrow> connection" where
  "heard d c = c\<lparr>conn_source := conn_source d, conn_version := conn_version d,
     conn_sources := conn_sources d\<rparr>"

text \<open>A refresh takes stubs and writes what was heard at ports other than the front; whatever these
  two steps do, the whole recursive call does.\<close>

locale announce_effect =
  fixes R :: "world \<Rightarrow> world \<Rightarrow> bool"
  assumes refl: "R w w"
    and trans: "R u v \<Longrightarrow> R v w \<Longrightarrow> R u w"
    and stub: "BrokerBase_stub a w = (c, w') \<Longrightarrow> R w w'"
    and told: "(p :: source) \<noteq> 0 \<Longrightarrow> R w (set_conn a (unat p) (heard d) w)"
begin

lemma connections:
  assumes call: "\<And>b d p u ok v. call b d p u = Inr (ok, v) \<Longrightarrow> R u v"
    and run: "Broker_refreshConnections call a p w = Inr w'"
  shows "R w w'"
  using run unfolding Broker_refreshConnections_def
proof (rule forEach_invariant)
  fix i x y
  assume x: "R w x"
    and body: "(if i = unat p then Inr x
       else let (data, w) = introduction a (of_nat i) x in
         andThen (Connection_refresh call (conn w a i) data w) (\<lambda>(_, w). Inr w)) = Inr y"
  show "R w y"
  proof (cases "i = unat p")
    case False
    obtain d u where u: "introduction a (of_nat i) x = (d, u)" by fastforce
    then have "R x u" by (auto simp: introduction_def Let_def split: prod.splits intro: stub)
    moreover have "R u y"
      using body False u call
      by (auto simp: Connection_refresh_def cashmere_errors refl split: option.splits)
    ultimately show ?thesis using x trans by blast
  qed (use body x in simp)
qed (rule refl)

lemma refresh: "BrokerBase_refresh n a d p w = Inr (ok, w') \<Longrightarrow> R w w'"
proof (induction n arbitrary: a d p w ok w')
  case (Suc n)
  show ?case
  proof (cases "p = 0 \<or> length (conns w a) \<le> unat p")
    case True
    then show ?thesis using Suc.prems refl by (simp add: Broker_refresh_def)
  next
    case False
    then have run: "Broker_refreshConnections (BrokerBase_refresh n) a p
        (set_conn a (unat p) (heard d) w) = Inr w'"
      using Suc.prems by (auto simp: Broker_refresh_def cashmere_errors heard_def [abs_def])
    have "R (set_conn a (unat p) (heard d) w) w'"
      by (rule connections [where call = "BrokerBase_refresh n", OF _ run]) (rule Suc.IH)
    then show ?thesis using told [of p w a d] False trans by blast
  qed
qed simp

lemma refreshConnections: "Broker_refreshConnections (BrokerBase_refresh n) a p w = Inr w' \<Longrightarrow> R w w'"
  by (rule connections [where call = "BrokerBase_refresh n", rotated], assumption) (rule refresh)

end

interpretation growing: announce_effect grows
  by unfold_locales (auto intro: grows_trans grows_stub grows_set_conn simp: heard_def)

text \<open>Announcements leave alone what a broker that was there holds.\<close>

definition same_state :: "world \<Rightarrow> world \<Rightarrow> bool" where
  "same_state w w' \<longleftrightarrow> (\<forall>a. live w a \<longrightarrow> live w' a \<and> Broker_clock w' a = Broker_clock w a \<and>
     b_entries (broker_at w' a) = b_entries (broker_at w a) \<and>
     fst (frame (broker_at w' a)) = fst (frame (broker_at w a)))"

lemma kind_set_conn [simp]:
  "b_kind (broker_at (set_conn a i f w) b) = b_kind (broker_at w b)"
  "b_id (broker_at (set_conn a i f w) b) = b_id (broker_at w b)"
  "b_url (broker_at (set_conn a i f w) b) = b_url (broker_at w b)"
  "b_stored (broker_at (set_conn a i f w) b) = b_stored (broker_at w b)"
  by (auto simp: set_conn_def broker_at_set_broker)

lemma same_state_create: "BrokerStore_getOrCreate u w = (r, w') \<Longrightarrow> same_state w w'"
  using getOrCreate_keeps(1,2) [of u w r w'] by (simp add: same_state_def Broker_clock_def)

interpretation quiet: announce_effect same_state
proof unfold_locales
  show "same_state w w'" if "BrokerBase_stub a w = (c, w')" for a w c w'
    using that by (cases rule: stub_cases) (auto simp: same_state_create, simp add: same_state_def)
  show "same_state w (set_conn a (unat p) (heard d) w)" if "p \<noteq> 0" for p a d w
    using that by (simp add: same_state_def clock_set_conn unat_eq_0 frame_def)
qed (auto simp: same_state_def)

text \<open>An insertion changes the network as little as a settled refresh.\<close>

lemma same_net_save: "BrokerBase_save a e w = (ok, w') \<Longrightarrow> same_net w w'"
  using wiring_save [of a e w ok w']
  by (auto simp: same_net_def BrokerBase_save_def Journal_save_def JournalFile_save_def Let_def
      set_broker_def split: kind.splits if_splits option.splits)

lemma store_setClock: "w_store (Broker_setClock a c w) = w_store w"
  by (simp add: Broker_setClock_def)

interpretation nets: insert_effect "\<lambda>_. same_net"
  by unfold_locales
    (auto simp: same_net_save intro: same_net_trans, auto simp: same_net_def store_setClock)

lemma grows_insert: "BrokerBase_insert n a e s w = Inr (c, w') \<Longrightarrow> grows w w'"
  by (rule same_net_grows) (rule nets.insert)

lemma same_net_insert_all:
  assumes "BrokerBase_insert_all n a es s w = Inr (c, w')"
  shows "same_net w w'"
proof -
  have "forEach es (\<lambda>e w. andThen (BrokerBase_insert n a e s w) (\<lambda>(_, w). Inr w)) w = Inr w'"
    using assms by (auto simp: BrokerBase_insert_all_def cashmere_errors)
  then show ?thesis
    by (rule forEach_invariant) (auto simp: cashmere_errors dest: nets.insert intro: same_net_trans)
qed

section \<open>Relay\<close>

text \<open>Ports fit their type.\<close>

definition ports_fit :: "world \<Rightarrow> bool" where
  "ports_fit w \<longleftrightarrow> list_all (\<lambda>(_, b). length (b_connections b) \<le> 2 ^ 32) (entries (w_brokers w))"

lemma ports_fit_live: "ports_fit w \<Longrightarrow> live w a \<Longrightarrow> length (conns w a) \<le> 2 ^ 32"
  using broker_at_entries [of a _ w] by (fastforce simp: ports_fit_def list_all_iff live_entries)

text \<open>A route leads through a connection with a broker behind it.\<close>

lemma route_valid:
  assumes wf: "well_formed w" and a: "live w a" and fit: "length (conns w a) \<le> 2 ^ 32"
    and rs: "rs = routes i (advertised (BrokerBase_sources w a 0) sender)"
    and r: "r \<in> set rs" and far: "0 \<notin> fst ` set rs"
  shows "unat (snd r) < length (conns w a)" and "Connection_valid w (conn w a (unat (snd r)))"
proof -
  obtain m info where m: "(snd r, m) \<in> set (entries (BrokerBase_sources w a 0))"
    and info: "(i, info) \<in> set (entries m)" "fst r = sint (info_distance info)"
    using r by (auto simp: rs routes_def advertised_def split: if_splits)
  have find: "om_find (BrokerBase_sources w a 0) (snd r) = Some m" using m by (simp add: om_find_iff)
  have "m \<noteq> om_init [(b_id (broker_at w a), \<lparr>info_distance = 0, info_clock = Broker_clock w a\<rparr>)]"
  proof
    assume "m = om_init [(b_id (broker_at w a), \<lparr>info_distance = 0, info_clock = Broker_clock w a\<rparr>)]"
    then have "info_distance info = 0"
      using info(1) by (auto simp flip: om_find_iff split: if_splits)
    then have "fst r = 0" using info(2) by simp
    then show False using far r by force
  qed
  then have "om_find (Broker_sources w a 0) (snd r) = Some m"
    using find by (auto simp: BrokerBase_sources_def JournalBase_sources_def split: if_splits)
  then show "unat (snd r) < length (conns w a)" "Connection_valid w (conn w a (unat (snd r)))"
    using find_sources [OF fit, of 0 "snd r"] by (auto simp: Let_def split: if_splits)
qed

lemma relay_sound:
  assumes "well_formed w" and "ports_fit w" and "live w a"
  shows "sound (BrokerBase_relay n a d s w)"
  using assms(3)
proof (induction n arbitrary: a d s)
  case (Suc n)
  have "sound (Broker_relay (BrokerBase_relay n) (BrokerBase_insert n) a d s w)" for d
  proof -
    define rs where "rs = routes (data_id d) (advertised (BrokerBase_sources w a 0) s)"
    have ok: "unat (snd (nearest rs)) < length (conns w a) \<and>
        Connection_valid w (conn w a (unat (snd (nearest rs))))"
      if "rs \<noteq> []" "0 \<notin> fst ` set rs"
      using route_valid [OF assms(1) Suc.prems ports_fit_live [OF assms(2) Suc.prems] rs_def
          nearest_member [OF that(1)] that(2)] by simp
    have "sound (Connection_relay (BrokerBase_relay n) c d w)" if "Connection_valid w c" for c
      using that Suc.IH
      by (auto simp: Connection_valid_def Connection_relay_def Connection_broker_live split: option.split)
    with ok show ?thesis unfolding Broker_relay_routes Let_def rs_def [symmetric]
      by (cases "rs = []"; cases "0 \<in> fst ` set rs") (simp_all add: insert_sound not_le)
  qed
  then show ?case by (simp add: JournalBase_relay_def)
qed simp

lemma same_net_relay: "BrokerBase_relay n a d s w = Inr (c, w') \<Longrightarrow> same_net w w'"
proof (induction n arbitrary: a d s)
  case (Suc n)
  then show ?case
    by (auto simp: JournalBase_relay_def Broker_relay_routes Connection_relay_def Let_def
        split: if_splits option.splits dest: nets.insert)
qed simp

section \<open>Connect and disconnect\<close>

lemma grows_introduction: "introduction a p w = (d, w') \<Longrightarrow> grows w w'"
  by (auto simp: introduction_def Let_def split: prod.splits intro: grows_stub)

lemma anchored_introduction:
  "introduction a p w = (d, w') \<Longrightarrow> well_formed w \<Longrightarrow> live w a \<Longrightarrow> anchored w' d"
  using anchored_stub by (auto simp: introduction_def Let_def anchored_def split: prod.splits)

lemma source_introduction: "introduction a p w = (d, w') \<Longrightarrow> conn_source d = p"
  by (auto simp: introduction_def Let_def split: prod.splits)

lemma connect_in_sound: "sound (Broker_connect_in n a c w)"
  by (auto simp: Broker_connect_in_def Let_def refreshConnections_sound intro!: soundness)

lemma connect_in_grows:
  assumes "Broker_connect_in n a c w = Inr (out, w')" and "anchored w c"
  shows "grows w w'"
proof (cases "well_formed w")
  case True
  obtain s v where v: "BrokerBase_stub a w = (s, v)" by fastforce
  have "anchored v c" using assms(2) grows_live [OF grows_stub [OF v] True]
    by (auto simp: anchored_iff)
  then have "grows v (push_conn a (c\<lparr>conn_sources := learn (Broker_clock v a) (conn_sources c)\<rparr>) v)"
    by (intro grows_push) (simp add: anchored_def)
  moreover have "grows (push_conn a (c\<lparr>conn_sources := learn (Broker_clock v a) (conn_sources c)\<rparr>) v) w'"
    using assms(1) v growing.refreshConnections
    by (auto simp: Broker_connect_in_def Let_def cashmere_errors)
  ultimately show ?thesis using grows_stub [OF v] grows_trans by blast
qed (simp add: grows_def)

lemma stub_same: "BrokerBase_stub a w = (c, w') \<Longrightarrow> live w b \<Longrightarrow> broker_at w' b = broker_at w b"
  by (erule stub_cases) (auto dest: getOrCreate_keeps(2))

lemma query_through_sound:
  "Connection_broker w c = Some b \<Longrightarrow> sound (Connection_query (BrokerBase_query n) w c k)"
  by (simp add: Connection_query_def query_sound)

lemma insert_through_sound:
  "Connection_broker w (conn w a i) = Some b \<Longrightarrow> sound (Connection_insert_all n a i es w)"
  by (auto simp: Connection_insert_all_def insert_all_sound intro!: soundness)

lemma same_net_insert_through:
  "Connection_insert_all n a i es w = Inr (c, w') \<Longrightarrow> same_net w w'"
  by (auto simp: Connection_insert_all_def cashmere_errors ends_def same_net_def
      split: option.splits if_splits dest!: same_net_insert_all)

lemma exchange_sound:
  assumes "Connection_broker w (conn w a (unat port)) = Some b" and "unat port < length (conns w a)"
    and wf: "well_formed w"
  shows "sound (Broker_exchange n a port w)"
proof -
  have valid: "Connection_broker v (conn v a (unat port)) = Some b"
    if "(if es = [] then Inr w
      else andThen (BrokerBase_insert_all n a es port w) (\<lambda>(_, w). Inr w)) = Inr v" for es v
  proof -
    have "same_net w v" using that by (auto simp: cashmere_errors split: if_splits dest: same_net_insert_all)
    then show ?thesis using grows_valid [OF same_net_grows wf assms(2,1)] by simp
  qed
  show ?thesis unfolding Broker_exchange_def
    by (auto intro!: soundness insert_through_sound [OF valid] query_through_sound [OF assms(1)]
        simp: query_sound insert_all_sound refreshConnections_sound)
qed

lemma exchange_grows:
  assumes "Broker_exchange n a port w = Inr w'"
  shows "grows w w'"
proof -
  obtain es fs u v where
    u: "(if fs = [] then Inr w
      else andThen (BrokerBase_insert_all n a fs port w) (\<lambda>(_, w). Inr w)) = Inr u"
    and v: "(if es = [] then Inr u
      else andThen (Connection_insert_all n a (unat port) es u) (\<lambda>(_, w). Inr w)) = Inr v"
    and w': "Broker_refreshConnections (BrokerBase_refresh n) a port v = Inr w'"
    using assms by (auto simp: Broker_exchange_def cashmere_errors)
  have "same_net w u" "same_net u v"
    using u v by (auto simp: cashmere_errors split: if_splits
        dest: same_net_insert_all same_net_insert_through)
  moreover have "grows v w'"
    using w' by (rule growing.refreshConnections)
  ultimately show ?thesis by (meson grows_trans same_net_grows)
qed

lemma connect_peer:
  assumes "conn_source c \<noteq> 0"
  shows "sound (BrokerBase_connect n a c w)"
    and "BrokerBase_connect n a c w = Inr (out, w') \<Longrightarrow> anchored w c \<Longrightarrow> grows w w'"
  using assms connect_in_grows
  by (cases n; auto simp: Broker_connect_def connect_in_sound)+

text \<open>The whole of \<open>connect\<close>, for a caller with a free port: up to the answer of the other broker,
  then the exchange.\<close>

lemma connect_out_start:
  assumes wf: "well_formed w" and a: "live w a" and room: "length (conns w a) < 2 ^ 32"
    and c: "anchored w c"
  defines "len \<equiv> length (conns w a)"
  obtains self v d t where "grows w v" and "grows w t" and "well_formed t" and "len < length (conns t a)"
    and "anchored t d" and "conn_source d = of_nat len" and "conn_source d \<noteq> 0"
    and "Connection_broker v c = None \<longleftrightarrow> Connection_broker w c = None"
    and "\<And>b. Connection_broker w c = Some b \<Longrightarrow> Connection_broker t (conn t a len) = Some b"
    and "\<And>peer n. Broker_connect_out peer n a c w =
      (if \<not> Connection_valid v c then Inr (self\<lparr>conn_source := - 1\<rparr>, v)
       else andThen (Connection_connect peer a len d t) (\<lambda>w.
         andThen (Broker_exchange n a (of_nat len) w) (\<lambda>w. Inr (self\<lparr>conn_source := of_nat len\<rparr>, w))))"
proof -
  obtain self v where v: "BrokerBase_stub a w = (self, v)" by fastforce
  define u where "u = push_conn a c v"
  obtain d t where t: "introduction a (of_nat len) u = (d, t)" by fastforce
  have len: "length (conns v a) = len" using stub_same [OF v a] by (simp add: len_def)
  have gv: "grows w v" using v by (rule grows_stub)
  have wf_v: "well_formed v" "live v a" using grows_well_formed [OF gv wf] grows_live [OF gv wf a] by simp_all
  have port: "unat (of_nat len :: source) = len" "(of_nat len :: source) \<noteq> 0"
    using well_formed_live(1) [OF wf a] room unat_port [of len] by (auto simp: len_def)
  have valid: "Connection_broker v c = None \<longleftrightarrow> Connection_broker w c = None"
    using c grows_live [OF gv wf]
    by (cases "conn_broker c") (auto simp: Connection_broker_def anchored_iff live_def)
  have "anchored v c" using c grows_live [OF gv wf] by (auto simp: anchored_iff)
  then have gu: "grows v u" unfolding u_def by (rule grows_push)
  have u: "length (conns u a) = Suc len" "conn u a len = c" "well_formed u" "live u a"
    using wf_v grows_well_formed [OF gu] len by (simp_all add: u_def conns_push nth_append)
  have gt: "grows u t" using t by (rule grows_introduction)
  have "Broker_connect_out peer n a c w =
      (if \<not> Connection_valid v c then Inr (self\<lparr>conn_source := - 1\<rparr>, v)
       else andThen (Connection_connect peer a len d t) (\<lambda>w.
         andThen (Broker_exchange n a (of_nat len) w) (\<lambda>w. Inr (self\<lparr>conn_source := of_nat len\<rparr>, w))))"
    for peer n
    using v t u(1) port len by (simp add: Broker_connect_out_def u_def Let_def)
  moreover have "Connection_broker t (conn t a len) = Some b" if "Connection_broker w c = Some b" for b
    using that u grows_valid [OF gt u(3), of len a b] grows_live [OF grows_trans [OF gv gu] wf]
    by (simp add: Connection_broker_live)
  moreover have "grows w t" using gv gu gt by (meson grows_trans)
  moreover have "well_formed t" "len < length (conns t a)"
    using grows_well_formed [OF gt u(3)] grows_length [OF gt u(3,4)] u(1) by simp_all
  ultimately show thesis
    using that [of v t d self] gv valid port anchored_introduction [OF t u(3,4)]
      source_introduction [OF t] by simp
qed

lemma connection_connect:
  assumes "well_formed t" and "i < length (conns t a)" and "anchored t d" and "conn_source d \<noteq> 0"
    and b: "Connection_broker t (conn t a i) = Some b"
  shows "sound (Connection_connect (BrokerBase_connect n) a i d t)"
    and "Connection_connect (BrokerBase_connect n) a i d t = Inr s \<Longrightarrow>
      grows t s \<and> Connection_broker s (conn s a i) = Some b"
proof -
  show "sound (Connection_connect (BrokerBase_connect n) a i d t)"
    using b connect_peer(1) [OF assms(4), of n b t] by (auto simp: Connection_connect_def intro!: soundness)
  assume "Connection_connect (BrokerBase_connect n) a i d t = Inr s"
  then obtain other r where r: "BrokerBase_connect n b d t = Inr (other, r)"
    and s: "s = set_conn a i (heard other) r"
    using b by (auto simp: Connection_connect_def cashmere_errors heard_def [abs_def])
  have "grows t r" using connect_peer(2) [OF assms(4) r assms(3)] .
  also have "grows r s" unfolding s by (rule grows_set_conn) (simp add: heard_def)
  finally show "grows t s \<and> Connection_broker s (conn s a i) = Some b"
    using grows_valid [OF _ assms(1,2) b] by simp
qed

lemma connect_out:
  assumes wf: "well_formed w" and a: "live w a" and room: "length (conns w a) < 2 ^ 32"
    and c: "anchored w c"
  shows "sound (Broker_connect_out (BrokerBase_connect n) n a c w)"
    and "Broker_connect_out (BrokerBase_connect n) n a c w = Inr (out, w') \<Longrightarrow> grows w w'"
proof -
  define len where "len = length (conns w a)"
  have len: "unat (of_nat len :: source) = len" using room by (simp add: len_def unat_port)
  obtain self v d t where v: "grows w v" and t: "grows w t" "well_formed t" "len < length (conns t a)"
    and d: "anchored t d" "conn_source d = of_nat len" "conn_source d \<noteq> 0"
    and valid: "Connection_broker v c = None \<longleftrightarrow> Connection_broker w c = None"
    and peer: "\<And>b. Connection_broker w c = Some b \<Longrightarrow> Connection_broker t (conn t a len) = Some b"
    and run: "\<And>peer n. Broker_connect_out peer n a c w =
      (if \<not> Connection_valid v c then Inr (self\<lparr>conn_source := - 1\<rparr>, v)
       else andThen (Connection_connect peer a len d t) (\<lambda>w.
         andThen (Broker_exchange n a (of_nat len) w) (\<lambda>w. Inr (self\<lparr>conn_source := of_nat len\<rparr>, w))))"
    by (rule connect_out_start [OF assms, folded len_def]) (rule that, assumption+)
  note call = connection_connect [OF t(2,3) d(1,3) peer]
  have later: "well_formed s \<and> len < length (conns s a)" if "grows t s" for s
    using that t a grows_live [OF t(1) wf] grows_well_formed [OF that] grows_length [OF that, of a] by simp
  show "sound (Broker_connect_out (BrokerBase_connect n) n a c w)"
  proof (cases "Connection_broker w c")
    case (Some b)
    have "sound (Broker_exchange n a (of_nat len) s)"
      if "Connection_connect (BrokerBase_connect n) a len d t = Inr s" for s
      using call(2) [OF Some that] later exchange_sound [of s a "of_nat len" b n] len by simp
    then show ?thesis unfolding run using call(1) [OF Some] by (auto intro!: soundness)
  qed (simp add: run valid Connection_valid_def)
  assume ok: "Broker_connect_out (BrokerBase_connect n) n a c w = Inr (out, w')"
  show "grows w w'"
  proof (cases "Connection_broker w c")
    case (Some b)
    then obtain s where s: "Connection_connect (BrokerBase_connect n) a len d t = Inr s"
      "Broker_exchange n a (of_nat len) s = Inr w'"
      using ok by (auto simp: run valid Connection_valid_def cashmere_errors)
    then show ?thesis using call(2) [OF Some s(1)] exchange_grows [OF s(2)] t(1) by (meson grows_trans)
  qed (use ok v in \<open>simp add: run valid Connection_valid_def\<close>)
qed

lemma disconnect_sound: "sound (Broker_disconnect n a p w)"
  by (auto simp: Broker_disconnect_def Connection_disconnect_def refresh_sound
      refreshConnections_sound intro!: soundness)

text \<open>A disconnected port loses its broker, so the world does not grow; no broker is lost.\<close>

definition carries_on :: "world \<Rightarrow> world \<Rightarrow> bool" where
  "carries_on w w' \<longleftrightarrow> (well_formed w \<longrightarrow> well_formed w' \<and> (\<forall>a. live w a \<longrightarrow> live w' a))"

lemma carries_on_refl: "carries_on w w"
  by (simp add: carries_on_def)

lemma carries_on_trans [trans]: "carries_on u v \<Longrightarrow> carries_on v w \<Longrightarrow> carries_on u w"
  by (simp add: carries_on_def)

lemma grows_carries_on: "grows w w' \<Longrightarrow> carries_on w w'"
  by (simp add: grows_def carries_on_def)

lemma carries_on_cut: "carries_on w (set_conn a i Connection_reset w)"
proof -
  let ?w = "set_conn a i Connection_reset w"
  have ends: "conn_broker (conn ?w b j) = None \<or> conn_broker (conn ?w b j) = conn_broker (conn w b j)"
    if "j < length (conns w b)" for b j
    using that by (cases "i = j") (auto simp: conns_set_conn)
  have "anchored ?w c" if wf: "well_formed w" and b: "live w b" and c: "c \<in> set (conns ?w b)" for b c
  proof -
    obtain j where j: "j < length (conns w b)" "c = conn ?w b j"
      using c by (metis in_set_conv_nth length_conns_set_conn)
    then have "anchored w (conn w b j)" using wf b by (simp add: well_formed_iff)
    then show ?thesis using ends [OF j(1)] by (auto simp: anchored_iff j(2))
  qed
  moreover have "conns ?w b \<noteq> [] \<and> conn_broker (conn ?w b 0) = None"
    if "well_formed w" "live w b" for b
  proof -
    have "length (conns ?w b) \<noteq> 0" using well_formed_live(1) [OF that] by (metis length_conns_set_conn less_irrefl)
    then show ?thesis using ends [of 0 b] well_formed_live [OF that] by fastforce
  qed
  moreover have "live ?w b" if "well_formed w" "om_find (w_store ?w) u = Some b" for u b
    using that by (simp add: well_formed_iff)
  ultimately show ?thesis unfolding carries_on_def well_formed_iff [of ?w] live_set_conn by blast
qed

lemma disconnect_cases:
  assumes "Broker_disconnect n a p w = Inr (r, w')"
  obtains "w' = w" "r = - 1" "length (conns w a) \<le> unat p \<or> \<not> Connection_valid w (conn w a (unat p))"
  | b ok v where "unat p < length (conns w a)" "Connection_broker w (conn w a (unat p)) = Some b" "r = p"
    "BrokerBase_refresh n b Connection_none (conn_source (conn w a (unat p))) w = Inr (ok, v)"
    "Broker_refreshConnections (BrokerBase_refresh n) a p
       (set_conn a (unat p) Connection_reset v) = Inr w'"
  using assms
  by (cases "Connection_broker w (conn w a (unat p))")
    (fastforce simp: Broker_disconnect_def Connection_disconnect_def Connection_valid_def cashmere_errors
      split: if_splits)+

lemma disconnect_carries_on: "Broker_disconnect n a p w = Inr (r, w') \<Longrightarrow> carries_on w w'"
proof (erule disconnect_cases)
  fix b ok v
  assume "BrokerBase_refresh n b Connection_none (conn_source (conn w a (unat p))) w = Inr (ok, v)"
  then have "carries_on w v" by (rule grows_carries_on [OF growing.refresh])
  also note carries_on_cut
  finally have "carries_on w (set_conn a (unat p) Connection_reset v)" .
  moreover assume "Broker_refreshConnections (BrokerBase_refresh n) a p
       (set_conn a (unat p) Connection_reset v) = Inr w'"
  then have "grows (set_conn a (unat p) Connection_reset v) w'"
    by (rule growing.refreshConnections)
  ultimately show "carries_on w w'" using carries_on_trans grows_carries_on by blast
qed (simp add: carries_on_def)

end
