(* ===== verification/Connecting.thy ===== *)
theory Connecting
  imports Soundness Network
begin

text \<open>
  How networks are joined and parted: \<open>Broker::connect\<close> and \<open>Broker::disconnect\<close>. While a
  connection is being made or cut, one of its ends is open and the other is not, and announcements
  already run through such a network. The first section bounds them: in a network that lies within
  a settled one, a port works as there or not at all, and announcements return whenever they
  return there.
\<close>

section \<open>Networks with ports that do not work\<close>

definition port_within :: "world \<Rightarrow> world \<Rightarrow> addr \<Rightarrow> nat \<Rightarrow> bool" where
  "port_within T w a i \<longleftrightarrow>
     (conn_broker (conn w a i) = None \<or> conn_broker (conn w a i) = conn_broker (conn T a i)) \<and>
     (conn_source (conn w a i) = 0 \<or> conn_source (conn w a i) = conn_source (conn T a i))"

definition within :: "world \<Rightarrow> world \<Rightarrow> bool" where
  "within T w \<longleftrightarrow> w_store w = w_store T \<and> (\<forall>a. live w a = live T a) \<and>
     (\<forall>a. live T a \<longrightarrow> fst (frame (broker_at w a)) = fst (frame (broker_at T a)) \<and>
        length (conns w a) = length (conns T a) \<and>
        (\<forall>i < length (conns T a). port_within T w a i))"

lemma within_registered: "within T w \<Longrightarrow> settled T \<Longrightarrow> live T a \<Longrightarrow> registered w a"
  using settled_live(1) [of T a] by (auto simp: within_def registered_def frame_def)

text \<open>When all ports work it is the settled network.\<close>

lemma within_complete:
  assumes w: "within T w"
    and full: "\<And>a i. live T a \<Longrightarrow> i < length (conns T a) \<Longrightarrow> ends (conn w a i) = ends (conn T a i)"
  shows "same_net T w"
proof -
  have "om_find (wiring w) a = om_find (wiring T) a" for a
  proof (cases "live T a")
    case True
    then have "map ends (conns w a) = map ends (conns T a)"
      using w full by (auto simp: within_def intro: nth_equalityI)
    then have "frame (broker_at w a) = frame (broker_at T a)"
      using w True by (simp add: within_def frame_def)
    moreover obtain b c where "om_find (w_brokers w) a = Some b" "om_find (w_brokers T) a = Some c"
      using w True unfolding within_def live_def by blast
    ultimately show ?thesis by (simp add: wiring_find broker_at_def)
  next
    case False
    then have "om_find (w_brokers w) a = None" "om_find (w_brokers T) a = None"
      using w unfolding within_def live_def by blast+
    then show ?thesis by (simp add: wiring_find)
  qed
  then show ?thesis using w by (simp add: same_net_def within_def om_eq_iff)
qed

text \<open>Announcements keep the far ends, and a port that has its far port keeps it.\<close>

definition mends :: "world \<Rightarrow> world \<Rightarrow> world \<Rightarrow> bool" where
  "mends T w w' \<longleftrightarrow> within T w' \<and> (\<forall>a i. live T a \<longrightarrow> i < length (conns T a) \<longrightarrow>
     conn_broker (conn w' a i) = conn_broker (conn w a i) \<and>
     (conn_source (conn w a i) = conn_source (conn T a i) \<longrightarrow>
      conn_source (conn w' a i) = conn_source (conn T a i)))"

lemma mends_refl: "within T w \<Longrightarrow> mends T w w"
  by (simp add: mends_def)

lemma mends_trans: "mends T u v \<Longrightarrow> mends T v w \<Longrightarrow> mends T u w"
  by (simp add: mends_def)

lemma mends_within: "mends T w w' \<Longrightarrow> within T w'"
  by (simp add: mends_def)

text \<open>Hearing at a port what the broker behind it says of itself, and losing the far end.\<close>

lemma conn_set_conn:
  "live w a \<Longrightarrow> i < length (conns w a) \<Longrightarrow>
   conn (set_conn a i f w) b j = (if b = a \<and> j = i then f (conn w a i) else conn w b j)"
  by (auto simp: conns_set_conn)

lemma within_set_conn:
  assumes w: "within T w" and i: "live T a" "i < length (conns T a)"
    and port: "port_within T (set_conn a i f w) a i"
  shows "within T (set_conn a i f w)"
proof -
  have "live w a" "i < length (conns w a)" using w i by (simp_all add: within_def)
  note new = conn_set_conn [OF this, of f]
  have "port_within T (set_conn a i f w) b j" if "live T b" "j < length (conns T b)" for b j
  proof (cases "b = a \<and> j = i")
    case False
    have "port_within T w b j" using w that by (simp add: within_def)
    with False show ?thesis unfolding port_within_def new by auto
  qed (use port in simp)
  then show ?thesis using w by (simp add: within_def frame_def)
qed

lemma within_heard:
  assumes w: "within T w" and i: "live T a" "i < length (conns T a)"
    and d: "conn_source d = conn_source (conn T a i) \<or> conn_source d = 0"
  shows "within T (set_conn a i (heard d) w)"
proof (rule within_set_conn [OF w i])
  have "live w a" "i < length (conns w a)" "port_within T w a i" using w i by (simp_all add: within_def)
  then show "port_within T (set_conn a i (heard d) w) a i"
    using d by (auto simp: port_within_def conn_set_conn heard_def)
qed

lemma mends_heard:
  assumes w: "within T w" and i: "live T a" "i < length (conns T a)"
    and d: "conn_source d = conn_source (conn T a i)"
  shows "mends T w (set_conn a i (heard d) w)"
proof -
  have "live w a" "i < length (conns w a)" using w i by (simp_all add: within_def)
  then show ?thesis using within_heard [OF w i] d
    by (auto simp: mends_def conn_set_conn heard_def)
qed

text \<open>A refresh at a port that works, and the loop over the ports of a broker.\<close>

definition mending :: "world \<Rightarrow> nat \<Rightarrow> refresh_call \<Rightarrow> bool" where
  "mending T n call \<longleftrightarrow> (\<forall>a d p w. within T w \<longrightarrow> live T a \<longrightarrow> unat p < length (conns T a) \<longrightarrow>
     p \<noteq> 0 \<longrightarrow> conn_source d = conn_source (conn T a (unat p)) \<longrightarrow>
     bounded n T a p \<longrightarrow> (\<exists>w'. call a d p w = Inr (True, w') \<and> mends T w w'))"

lemma announced_mends:
  assumes T: "settled T" and call: "mending T n (BrokerBase_refresh n)" and w: "within T w"
    and a: "live T a" and i: "0 < i" "i < length (conns T a)"
    and enough: "port_bounded n T a i"
  shows "\<exists>w'. announced (BrokerBase_refresh n) a p i w = Inr w' \<and> mends T w w'"
proof -
  have reg: "registered w a" using within_registered [OF w T a] .
  have within: "port_within T w a i" and live: "\<And>b. live w b = live T b"
    using w a i by (simp_all add: within_def)
  show ?thesis
  proof (cases "i = unat p \<or> Connection_broker w (conn w a i) = None")
    case True
    then show ?thesis using mends_refl [OF w]
      by (auto simp: announced_def introduction_registered [OF reg] Connection_refresh_def)
  next
    case False
    then obtain b where b: "Connection_broker w (conn w a i) = Some b" by auto
    then have bT: "conn_broker (conn T a i) = Some b" "live T b"
      using within live by (auto simp: Connection_broker_live port_within_def)
    define j where "j = conn_source (conn T a i)"
    have wired: "wired T" using T by (simp add: settled_iff)
    have j: "unat j < length (conns T b)" "conn_broker (conn T b (unat j)) = Some a"
      using wired_conn(3,4) [OF wired a i(2) bT(1)] by (simp_all add: j_def)
    have named: "conn_source (conn T b (unat j)) = of_nat i"
      using settled_live(3) [OF T a i(2)] bT(1) by (simp add: named_back_def j_def)
    have "j \<noteq> 0" using wired_conn(1) [OF wired bT(2) j] by auto
    have "Connection_broker T (conn T a i) = Some b" using bT by (simp add: Connection_broker_live)
    then have fuel: "bounded n T b j" using enough by (simp add: port_bounded_def j_def)
    then have "n \<noteq> 0" by (cases n) simp_all
    define d where "d = (Connection_to (Some a))\<lparr>conn_source := of_nat i, conn_version := Broker_clock w a,
        conn_sources := UpdateProvides (BrokerBase_sources w a (of_nat i))\<rparr>"
    have d: "conn_source d = conn_source (conn T b (unat j))" by (simp add: d_def named)
    have run: "announced (BrokerBase_refresh n) a p i w =
        andThen (BrokerBase_refresh n b d (conn_source (conn w a i)) w) (\<lambda>(_, w). Inr w)"
      using False b by (simp add: announced_def introduction_registered [OF reg] Connection_refresh_def d_def)
    show ?thesis
    proof (cases "conn_source (conn w a i) = 0")
      case True
      then have "BrokerBase_refresh n b d (conn_source (conn w a i)) w = Inr (False, w)"
        using \<open>n \<noteq> 0\<close> by (cases n) (simp_all add: Broker_refresh_def)
      then show ?thesis using run mends_refl [OF w] by simp
    next
      case False
      then have "conn_source (conn w a i) = j" using within by (simp add: port_within_def j_def)
      moreover obtain w' where "BrokerBase_refresh n b d j w = Inr (True, w')" "mends T w w'"
        using call w bT(2) j(1) \<open>j \<noteq> 0\<close> d fuel unfolding mending_def by metis
      ultimately show ?thesis using run by simp
    qed
  qed
qed

lemma refreshConnections_mends:
  assumes T: "settled T" and call: "mending T n (BrokerBase_refresh n)" and w: "within T w"
    and a: "live T a" and enough: "bounded (Suc n) T a p"
  shows "\<exists>w'. Broker_refreshConnections (BrokerBase_refresh n) a p w = Inr w' \<and> mends T w w'"
proof -
  have "wired T" using T by (simp add: settled_iff)
  note ports = bounded_ports [OF this a, of n p]
  have len: "length (conns w a) = length (conns T a)" using w a by (simp add: within_def)
  have "\<exists>t. forEach [1..<length (conns T a)] (announced (BrokerBase_refresh n) a p) w = Inr t \<and> mends T w t"
  proof (rule forEach_total)
    fix i v assume i: "i \<in> set [1..<length (conns T a)]" and v: "mends T w v"
    show "\<exists>v'. announced (BrokerBase_refresh n) a p i v = Inr v' \<and> mends T w v'"
    proof (cases "i = unat p")
      case True
      then show ?thesis using v by (simp add: announced_def)
    next
      case False
      have "0 < i" "i < length (conns T a)" using i by auto
      then have "port_bounded n T a i" using False ports enough by blast
      then show ?thesis
        using announced_mends [OF T call mends_within [OF v] a, of i p] i mends_trans [OF v] by auto
    qed
  qed (rule mends_refl [OF w])
  then show ?thesis by (simp add: refreshConnections_announced len)
qed

lemma refresh_mends:
  assumes T: "settled T"
  shows "mending T n (BrokerBase_refresh n)"
proof (induction n)
  case 0
  show ?case by (simp add: mending_def)
next
  case (Suc n)
  show ?case unfolding mending_def
  proof (intro allI impI)
    fix a w and d :: connection and p :: source
    assume w: "within T w" "live T a" and p: "unat p < length (conns T a)" "p \<noteq> 0"
      and d: "conn_source d = conn_source (conn T a (unat p))"
      and enough: "bounded (Suc n) T a p"
    have u: "mends T w (set_conn a (unat p) (heard d) w)" by (rule mends_heard [OF w p(1) d])
    obtain w' where "Broker_refreshConnections (BrokerBase_refresh n) a p
        (set_conn a (unat p) (heard d) w) = Inr w'" "mends T w w'"
      using refreshConnections_mends [OF T Suc.IH mends_within [OF u] w(2) enough] mends_trans [OF u] by blast
    moreover have "length (conns w a) = length (conns T a)" using w by (simp add: within_def)
    ultimately show "\<exists>w'. BrokerBase_refresh (Suc n) a d p w = Inr (True, w') \<and> mends T w w'"
      using p by (auto simp: Broker_refresh_def heard_def [abs_def])
  qed
qed

section \<open>Parting\<close>

lemma within_refl: "within w w"
  by (simp add: within_def port_within_def)

lemma within_cut:
  assumes w: "within T w" and i: "live T a" "i < length (conns T a)"
  shows "within T (set_conn a i Connection_reset w)"
proof (rule within_set_conn [OF w i])
  have "live w a" "i < length (conns w a)" "port_within T w a i" using w i by (simp_all add: within_def)
  then show "port_within T (set_conn a i Connection_reset w) a i"
    by (simp add: port_within_def conn_set_conn)
qed

text \<open>A broker that is told that its neighbour leaves passes the news on, and keeps the connection.\<close>

lemma refresh_shuts:
  assumes T: "settled T" and w: "within T w" and b: "live T b" "unat p < length (conns T b)" "p \<noteq> 0"
    and enough: "bounded n T b p"
  shows "\<exists>w'. BrokerBase_refresh n b Connection_none p w = Inr (True, w') \<and> within T w' \<and>
    (\<forall>x i. live T x \<longrightarrow> i < length (conns T x) \<longrightarrow> conn_broker (conn w' x i) = conn_broker (conn w x i))"
proof -
  obtain m where n: "n = Suc m" using enough by (cases n) simp_all
  define u where "u = set_conn b (unat p) (heard Connection_none) w"
  have len: "length (conns w b) = length (conns T b)" "live w b" using w b by (simp_all add: within_def)
  have u: "within T u" unfolding u_def by (rule within_heard [OF w b(1,2)]) (simp add: Connection_none_def)
  have brokers: "conn_broker (conn u x i) = conn_broker (conn w x i)" for x i
    using len b(2) by (simp add: u_def conn_set_conn heard_def)
  obtain w' where "Broker_refreshConnections (BrokerBase_refresh m) b p u = Inr w'" "mends T u w'"
    using refreshConnections_mends [OF T refresh_mends [OF T] u b(1)] enough n by blast
  moreover from this have "BrokerBase_refresh n b Connection_none p w = Inr (True, w')"
    using b(2,3) len by (simp add: n Broker_refresh_def u_def heard_def [abs_def])
  ultimately show ?thesis by (auto simp: mends_def brokers)
qed

lemma disconnect_total:
  assumes w: "settled w" and a: "live w a" "unat p < length (conns w a)"
    and b: "conn_broker (conn w a (unat p)) = Some b"
    and enough: "bounded n w b (conn_source (conn w a (unat p)))" "bounded (Suc n) w a p"
  shows "\<exists>w'. Broker_disconnect n a p w = Inr (p, w') \<and> within w w' \<and>
    (\<forall>x i. live w x \<longrightarrow> i < length (conns w x) \<longrightarrow> conn_broker (conn w' x i) =
       (if x = a \<and> i = unat p then None else conn_broker (conn w x i)))"
proof -
  have wired: "wired w" using w by (simp add: settled_iff)
  note far = wired_conn [OF wired a b]
  define j where "j = conn_source (conn w a (unat p))"
  have j: "unat j < length (conns w b)" "j \<noteq> 0"
    using far wired_conn(1) [OF wired far(2,3,4)] by (auto simp: j_def)
  obtain v where v: "BrokerBase_refresh n b Connection_none j w = Inr (True, v)" "within w v"
    and v_broker: "\<And>x i. live w x \<Longrightarrow> i < length (conns w x) \<Longrightarrow>
      conn_broker (conn v x i) = conn_broker (conn w x i)"
    using refresh_shuts [OF w within_refl far(2) j] enough(1) j_def by blast
  define u where "u = set_conn a (unat p) Connection_reset v"
  have u: "within w u" unfolding u_def by (rule within_cut [OF v(2) a])
  obtain w' where w': "Broker_refreshConnections (BrokerBase_refresh n) a p u = Inr w'" "mends w u w'"
    using refreshConnections_mends [OF w refresh_mends [OF w] u a(1) enough(2)] by blast
  have "live v a" "unat p < length (conns v a)" using v(2) a by (simp_all add: within_def)
  then have u_broker: "conn_broker (conn u x i) = (if x = a \<and> i = unat p then None else conn_broker (conn v x i))"
    for x i by (simp add: u_def conn_set_conn)
  have "Connection_broker w (conn w a (unat p)) = Some b"
    using far(2) b by (simp add: Connection_broker_live)
  then have "Broker_disconnect n a p w = Inr (p, w')"
    using a v(1) w'(1)
    by (simp add: Broker_disconnect_def Connection_disconnect_def Connection_valid_def
        u_def flip: j_def)
  then show ?thesis using w'(2) u_broker v_broker by (auto simp: mends_def)
qed

section \<open>Joining\<close>

text \<open>The network with one more connection, between new ports of \<open>a\<close> and \<open>b\<close>.\<close>

definition new_port :: "world \<Rightarrow> addr \<Rightarrow> source" where
  "new_port w a = of_nat (length (conns w a))"

definition joined :: "addr \<Rightarrow> addr \<Rightarrow> world \<Rightarrow> world" where
  "joined a b w =
     push_conn b ((Connection_to (Some a))\<lparr>conn_source := new_port w a\<rparr>)
       (push_conn a ((Connection_to (Some b))\<lparr>conn_source := new_port w b\<rparr>) w)"

lemma live_joined [simp]: "live (joined a b w) x = live w x"
  by (simp add: joined_def)

lemma conns_joined:
  assumes "a \<noteq> b" and "live w a" and "live w b"
  shows "conns (joined a b w) x =
    (if x = a then conns w a @ [(Connection_to (Some b))\<lparr>conn_source := new_port w b\<rparr>]
     else if x = b then conns w b @ [(Connection_to (Some a))\<lparr>conn_source := new_port w a\<rparr>]
     else conns w x)"
  using assms by (simp add: joined_def conns_push)

lemma joined_settled:
  assumes w: "settled w" and ab: "a \<noteq> b" "live w a" "live w b"
    and room: "length (conns w a) < 2 ^ 32" "length (conns w b) < 2 ^ 32"
  shows "settled (joined a b w)"
proof -
  let ?T = "joined a b w"
  note new = conns_joined [OF ab]
  have wired: "wired w" using w by (simp add: settled_iff)
  have front: "conns w x \<noteq> []" if "live w x" for x using wired_live(1) [OF wired that] .
  have port: "unat (new_port w x) = length (conns w x)" if "x = a \<or> x = b" for x
    using that room by (auto simp: new_port_def unat_port)
  have old: "conn ?T x i = conn w x i" if "i < length (conns w x)" for x i
    using that by (auto simp: new nth_append)
  have fine: "well_connected ?T x i \<and> named_back ?T x i" if x: "live w x" and i: "i < length (conns ?T x)" for x i
  proof (cases "i < length (conns w x)")
    case True
    show ?thesis
    proof (cases "conn_broker (conn w x i)")
      case (Some y)
      note far = wired_conn [OF wired x True Some]
      have "named_back w x i" using settled_live(3) [OF w x True] .
      moreover have "length (conns w y) \<le> length (conns ?T y)" by (simp add: new)
      ultimately show ?thesis using far Some old [OF True] old [OF far(3)]
        by (simp add: well_connected_def named_back_def)
    qed (simp add: well_connected_def named_back_def old [OF True])
  next
    case False
    define y where "y = (if x = a then b else a)"
    have y: "live w y" "y = a \<or> y = b" "x = a \<or> x = b" "i = length (conns w x)"
      "conn ?T x i = (Connection_to (Some y))\<lparr>conn_source := new_port w y\<rparr>"
      "conn ?T y (length (conns w y)) = (Connection_to (Some x))\<lparr>conn_source := new_port w x\<rparr>"
      using False i ab by (auto simp: new y_def nth_append split: if_splits)
    then show ?thesis using front [OF x] ab(1) port [of y]
      by (auto simp: well_connected_def named_back_def Connection_to_def new_port_def new y_def)
  qed
  have "registered ?T x" if "live w x" for x
    using that settled_live(1) [OF w] by (simp add: joined_def)
  moreover have "length (conns ?T x) \<le> 2 ^ 32" if "live w x" for x
    using settled_live(2) [OF w that] room by (simp add: new)
  ultimately show ?thesis using fine front
    by (auto simp: settled_iff wired_iff new)
qed

text \<open>The calls of the exchange return when the walks of the network are bounded.\<close>

lemma query_total: "bounded n w a s \<Longrightarrow> \<exists>es. BrokerBase_query n w a c s = Inr es"
proof (induction n arbitrary: a s)
  case (Suc n)
  have "\<exists>es. Broker_query (BrokerBase_query n) w a c s = Inr es"
  proof (cases "find (\<lambda>i. \<not> (i = unat s \<or> conn_sources (conn w a i) = om_empty)
      \<and> Connection_valid w (conn w a i)) [1..<length (conns w a)]")
    case None
    then show ?thesis by (simp add: Broker_query_def)
  next
    case (Some i)
    then have i: "i < length (conns w a)" "i \<noteq> unat s" "Connection_valid w (conn w a i)"
      by (auto simp: find_Some_iff)
    then obtain b where b: "Connection_broker w (conn w a i) = Some b"
      by (auto simp: Connection_valid_def)
    then have "bounded n w b (conn_source (conn w a i))"
      using Suc.prems i by (fastforce simp: list_all_iff)
    from Suc.IH [OF this] show ?thesis using Some b by (simp add: Broker_query_def Connection_query_def)
  qed
  then show ?case by simp
qed simp

lemma insert_all_total:
  assumes "bounded n w a s"
  shows "\<exists>c w'. BrokerBase_insert_all n a es s w = Inr (c, w') \<and> same_net w w'"
proof -
  have "\<exists>t. forEach es (\<lambda>e w. andThen (BrokerBase_insert n a e s w) (\<lambda>(_, w). Inr w)) w = Inr t \<and> same_net w t"
  proof (rule forEach_total)
    fix e v assume v: "same_net w v"
    then have "bounded n v a s" using assms bounded_wiring [of w v n a s] by (simp add: same_net_def)
    then obtain r u where u: "BrokerBase_insert n a e s v = Inr (r, u)" using insert_total_bounded by blast
    then show "\<exists>u. andThen (BrokerBase_insert n a e s v) (\<lambda>(_, w). Inr w) = Inr u \<and> same_net w u"
      using nets.insert [OF u] same_net_trans [OF v] by simp
  qed simp
  then show ?thesis by (auto simp: BrokerBase_insert_all_def)
qed

lemma exchange_total:
  assumes z: "settled z" and a: "live z a" "unat p < length (conns z a)"
    and b: "Connection_broker z (conn z a (unat p)) = Some b"
    and enough: "bounded n z a p" "bounded n z b (conn_source (conn z a (unat p)))"
  shows "\<exists>w'. Broker_exchange n a p z = Inr w' \<and> same_net z w'"
proof -
  have later: "settled v \<and> live v a \<and> bounded n v a p \<and> bounded (Suc n) v a p \<and>
      Connection_broker v (conn v a (unat p)) = Some b \<and>
      bounded n v b (conn_source (conn v a (unat p)))" if "same_net z v" for v
  proof -
    have wires: "wiring z = wiring v" using that by (simp add: same_net_def)
    show ?thesis
      using same_net_settled [OF that z] wiring_live [OF wires, of a] a b enough bounded_mono
        wiring_Connection_broker [OF wires a(2)] bounded_wiring [OF wires]
      by (simp del: bounded.simps)
  qed
  obtain es where es: "BrokerBase_query n z a (conn_version (conn z a (unat p))) p = Inr es"
    using query_total enough(1) by blast
  obtain fs where fs: "Connection_query (BrokerBase_query n) z (conn z a (unat p)) (Broker_clock z a) = Inr fs"
    using query_total [OF enough(2)] b by (auto simp: Connection_query_def)
  obtain u where u: "(if fs = [] then Inr z
      else andThen (BrokerBase_insert_all n a fs p z) (\<lambda>(_, w). Inr w)) = Inr u" "same_net z u"
    using insert_all_total [OF enough(1), of fs] by (cases "fs = []") auto
  have "\<exists>v. (if es = [] then Inr u
      else andThen (Connection_insert_all n a (unat p) es u) (\<lambda>(_, w). Inr w)) = Inr v"
    using later [OF u(2)] insert_all_total [of n u b "conn_source (conn u a (unat p))" es]
    by (auto simp: Connection_insert_all_def)
  then obtain v where v: "(if es = [] then Inr u
      else andThen (Connection_insert_all n a (unat p) es u) (\<lambda>(_, w). Inr w)) = Inr v" ..
  then have zv: "same_net z v"
    using same_net_trans [OF u(2)] u(2)
    by (auto simp: cashmere_errors split: if_splits dest: same_net_insert_through)
  obtain w' where "Broker_refreshConnections (BrokerBase_refresh n) a p v = Inr w'" "same_net v w'"
    using refreshConnections_bounded [OF refresh_announces, of v a n p] later [OF zv] by blast
  then show ?thesis using es fs u(1) v same_net_trans [OF zv] by (simp add: Broker_exchange_def)
qed

text \<open>The handshake. When the called broker has its port and the caller's port still has no far port,
  the network lies within the joined one; the answer completes it.\<close>

definition half_joined :: "addr \<Rightarrow> addr \<Rightarrow> connection \<Rightarrow> world \<Rightarrow> world" where
  "half_joined a b c w = push_conn b c (push_conn a (Connection_to (Some b)) w)"

lemma half_joined_within:
  assumes ab: "a \<noteq> b" "live w a" "live w b" and c: "ends c = (Some a, new_port w a)"
  shows "within (joined a b w) (half_joined a b c w)"
    and "live w x \<Longrightarrow> i < length (conns (joined a b w) x) \<Longrightarrow> \<not> (x = a \<and> i = length (conns w a)) \<Longrightarrow>
      ends (conn (half_joined a b c w) x i) = ends (conn (joined a b w) x i)"
    and "ends (conn (half_joined a b c w) a (length (conns w a))) = (Some b, 0)"
proof -
  let ?T = "joined a b w" and ?x = "half_joined a b c w"
  note new = conns_joined [OF ab]
  have half: "conns ?x y = (if y = a then conns w a @ [Connection_to (Some b)]
      else if y = b then conns w b @ [c] else conns w y)" for y
    using ab by (simp add: half_joined_def conns_push)
  have length: "length (conns ?x y) = length (conns ?T y)" for y by (simp add: new half)
  show own: "ends (conn ?x a (length (conns w a))) = (Some b, 0)"
    by (simp add: half ends_def Connection_to_def)
  show other: "ends (conn ?x y i) = ends (conn ?T y i)"
    if "i < length (conns ?T y)" "\<not> (y = a \<and> i = length (conns w a))" for y i
    using that c ab(1)
    by (auto simp: new half nth_append ends_def Connection_to_def less_Suc_eq split: if_splits)
  have "port_within ?T ?x y i" if i: "i < length (conns ?T y)" for y i
  proof (cases "y = a \<and> i = length (conns w a)")
    case True
    then show ?thesis using own by (simp add: port_within_def ends_def new Connection_to_def)
  next
    case False
    then show ?thesis using other [OF i] by (simp add: port_within_def ends_def)
  qed
  then show "within ?T ?x"
    using length by (simp add: within_def joined_def half_joined_def frame_def)
qed

lemma same_state_push: "conns w a \<noteq> [] \<Longrightarrow> same_state w (push_conn a c w)"
  by (cases "conns w a") (auto simp: same_state_def frame_def Broker_clock_def conns_push)

lemma same_state_trans: "same_state u v \<Longrightarrow> same_state v w \<Longrightarrow> same_state u w"
  by (rule quiet.trans)

lemma connect_steps:
  assumes w: "settled w" and ab: "a \<noteq> b" "live w a" "live w b"
    and room: "length (conns w a) < 2 ^ 32" "length (conns w b) < 2 ^ 32"
    and enough: "bounded n (joined a b w) b (new_port w b)"
  obtains m c x y other z where "n = Suc m" and "x = half_joined a b c w" and "ends c = (Some a, new_port w a)"
    and "conn_sources c = learn (Broker_clock w b)
      (UpdateProvides (BrokerBase_sources (push_conn a (Connection_to (Some b)) w) a (new_port w a)))"
    and "same_state w x" and "Broker_refreshConnections (BrokerBase_refresh m) b (new_port w b) x = Inr y"
    and "mends (joined a b w) x y" and "conn_source other = new_port w b"
    and "conn_sources other = UpdateProvides (BrokerBase_sources y b (new_port w b))"
    and "z = set_conn a (length (conns w a)) (heard other) y"
    and "BrokerBase_connect (Suc n) a (Connection_to (Some b)) w =
      andThen (Broker_exchange n a (new_port w a) z)
        (\<lambda>w'. Inr ((Connection_to (Some a))\<lparr>conn_source := new_port w a\<rparr>, w'))"
    and "same_net (joined a b w) z" and "same_state w z"
    and "conn_version (conn z a (length (conns w a))) = Broker_clock w b"
proof -
  define T where "T = joined a b w"
  define len where "len = length (conns w a)"
  obtain m where n: "n = Suc m" using enough by (cases n) simp_all
  have T: "settled T" unfolding T_def by (rule joined_settled [OF w ab room])
  have wired: "wired w" using w by (simp add: settled_iff)
  have front: "conns w a \<noteq> []" "conns w b \<noteq> []" using wired_live(1) [OF wired] ab by simp_all
  have port: "unat (new_port w a) = len" "new_port w a \<noteq> 0"
    using room(1) front(1) unat_port [of len] by (auto simp: new_port_def len_def)
  define u where "u = push_conn a (Connection_to (Some b)) w"
  have u: "live u a" "live u b" "length (conns u a) = Suc len" "conn u a len = Connection_to (Some b)"
    "conns u b = conns w b" "registered u a" "registered u b" "same_state w u"
    using ab settled_live(1) [OF w] same_state_push [OF front(1)] by (simp_all add: u_def conns_push len_def)
  define d where "d = (Connection_to (Some a))\<lparr>conn_source := new_port w a, conn_version := Broker_clock u a,
      conn_sources := UpdateProvides (BrokerBase_sources u a (new_port w a))\<rparr>"
  define c where "c = d\<lparr>conn_sources := learn (Broker_clock u b) (conn_sources d)\<rparr>"
  define x where "x = push_conn b c u"
  have x: "x = half_joined a b c w" by (simp add: x_def u_def half_joined_def)
  have c: "ends c = (Some a, new_port w a)" by (simp add: c_def d_def ends_def Connection_to_def)
  note half = half_joined_within [OF ab c, folded T_def x]
  obtain y where y: "Broker_refreshConnections (BrokerBase_refresh m) b (new_port w b) x = Inr y" "mends T x y"
    using refreshConnections_mends [OF T refresh_mends [OF T] half(1), of b m "new_port w b"] ab(3) enough n
    by (auto simp: T_def)
  define other where "other = (Connection_to (Some b))\<lparr>conn_source := new_port w b,
      conn_version := Broker_clock u b, conn_sources := UpdateProvides (BrokerBase_sources y b (new_port w b))\<rparr>"
  have answer: "BrokerBase_connect n b d u = Inr (other, y)"
    using y(1) port(2) u(5)
    by (simp add: n Broker_connect_def Broker_connect_in_def stub_registered [OF u(7)] other_def x_def c_def
        new_port_def d_def Let_def)
  define z where "z = set_conn a len (heard other) y"
  have far: "Connection_broker u (conn u a len) = Some b"
    using u(2,4) by (simp add: Connection_broker_live Connection_to_def)
  have valid: "Connection_valid w (Connection_to (Some b))"
    using ab(3) by (simp add: Connection_valid_def Connection_broker_live Connection_to_def)
  have "Broker_connect_out (BrokerBase_connect n) n a (Connection_to (Some b)) w =
      (if length (conns u a) \<le> unat (new_port w a) then Inl Out_of_range
       else let (data, v) = introduction a (new_port w a) u in
         andThen (Connection_connect (BrokerBase_connect n) a (unat (new_port w a)) data v) (\<lambda>w'.
         andThen (Broker_exchange n a (new_port w a) w') (\<lambda>w'.
         Inr ((Connection_to (Some a))\<lparr>conn_source := new_port w a\<rparr>, w'))))"
    using valid by (simp add: Broker_connect_out_def stub_registered [OF settled_live(1) [OF w ab(2)]]
        Let_def u_def new_port_def)
  also have "introduction a (new_port w a) u = (d, u)"
    unfolding d_def by (rule introduction_registered [OF u(6)])
  finally have run: "BrokerBase_connect (Suc n) a (Connection_to (Some b)) w =
      andThen (Broker_exchange n a (new_port w a) z)
        (\<lambda>w'. Inr ((Connection_to (Some a))\<lparr>conn_source := new_port w a\<rparr>, w'))"
    using far answer port u(3)
    by (simp add: Broker_connect_def Connection_connect_def z_def heard_def [abs_def]) (simp add: Connection_to_def)
  have y_live: "live y a" "len < length (conns y a)"
    using mends_within [OF y(2)] ab(2) conns_joined [OF ab] by (simp_all add: within_def T_def len_def)
  have new: "conn T a len = (Connection_to (Some b))\<lparr>conn_source := new_port w b\<rparr>"
    "live T a" "len < length (conns T a)"
    using ab by (simp_all add: T_def conns_joined len_def nth_append)
  have z: "within T z" unfolding z_def
    by (rule within_heard [OF mends_within [OF y(2)] new(2,3)])
      (simp add: new(1) other_def Connection_to_def)
  have ends_y: "ends (conn y r i) = ends (conn T r i)"
    if "live T r" "i < length (conns T r)" "\<not> (r = a \<and> i = len)" for r i
    using y(2) half(2) [of r i] that by (simp add: mends_def ends_def T_def len_def)
  have "conn_broker (conn y a len) = Some b"
    using y(2) half(3) new(2,3) by (simp add: mends_def ends_def len_def)
  then have "ends (conn z r i) = ends (conn T r i)" if "live T r" "i < length (conns T r)" for r i
    using ends_y [OF that] new(1) y_live
    by (auto simp: z_def conn_set_conn heard_def ends_def other_def Connection_to_def)
  then have "same_net T z"
    by (rule within_complete [OF z])
  moreover have state_x: "same_state w x"
  proof -
    have "same_state u x" unfolding x_def using front(2) u(5) by (intro same_state_push) simp
    then show ?thesis using u(8) same_state_trans by blast
  qed
  moreover have "same_state w z"
  proof -
    have "same_state x y" using y(1) by (rule quiet.refreshConnections)
    moreover have "same_state y z"
      using quiet.told [OF port(2), of y a other] by (simp add: z_def port(1))
    ultimately show ?thesis using state_x same_state_trans by blast
  qed
  moreover have "conn_version (conn z a len) = Broker_clock w b"
    using y_live u(8) ab(3) by (simp add: z_def conn_set_conn heard_def other_def same_state_def)
  moreover have "Broker_clock u b = Broker_clock w b" using u(8) ab(3) by (simp add: same_state_def)
  ultimately show thesis
    using that [OF n x c _ _ y(1) _ _ _ z_def [unfolded len_def]] run y(2)
    by (simp add: T_def len_def c_def d_def other_def u_def)
qed

lemma connect_handshake:
  assumes "settled w" and "a \<noteq> b" and "live w a" and "live w b"
    and "length (conns w a) < 2 ^ 32" and "length (conns w b) < 2 ^ 32"
    and "bounded n (joined a b w) b (new_port w b)"
  shows "\<exists>z. BrokerBase_connect (Suc n) a (Connection_to (Some b)) w =
      andThen (Broker_exchange n a (new_port w a) z)
        (\<lambda>w'. Inr ((Connection_to (Some a))\<lparr>conn_source := new_port w a\<rparr>, w')) \<and>
    same_net (joined a b w) z \<and> same_state w z \<and>
    conn_version (conn z a (length (conns w a))) = Broker_clock w b"
  by (rule connect_steps [OF assms]) blast

lemma joined_far:
  assumes "a \<noteq> b" and "live w a" and "live w b" and z: "same_net (joined a b w) z"
  shows "length (conns w a) < length (conns z a)"
    and "Connection_broker z (conn z a (length (conns w a))) = Some b"
    and "conn_source (conn z a (length (conns w a))) = new_port w b"
proof -
  have wires: "wiring z = wiring (joined a b w)" using z by (simp add: same_net_def)
  note new = conns_joined [OF assms(1-3)]
  show len: "length (conns w a) < length (conns z a)"
    using wiring_length [OF wires, of a] by (simp add: new)
  have "Connection_broker (joined a b w) (conn (joined a b w) a (length (conns w a))) = Some b"
    using assms(3) by (simp add: new Connection_broker_live Connection_to_def)
  then show "Connection_broker z (conn z a (length (conns w a))) = Some b"
    using wiring_Connection_broker(1) [OF wires len] by simp
  show "conn_source (conn z a (length (conns w a))) = new_port w b"
    using wiring_Connection_broker(2) [OF wires len] by (simp add: new)
qed

lemma connect_total:
  assumes w: "settled w" and ab: "a \<noteq> b" "live w a" "live w b"
    and room: "length (conns w a) < 2 ^ 32" "length (conns w b) < 2 ^ 32"
    and enough: "bounded n (joined a b w) a (new_port w a)" "bounded n (joined a b w) b (new_port w b)"
  obtains z w' where "same_net (joined a b w) z" and "same_state w z"
    and "conn_version (conn z a (length (conns w a))) = Broker_clock w b"
    and "Broker_exchange n a (new_port w a) z = Inr w'" and "same_net z w'"
    and "BrokerBase_connect (Suc n) a (Connection_to (Some b)) w =
      Inr ((Connection_to (Some a))\<lparr>conn_source := new_port w a\<rparr>, w')"
proof -
  obtain z where z: "same_net (joined a b w) z" "same_state w z"
      "conn_version (conn z a (length (conns w a))) = Broker_clock w b"
    and run: "BrokerBase_connect (Suc n) a (Connection_to (Some b)) w =
      andThen (Broker_exchange n a (new_port w a) z)
        (\<lambda>w'. Inr ((Connection_to (Some a))\<lparr>conn_source := new_port w a\<rparr>, w'))"
    using connect_handshake [OF w ab room enough(2)] by blast
  have settled: "settled z" by (rule same_net_settled [OF z(1) joined_settled [OF w ab room]])
  have live: "live z a" using z(2) ab(2) by (simp add: same_state_def)
  note far = joined_far [OF ab z(1)]
  have port: "unat (new_port w a) = length (conns w a)" using room(1) by (simp add: new_port_def unat_port)
  have "bounded n z x p = bounded n (joined a b w) x p" for x p
    using z(1) bounded_wiring [of z "joined a b w"] by (simp add: same_net_def)
  then obtain w' where "Broker_exchange n a (new_port w a) z = Inr w'" "same_net z w'"
    using exchange_total [OF settled live, of "new_port w a" b n] far enough by (auto simp: port)
  then show thesis using that [OF z] run by simp
qed

section \<open>Theorems\<close>

text \<open>C6: \<open>connect\<close> joins networks: called with another broker in a settled network in which the walks
  stay bounded with the new connection, it returns the caller's new port, and the result is the
  settled network with one more connection, whose ends are the next free ports of the two brokers
  and name each other.\<close>

theorem connect_joins:
  assumes "settled w" and "a \<noteq> b" and "live w a" and "live w b"
    and "length (conns w a) < 2 ^ 32" and "length (conns w b) < 2 ^ 32"
    and "bounded n (joined a b w) a (new_port w a)" and "bounded n (joined a b w) b (new_port w b)"
  shows "\<exists>w'. BrokerBase_connect (Suc n) a (Connection_to (Some b)) w =
      Inr ((Connection_to (Some a))\<lparr>conn_source := new_port w a\<rparr>, w') \<and>
    wiring w' = wiring (joined a b w) \<and> settled w'"
proof (rule connect_total [OF assms])
  fix z w'
  assume "same_net (joined a b w) z" "same_net z w'"
  then have net: "same_net (joined a b w) w'" by (rule same_net_trans)
  then have "settled w'" by (rule same_net_settled [OF _ joined_settled [OF assms(1-6)]])
  moreover assume "BrokerBase_connect (Suc n) a (Connection_to (Some b)) w =
      Inr ((Connection_to (Some a))\<lparr>conn_source := new_port w a\<rparr>, w')"
  ultimately show ?thesis using net by (auto simp: same_net_def)
qed

text \<open>Two hubs that do not know each other.\<close>

definition strangers :: world where
  "strangers = world_of [member Hub 1 om_empty [] om_empty, member Hub 2 om_empty [] om_empty]"

lemma strangers_wired: "wired strangers"
  by (simp add: eval_simps sample_simps strangers_def)

lemma strangers_settled: "settled strangers"
  using strangers_wired
  by (simp add: settled_def) (simp add: eval_simps sample_simps strangers_def registered_def named_back_def)

theorem connect_joins_witness:
  "\<exists>w'. BrokerBase_connect 3 0 (Connection_to (Some 1)) strangers =
      Inr ((Connection_to (Some 0))\<lparr>conn_source := 1\<rparr>, w') \<and> settled w'"
proof -
  have "live strangers 0" "live strangers 1" "new_port strangers 0 = 1" "new_port strangers 1 = 1"
    "length (conns strangers 0) < 2 ^ 32" "length (conns strangers 1) < 2 ^ 32"
    by (simp_all add: eval_simps sample_simps strangers_def new_port_def)
  moreover have "bounded 2 (joined 0 1 strangers) 0 1" "bounded 2 (joined 0 1 strangers) 1 1"
    by (simp_all add: eval_simps sample_simps strangers_def new_port_def joined_def numeral_2_eq_2)
  ultimately show ?thesis using connect_joins [OF strangers_settled, of 0 1 2] by (auto simp: numeral_3_eq_3)
qed



end
