(* ===== verification/Syncing.thy ===== *)
theory Syncing
  imports Connecting
begin

text \<open>
  What \<open>connect\<close> does to the contents of the networks it joins. A new journal is brought up to date
  when its peer lists its entries in an order in which each is the next of its device; the list is
  ordered by clock, not by that, so entries can be lost. The last section follows two hubs that
  part and join again.
\<close>

section \<open>An entry list in causal order\<close>

text \<open>Each entry is the next of its device when the ones before it have been merged.\<close>

fun causal :: "clock \<Rightarrow> entry list \<Rightarrow> bool" where
  "causal c [] = True"
| "causal c (e # es) \<longleftrightarrow> Clock_isNext (entry_clock e) c (data_id (entry_data e)) \<and>
     causal (Clock_merge c (entry_clock e)) es"

text \<open>The entries that a journal with the given clock takes, of a list that it is handed.\<close>

fun taken :: "clock \<Rightarrow> entry list \<Rightarrow> entry list" where
  "taken c [] = []"
| "taken c (e # es) =
     (if Clock_isNext (entry_clock e) c (data_id (entry_data e))
      then e # taken (Clock_merge c (entry_clock e)) es else taken c es)"

lemma causal_taken: "causal c es \<Longrightarrow> taken c es = es"
  by (induction c es rule: causal.induct) simp_all

definition merged :: "clock \<Rightarrow> entry list \<Rightarrow> clock" where
  "merged c es = fold (\<lambda>e c. Clock_merge c (entry_clock e)) es c"

definition put_all :: "entry list \<Rightarrow> (clock, data) omap \<Rightarrow> (clock, data) omap" where
  "put_all es m = fold (\<lambda>e. om_put (entry_clock e) (entry_data e)) es m"

lemma causal_clock: "causal c es \<Longrightarrow> e \<in> set es \<Longrightarrow> entry_clock e \<noteq> om_empty"
  by (induction c es rule: causal.induct) (auto simp: Clock_isNext_def split: option.splits)

lemma find_put_all:
  "distinct (map entry_clock es) \<Longrightarrow>
   om_find (put_all es m) k =
     (case map_of (map (\<lambda>e. (entry_clock e, entry_data e)) es) k of None \<Rightarrow> om_find m k | Some d \<Rightarrow> Some d)"
proof (induction es arbitrary: m)
  case (Cons e es)
  have "map_of (map (\<lambda>e. (entry_clock e, entry_data e)) es) (entry_clock e) = None"
    using Cons.prems by (auto simp: map_of_eq_None_iff)
  then show ?case using Cons by (auto simp: put_all_def split: option.split)
qed (simp add: put_all_def)

definition listed :: "(clock, data) omap \<Rightarrow> entry list" where
  "listed es = map (\<lambda>(c, d). \<lparr>entry_clock = c, entry_data = d\<rparr>) (entries es)"

lemma put_all_listed: "put_all (listed es) om_empty = es"
proof (rule om_eqI)
  fix k
  have clocks: "map entry_clock (listed es) = map fst (entries es)"
    by (simp add: listed_def split_def)
  have "map (\<lambda>e. (entry_clock e, entry_data e)) (listed es) = entries es"
    by (simp add: listed_def split_def comp_def)
  then show "om_find (put_all (listed es) om_empty) k = om_find es k"
    using find_put_all [of "listed es" om_empty k] clocks
    by (simp add: om_find_def [of es] split: option.split)
qed

section \<open>Entries arriving at the only port of a cache\<close>

text \<open>A cache with one port besides the front takes what arrives there and passes nothing on.\<close>

definition single :: "world \<Rightarrow> addr \<Rightarrow> bool" where
  "single w a \<longleftrightarrow> live w a \<and> b_kind (broker_at w a) = Cache \<and> length (conns w a) = 2 \<and>
     conn_broker (conn w a 0) = None"

lemma single_same_net: "same_net w w' \<Longrightarrow> single w a \<Longrightarrow> single w' a"
  using wiring_live [of w' w a] wiring_kind [of w' w a] wiring_length [of w' w a] wiring_ends(1) [of w' w a 0]
  by (auto simp: single_def same_net_def)

lemma single_insert:
  assumes a: "single w a" and isNext: "Clock_isNext (entry_clock e) (Broker_clock w a) (data_id (entry_data e))"
    and new: "om_find (b_entries (broker_at w a)) (entry_clock e) = None"
  obtains w' where "BrokerBase_insert (Suc n) a e 1 w = Inr (Clock_merge (Broker_clock w a) (entry_clock e), w')"
    and "same_net w w'"
    and "\<And>b. Broker_clock w' b = (if b = a then Clock_merge (Broker_clock w a) (entry_clock e) else Broker_clock w b)"
    and "\<And>b. b_entries (broker_at w' b) = (if b = a then om_put (entry_clock e) (entry_data e) (b_entries (broker_at w a))
       else b_entries (broker_at w b))"
proof -
  define v where "v = set_broker a (\<lambda>b. b\<lparr>b_entries := om_put (entry_clock e) (entry_data e) (b_entries b)\<rparr>) w"
  have save: "BrokerBase_save a e w = (True, v)"
    using a new by (simp add: single_def BrokerBase_save_def Journal_save_def v_def)
  have conns: "conns v b = conns w b" for b using save by (rule conns_save)
  have range: "[0..<length (conns v a)] = [0, 1]" using a by (simp add: single_def conns upt_rec)
  have "forwarded call a e 1 0 (acknowledged a e 1 v) = Inr (acknowledged a e 1 v)" for call
  proof -
    have "conn_broker (conn (acknowledged a e 1 v) a 0) = None"
      using wiring_ends(1) [OF wiring_acknowledged, of a e 1 v a 0] a by (auto simp: single_def conns)
    then show ?thesis by (simp add: forwarded_def Connection_insert_def Connection_broker_def)
  qed
  then have insert: "Broker_insert call a e 1 v =
      Inr (Broker_clock (acknowledged a e 1 v) a, acknowledged a e 1 v)" for call
    using a range by (subst Broker_insert_steps) (simp_all add: single_def conns forwarded_def)
  have run: "BrokerBase_insert (Suc n) a e 1 w =
      Inr (Broker_clock (acknowledged a e 1 v) a, acknowledged a e 1 v)"
    using a isNext save insert by (simp add: single_def JournalBase_insert_def)
  have "conns v a \<noteq> []" using a by (auto simp: single_def conns)
  note clock = clock_acknowledged [OF this, of e 1] clock_save [OF save]
  show thesis
  proof (rule that)
    show "BrokerBase_insert (Suc n) a e 1 w =
        Inr (Clock_merge (Broker_clock w a) (entry_clock e), acknowledged a e 1 v)"
      using run clock by simp
    show "same_net w (acknowledged a e 1 v)" using nets.insert [OF run] .
  qed (use a clock in \<open>auto simp: v_def broker_at_set_broker single_def\<close>)
qed

lemma single_refuses:
  assumes "single w a" and "\<not> Clock_isNext (entry_clock e) (Broker_clock w a) (data_id (entry_data e))"
  shows "BrokerBase_insert (Suc n) a e 1 w = Inr (refused, w)"
  using assms by (simp add: single_def JournalBase_insert_def)

lemma single_insert_all:
  assumes "single w a" and "distinct (map entry_clock es)"
    and "\<And>e. e \<in> set es \<Longrightarrow> om_find (b_entries (broker_at w a)) (entry_clock e) = None"
  shows "\<exists>c w'. BrokerBase_insert_all (Suc n) a es 1 w = Inr (c, w') \<and> same_net w w' \<and>
    (\<forall>b. Broker_clock w' b =
         (if b = a then merged (Broker_clock w a) (taken (Broker_clock w a) es) else Broker_clock w b) \<and>
       b_entries (broker_at w' b) =
         (if b = a then put_all (taken (Broker_clock w a) es) (b_entries (broker_at w a))
          else b_entries (broker_at w b)))"
  using assms
proof (induction es arbitrary: w)
  case Nil
  then show ?case by (simp add: BrokerBase_insert_all_def merged_def put_all_def)
next
  case (Cons e es)
  show ?case
  proof (cases "Clock_isNext (entry_clock e) (Broker_clock w a) (data_id (entry_data e))")
    case True
    have new: "om_find (b_entries (broker_at w a)) (entry_clock e) = None" using Cons.prems(3) by simp
    obtain v where v: "BrokerBase_insert (Suc n) a e 1 w = Inr (Clock_merge (Broker_clock w a) (entry_clock e), v)"
      "same_net w v"
      and clock: "\<And>b. Broker_clock v b = (if b = a then Clock_merge (Broker_clock w a) (entry_clock e) else Broker_clock w b)"
      and stored: "\<And>b. b_entries (broker_at v b) = (if b = a then om_put (entry_clock e) (entry_data e) (b_entries (broker_at w a))
         else b_entries (broker_at w b))"
      using single_insert [OF Cons.prems(1) True new, of n] by blast
    have "\<exists>c w'. BrokerBase_insert_all (Suc n) a es 1 v = Inr (c, w') \<and> same_net v w' \<and>
      (\<forall>b. Broker_clock w' b =
           (if b = a then merged (Broker_clock v a) (taken (Broker_clock v a) es) else Broker_clock v b) \<and>
         b_entries (broker_at w' b) =
           (if b = a then put_all (taken (Broker_clock v a) es) (b_entries (broker_at v a))
            else b_entries (broker_at v b)))"
      using Cons.prems(2,3) stored
      by (intro Cons.IH single_same_net [OF v(2) Cons.prems(1)]) (auto simp: image_iff)
    then show ?thesis using v clock stored same_net_trans [OF v(2)] True
      by (fastforce simp: BrokerBase_insert_all_def merged_def put_all_def cashmere_errors)
  next
    case False
    have "BrokerBase_insert_all (Suc n) a (e # es) 1 w = BrokerBase_insert_all (Suc n) a es 1 w"
      using single_refuses [OF Cons.prems(1) False, of n]
      by (simp add: BrokerBase_insert_all_def del: BrokerBase_insert.simps)
    moreover have "taken (Broker_clock w a) (e # es) = taken (Broker_clock w a) es" using False by simp
    moreover have "\<exists>c w'. BrokerBase_insert_all (Suc n) a es 1 w = Inr (c, w') \<and> same_net w w' \<and>
      (\<forall>b. Broker_clock w' b =
           (if b = a then merged (Broker_clock w a) (taken (Broker_clock w a) es) else Broker_clock w b) \<and>
         b_entries (broker_at w' b) =
           (if b = a then put_all (taken (Broker_clock w a) es) (b_entries (broker_at w a))
            else b_entries (broker_at w b)))"
      using Cons.prems(2,3) by (intro Cons.IH [OF Cons.prems(1)]) simp_all
    ultimately show ?thesis by (simp only:)
  qed
qed

section \<open>A new journal joins\<close>

definition agree_but :: "addr \<Rightarrow> clock \<Rightarrow> (clock, data) omap \<Rightarrow> world \<Rightarrow> bool" where
  "agree_but a c es w \<longleftrightarrow> list_all (\<lambda>(b, _). b = a \<or> holds c es w b) (entries (w_brokers w))"

definition newcomer :: "world \<Rightarrow> addr \<Rightarrow> bool" where
  "newcomer w a \<longleftrightarrow> live w a \<and> b_kind (broker_at w a) = Cache \<and> length (conns w a) = 1 \<and>
     Broker_clock w a = om_empty \<and> b_entries (broker_at w a) = om_empty"

lemma agree_but_live: "agree_but a c es w \<Longrightarrow> live w b \<Longrightarrow> b \<noteq> a \<Longrightarrow> holds c es w b"
  by (auto simp: agree_but_def live_entries list_all_iff)

lemma query_cache:
  "b_kind (broker_at w a) = Cache \<Longrightarrow> BrokerBase_query (Suc n) w a c s = Inr (JournalBase_query w a c)"
  by simp

lemma query_from_start:
  assumes "b_kind (broker_at w b) = Cache" and "b_entries (broker_at w b) = es"
    and "\<And>e. e \<in> set (listed es) \<Longrightarrow> entry_clock e \<noteq> om_empty"
  shows "JournalBase_query w b om_empty = listed es"
proof -
  have "Clock_concurrent k om_empty \<or> Clock_smallerThan om_empty k" if "k \<noteq> om_empty" for k
    using that by (simp add: smallerThan_iff)
  moreover have "BrokerBase_entries w b = listed es"
    using assms(1,2) by (simp add: BrokerBase_entries_def Journal_entries_def listed_def)
  ultimately show ?thesis using assms(3) by (simp add: JournalBase_query_def filter_id_conv)
qed

lemma exchange_newcomer:
  assumes z: "single z a" and clock: "Broker_clock z a = om_empty" "b_entries (broker_at z a) = om_empty"
    and b: "Connection_broker z (conn z a 1) = Some b" "b_kind (broker_at z b) = Cache"
      "b_entries (broker_at z b) = es"
    and started: "\<And>e. e \<in> set (listed es) \<Longrightarrow> entry_clock e \<noteq> om_empty"
    and run: "Broker_exchange (Suc m) a 1 z = Inr w'"
  shows "\<exists>u. same_net z u \<and> same_state u w' \<and>
    (\<forall>x. Broker_clock u x =
         (if x = a then merged om_empty (taken om_empty (listed es)) else Broker_clock z x) \<and>
       b_entries (broker_at u x) =
         (if x = a then put_all (taken om_empty (listed es)) om_empty else b_entries (broker_at z x)))"
proof -
  have own: "BrokerBase_query (Suc m) z a v 1 = Inr []" for v
    using z clock(2) by (simp add: single_def JournalBase_query_def BrokerBase_entries_def Journal_entries_def)
  have "JournalBase_query z b om_empty = listed es"
    by (rule query_from_start [OF b(2,3) started])
  then have theirs: "Connection_query (BrokerBase_query (Suc m)) z (conn z a 1) (Broker_clock z a) = Inr (listed es)"
    using b(1,2) clock(1) by (simp add: Connection_query_def)
  have "distinct (map entry_clock (listed es))"
    using distinct_entries [of es] by (simp add: listed_def split_def comp_def)
  then obtain r u where u: "BrokerBase_insert_all (Suc m) a (listed es) 1 z = Inr (r, u)" "same_net z u"
    "\<forall>x. Broker_clock u x =
         (if x = a then merged om_empty (taken om_empty (listed es)) else Broker_clock z x) \<and>
       b_entries (broker_at u x) =
         (if x = a then put_all (taken om_empty (listed es)) om_empty else b_entries (broker_at z x))"
    using single_insert_all [OF z, of "listed es" m] clock by auto
  have "(if listed es = [] then Inr z
      else andThen (BrokerBase_insert_all (Suc m) a (listed es) 1 z) (\<lambda>(_, w). Inr w)) = Inr u"
    using u(1) by (auto simp: BrokerBase_insert_all_def)
  then have "Broker_refreshConnections (BrokerBase_refresh (Suc m)) a 1 u = Inr w'"
    using run own theirs by (simp add: Broker_exchange_def del: BrokerBase_query.simps)
  then show ?thesis using u quiet.refreshConnections by blast
qed

lemma newcomer_single:
  assumes a: "newcomer w a" and ab: "a \<noteq> b" "live w b" and w: "wired w"
    and z: "same_net (joined a b w) z" "same_state w z"
  shows "single z a" and "Broker_clock z a = om_empty" and "b_entries (broker_at z a) = om_empty"
proof -
  have live: "live w a" "length (conns w a) = 1" using a by (simp_all add: newcomer_def)
  have state: "live z a" "b_kind (broker_at z a) = Cache" "Broker_clock z a = om_empty"
    "b_entries (broker_at z a) = om_empty"
    using z(2) a by (auto simp: newcomer_def same_state_def frame_def)
  have wires: "wiring (joined a b w) = wiring z" using z(1) by (simp add: same_net_def)
  note new = conns_joined [OF ab(1) live(1) ab(2)]
  have "conn_broker (conn w a 0) = None"
    using wired_conn(1) [OF w live(1), of 0] live(2) by (cases "conn_broker (conn w a 0)") auto
  then have "conn_broker (conn z a 0) = None"
    using wiring_ends(1) [OF wires, of a 0] live(2) by (auto simp: new nth_append)
  moreover have "length (conns z a) = 2" using wiring_length [OF wires, of a] live(2) by (simp add: new)
  ultimately show "single z a" using state by (simp add: single_def)
  show "Broker_clock z a = om_empty" "b_entries (broker_at z a) = om_empty" using state by blast+
qed

text \<open>The newcomer takes what it can of the list; nobody else changes.\<close>

lemma connect_newcomer:
  assumes "settled w" and "a \<noteq> b" and "newcomer w a" and "live w b" and "b_kind (broker_at w b) = Cache"
    and "agree_but a c es w" and "\<And>e. e \<in> set (listed es) \<Longrightarrow> entry_clock e \<noteq> om_empty"
    and "length (conns w b) < 2 ^ 32"
    and "bounded n (joined a b w) a (new_port w a)" and "bounded n (joined a b w) b (new_port w b)"
  obtains w' where "BrokerBase_connect (Suc n) a (Connection_to (Some b)) w =
      Inr ((Connection_to (Some a))\<lparr>conn_source := 1\<rparr>, w')"
    and "wiring w' = wiring (joined a b w)" and "agree_but a c es w'"
    and "b_kind (broker_at w' a) = Cache"
    and "Broker_clock w' a = merged om_empty (taken om_empty (listed es))"
    and "b_entries (broker_at w' a) = put_all (taken om_empty (listed es)) om_empty"
proof -
  have a: "live w a" "length (conns w a) = 1" using assms(3) by (simp_all add: newcomer_def)
  have port: "new_port w a = 1" using a(2) by (simp add: new_port_def)
  have room: "length (conns w a) < 2 ^ 32" using a(2) by simp
  obtain m where n: "n = Suc m" using assms(9) by (cases n) simp_all
  obtain z w' where z: "same_net (joined a b w) z" "same_state w z" and zw: "same_net z w'"
    and run: "Broker_exchange n a (new_port w a) z = Inr w'"
    and connect: "BrokerBase_connect (Suc n) a (Connection_to (Some b)) w =
      Inr ((Connection_to (Some a))\<lparr>conn_source := new_port w a\<rparr>, w')"
    using connect_total [OF assms(1,2) a(1) assms(4) room assms(8-10)] by blast
  have wired: "wired w" using assms(1) by (simp add: settled_iff)
  note single = newcomer_single [OF assms(3,2,4) wired z]
  have far: "Connection_broker z (conn z a 1) = Some b"
    using joined_far(2) [OF assms(2) a(1) assms(4) z(1)] a(2) by simp
  have old: "live w x \<Longrightarrow> Broker_clock z x = Broker_clock w x \<and> b_entries (broker_at z x) = b_entries (broker_at w x)
      \<and> b_kind (broker_at z x) = b_kind (broker_at w x)" for x
    using z(2) by (simp add: same_state_def frame_def)
  have b: "b_kind (broker_at z b) = Cache" "b_entries (broker_at z b) = es"
    using old [OF assms(4)] assms(5) agree_but_live [OF assms(6,4)] assms(2) by (auto simp: holds_def)
  have "Broker_exchange (Suc m) a 1 z = Inr w'" using run port n by simp
  from exchange_newcomer [OF single far b assms(7) this]
  obtain u where u: "same_net z u" "same_state u w'"
    and now: "\<And>x. Broker_clock u x =
        (if x = a then merged om_empty (taken om_empty (listed es)) else Broker_clock z x)"
      "\<And>x. b_entries (broker_at u x) =
        (if x = a then put_all (taken om_empty (listed es)) om_empty else b_entries (broker_at z x))"
    by blast
  have live: "live w' x = live w x" "live u x = live w x" for x
    using zw z(1) u(1) wiring_live [of w' z x] wiring_live [of z "joined a b w" x] wiring_live [of u z x]
    by (simp_all add: same_net_def)
  have end_state: "b_kind (broker_at w' x) = b_kind (broker_at w x) \<and> Broker_clock w' x = Broker_clock u x \<and>
      b_entries (broker_at w' x) = b_entries (broker_at u x)" if x: "live w x" for x
    using old [OF x] x live u wiring_kind [of u z x] by (auto simp: same_state_def frame_def same_net_def)
  have "holds c es w' x" if x: "live w x" "x \<noteq> a" for x
    using end_state [OF x(1)] now [of x] old [OF x(1)] agree_but_live [OF assms(6) x] x(2) by (auto simp: holds_def)
  then have "agree_but a c es w'" using live(1) by (fastforce simp: agree_but_def live_entries list_all_iff)
  then show thesis
    using that connect port zw z(1) end_state [OF a(1)] now [of a] assms(3)
    by (auto simp: same_net_def newcomer_def)
qed

section \<open>Parting and joining again\<close>

text \<open>What becomes of two connected hubs when one disconnects and connects again: the other still has
  its old port, which now leads to port 0.\<close>

definition reconnected :: world where
  "reconnected = world_of
     [no_broker\<lparr>b_kind := Hub, b_id := 1,
        b_connections := [Connection_none, Connection_none\<lparr>conn_source := 1\<rparr>,
          (Connection_to (Some 1))\<lparr>conn_source := 2\<rparr>]\<rparr>,
      no_broker\<lparr>b_kind := Hub, b_id := 2,
        b_connections := [Connection_none, Connection_to (Some 0),
          (Connection_to (Some 0))\<lparr>conn_source := 2\<rparr>]\<rparr>]"

lemma reconnected_conn:
  "length (conns reconnected 0) = 3" "length (conns reconnected 1) = 3"
  "Connection_broker reconnected (conn reconnected 0 2) = Some 1"
  "conn_source (conn reconnected 0 2) = 2"
  "Connection_broker reconnected (conn reconnected 1 1) = Some 0"
  "conn_source (conn reconnected 1 1) = 0"
  by (simp_all add: eval_simps sample_simps reconnected_def)

lemma reconnected_ported: "ported reconnected" "all_hubs reconnected"
proof -
  show "ported reconnected" unfolding ported_def
  proof (intro allI impI)
    fix a i b
    assume i: "i < length (conns reconnected a)" and b: "Connection_broker reconnected (conn reconnected a i) = Some b"
    have "conns reconnected a = [] \<or> a = 0 \<or> a = 1"
      by (auto simp: eval_simps sample_simps reconnected_def)
    then have a: "a = 0 \<or> a = 1" using i by auto
    then have "i < 3" using i reconnected_conn(1,2) by auto
    then have "i = 0 \<or> i = 1 \<or> i = 2" by linarith
    with a show "unat (conn_source (conn reconnected a i)) < length (conns reconnected b)"
      using b by (elim disjE) (auto simp add: eval_simps sample_simps reconnected_def)
  qed
  show "all_hubs reconnected" by (simp add: eval_simps sample_simps reconnected_def all_hubs_def)
qed

lemma reconnected_unbounded: "\<not> bounded n reconnected 0 0 \<and> \<not> bounded n reconnected 1 2"
proof (induction n)
  case (Suc n)
  have "\<not> bounded (Suc n) reconnected 0 0"
    using Suc by (auto simp: list_all_iff reconnected_conn intro!: bexI [of _ 2])
  moreover have "\<not> bounded (Suc n) reconnected 1 2"
    using Suc by (auto simp: list_all_iff reconnected_conn simp del: One_nat_def intro!: bexI [of _ 1])
  ultimately show ?case ..
qed simp

section \<open>Theorems\<close>

text \<open>C12: An empty journal that connects to a cache of a network in agreement is brought up to date, when
  the entries, as they are listed, are in causal order: the call returns, and the joined network
  agrees on the clock and on the entries.\<close>

theorem connect_brings_up_to_date:
  assumes "settled w" and "a \<noteq> b" and "newcomer w a" and "live w b" and "b_kind (broker_at w b) = Cache"
    and "agree_but a c es w" and "causal om_empty (listed es)" and "merged om_empty (listed es) = c"
    and "length (conns w b) < 2 ^ 32"
    and "bounded n (joined a b w) a (new_port w a)" and "bounded n (joined a b w) b (new_port w b)"
  shows "\<exists>w'. BrokerBase_connect (Suc n) a (Connection_to (Some b)) w =
      Inr ((Connection_to (Some a))\<lparr>conn_source := 1\<rparr>, w') \<and>
    wiring w' = wiring (joined a b w) \<and> agree c es w'"
proof -
  have started: "e \<in> set (listed es) \<Longrightarrow> entry_clock e \<noteq> om_empty" for e by (rule causal_clock [OF assms(7)])
  obtain w' where w': "BrokerBase_connect (Suc n) a (Connection_to (Some b)) w =
      Inr ((Connection_to (Some a))\<lparr>conn_source := 1\<rparr>, w')" "wiring w' = wiring (joined a b w)"
    "agree_but a c es w'" "b_kind (broker_at w' a) = Cache"
    "Broker_clock w' a = c" "b_entries (broker_at w' a) = es"
    using connect_newcomer [OF assms(1-6) started assms(9-11)] causal_taken [OF assms(7)] assms(8)
      put_all_listed [of es] by metis
  then have "agree c es w'" by (auto simp: agree_live holds_def dest: agree_but_live)
  then show ?thesis using w'(1,2) by blast
qed

text \<open>The two caches and the hub, with a third cache that is new.\<close>

definition quartet :: world where
  "quartet = world_of
     [member Cache 1 trio_clock [(1, 1)] trio_entries,
      member Hub 3 trio_clock [(0, 1), (2, 1)] om_empty,
      member Cache 2 trio_clock [(1, 2)] trio_entries,
      member Cache 4 om_empty [] om_empty]"

lemma quartet_settled: "settled quartet"
proof -
  have "wired quartet" by (simp add: eval_simps sample_simps quartet_def)
  then show ?thesis
    by (simp add: settled_def) (simp add: eval_simps sample_simps quartet_def registered_def named_back_def)
qed

lemma quartet_bounded: "bounded 4 (joined 3 2 quartet) 3 1" "bounded 4 (joined 3 2 quartet) 2 2"
  by (simp_all add: eval_simps sample_simps quartet_def joined_def new_port_def numeral_nat)

theorem connect_brings_up_to_date_witness:
  "\<exists>w'. BrokerBase_connect 5 3 (Connection_to (Some 2)) quartet =
      Inr ((Connection_to (Some 3))\<lparr>conn_source := 1\<rparr>, w') \<and> agree trio_clock trio_entries w'"
proof -
  have "newcomer quartet 3" "live quartet 2" "b_kind (broker_at quartet 2) = Cache"
    "agree_but 3 trio_clock trio_entries quartet" "causal om_empty (listed trio_entries)"
    "merged om_empty (listed trio_entries) = trio_clock" "length (conns quartet 2) < 2 ^ 32"
    "new_port quartet 3 = 1" "new_port quartet 2 = 2"
    by (simp_all add: eval_simps sample_simps quartet_def newcomer_def agree_but_def listed_def merged_def
        new_port_def)
  then show ?thesis
    using connect_brings_up_to_date [OF quartet_settled, of 3 2 trio_clock trio_entries 4] quartet_bounded
    by auto
qed

text \<open>The list is not always in causal order, and then \<open>connect\<close> loses entries: a journal that
  knows an entry of device 2 and one of device 1 that follows it lists the second first; the
  empty journal that connects to it takes that one, refuses the other, and is left with the same
  clock and without the entry.\<close>

definition behind :: world where
  "behind = world_of
     [member Cache 1 om_empty [] om_empty,
      member Cache 2 (entry_clock later_entry) []
        (om_init [(entry_clock early_entry, entry_data early_entry),
                  (entry_clock later_entry, entry_data later_entry)])]"

theorem connect_loses_entry:
  "case BrokerBase_connect 4 0 (Connection_to (Some 1)) behind of
     Inl f \<Rightarrow> False
   | Inr (out, w) \<Rightarrow> Broker_clock w 0 = Broker_clock w 1 \<and>
       BrokerBase_entries w 1 = [later_entry, early_entry] \<and> BrokerBase_entries w 0 = [later_entry]"
proof -
  have four: "4 = Suc (Suc (Suc (Suc 0)))" by simp
  show ?thesis unfolding four
    by (simp add: eval_simps sample_simps behind_def early_entry_def later_entry_def Let_def)
qed


end
