(* ===== verification/Merging.thy ===== *)
theory Merging
  imports Syncing
begin

text \<open>
  \<open>connect\<close> between two networks that both have contents. Each side asks the other for the entries
  that its clock does not cover and passes them on, one after the other, to the brokers it can
  reach. When both lists are in causal order the joined network agrees on the merge of the two
  clocks and the union of the entries. The parts of the two networks stay apart while the lists are
  passed on: the brokers at the two ends of the new connection are journals, and a journal refuses
  what its clock covers.
\<close>

section \<open>Clocks\<close>

lemma option_eqI: "(\<And>d. x = Some d \<longleftrightarrow> y = Some d) \<Longrightarrow> x = y"
  by (cases x; cases y) auto

lemma room_bound: "room c m \<Longrightarrow> om_find c i = Some t \<Longrightarrow> unat t + m < 2 ^ 64"
  by (simp add: room_find)

lemma room_le: "room d m \<Longrightarrow> clock_le c d \<Longrightarrow> room c m"
  unfolding room_find clock_le_def
proof (intro conjI allI impI)
  fix i t
  assume d: "m < 2 ^ 64 \<and> (\<forall>i t. om_find d i = Some t \<longrightarrow> unat t + m < 2 ^ 64)"
    and le: "\<forall>i. om_find c i \<le> om_find d i" and t: "om_find c i = Some t"
  obtain u where u: "om_find d i = Some u" "t \<le> u"
    using le [rule_format, of i] t by (cases "om_find d i") auto
  then have "unat t \<le> unat u" by (simp add: word_le_nat_alt)
  moreover have "unat u + m < 2 ^ 64" using d u by blast
  ultimately show "unat t + m < 2 ^ 64" by linarith
qed simp

text \<open>A clock with room to count is not followed by an entry it covers.\<close>

lemma next_counted:
  assumes "Clock_isNext k c i" and "room c 1"
  shows "om_find k i \<noteq> Some 0"
proof
  assume "om_find k i = Some 0"
  then obtain u where u: "om_find c i = Some u" "u + 1 = 0"
    using assms(1) by (auto simp: Clock_isNext_def split: option.splits)
  then have "unat (u + 1) = Suc (unat u)"
    using room_bound [OF assms(2) u(1)] by (intro unat_plus_room [of u 0]) simp
  then show False using u(2) by simp
qed

lemma covered_not_next:
  assumes "clock_le k c" and "room c 1"
  shows "\<not> Clock_isNext k c i"
proof
  assume "Clock_isNext k c i"
  moreover from this have "om_find k i \<noteq> Some 0" using assms(2) by (rule next_counted)
  moreover have "Clock_merge c k = c" using assms(1) by (simp add: clock_le_merge_iff merge_commute [of c])
  ultimately show False using merged_not_next [of k i c] by simp
qed

lemma merged_Nil [simp]: "merged c [] = c"
  by (simp add: merged_def)

lemma merged_Cons [simp]: "merged c (e # es) = merged (Clock_merge c (entry_clock e)) es"
  by (simp add: merged_def)

lemma merged_upper: "clock_le c (merged c es)"
  by (induction es arbitrary: c) (auto intro: clock_le_trans [OF merge_upper(1)])

lemma merged_from: "merged (Clock_merge c k) es = Clock_merge c (merged k es)"
  by (induction es arbitrary: k) (simp_all add: merge_assoc)

lemma merged_covers: "e \<in> set es \<Longrightarrow> clock_le (entry_clock e) (merged c es)"
proof (induction es arbitrary: c)
  case (Cons x es)
  have "clock_le (entry_clock x) (merged (Clock_merge c (entry_clock x)) es)"
    using merge_upper(2) merged_upper by (rule clock_le_trans)
  then show ?case using Cons by auto
qed simp

lemma causal_counted:
  "causal c es \<Longrightarrow> room (merged c es) 1 \<Longrightarrow> e \<in> set es \<Longrightarrow>
     om_find (entry_clock e) (data_id (entry_data e)) \<noteq> Some 0"
proof (induction es arbitrary: c)
  case (Cons x es)
  have "clock_le c (merged c (x # es))" by (rule merged_upper)
  then have "room c 1" using Cons.prems(2) by (rule room_le [rotated])
  then show ?case using Cons next_counted [of "entry_clock x" c] by auto
qed simp

section \<open>A list of entries enters a part of the network\<close>

lemma unmoved_trans: "unmoved u v a \<Longrightarrow> unmoved v w a \<Longrightarrow> unmoved u w a"
  by (simp add: unmoved_def)

lemma bordered_later:
  assumes "bordered K e w" and "wired w" and wires: "wiring w' = wiring w"
    and same: "\<And>b. live w b \<Longrightarrow> K b \<Longrightarrow> unmoved w w' b"
  shows "bordered K e w'"
  unfolding bordered_def
proof (intro allI impI)
  fix a b assume ab: "live w' a" "\<not> K a" "b \<in> set (neighbours w' a)" "K b"
  then have a: "live w a" "b \<in> set (neighbours w a)"
    using wiring_live [OF wires] wiring_neighbours [OF wires] by auto
  then have "live w b" using wired_conn(2) [OF assms(2)] by (auto simp: neighbours_iff)
  then have "unmoved w w' b" using same ab(4) by blast
  moreover have "declines e w b" using assms(1) a ab(2,4) by (simp add: bordered_def)
  ultimately show "declines e w' b"
    using wiring_kind [OF wires, of b] by (simp add: declines_def unmoved_def)
qed

lemma insert_all_reaches_part:
  assumes wired: "wired w" and es: "causal c L" "distinct (map entry_clock L)" "room (merged c L) 1"
    and new: "\<And>e. e \<in> set L \<Longrightarrow> om_find es (entry_clock e) = None"
    and border: "\<And>e. e \<in> set L \<Longrightarrow> bordered (\<lambda>x. \<not> reachable T a x) e w"
    and part: "\<And>b. live w b \<Longrightarrow> reachable T a b \<Longrightarrow> holds c es w b"
    and a: "live w a" "unat s < length (conns w a)"
    and port: "\<And>x. conn_broker (conn w a (unat s)) = Some x \<Longrightarrow> \<not> reachable T a x"
    and walks: "\<And>x. set (neighbours T x) \<subseteq> set (neighbours w x)"
      "\<And>x. reachable T a x \<Longrightarrow> live w x"
    and run: "BrokerBase_insert_all n a L s w = Inr (r, w')"
  shows "wiring w' = wiring w \<and> (\<forall>b. live w b \<longrightarrow> \<not> reachable T a b \<longrightarrow> unmoved w w' b) \<and>
    (\<forall>b. reachable T a b \<longrightarrow> holds (merged c L) (put_all L es) w' b)"
  using assms
proof (induction L arbitrary: w c es)
  case Nil
  then show ?case by (simp add: BrokerBase_insert_all_def put_all_def unmoved_def)
next
  case (Cons e L)
  let ?K = "\<lambda>x. \<not> reachable T a x"
  let ?c = "Clock_merge c (entry_clock e)"
  have next_e: "next_entry c es e"
    using Cons.prems(2,5) causal_counted [OF Cons.prems(2,4)]
    by (simp add: next_entry_def merged_not_next)
  obtain q v where v: "BrokerBase_insert n a e s w = Inr (q, v)"
    and rest: "BrokerBase_insert_all n a L s v = Inr (r, w')"
    using Cons.prems(13) by (auto simp: BrokerBase_insert_all_def cashmere_errors)
  have part: "live w b \<Longrightarrow> \<not> ?K b \<Longrightarrow> holds c es w b" for b using Cons.prems(7) by simp
  have inside: "\<not> ?K a" by (simp add: reachable.here)
  have port: "conn_broker (conn w a (unat s)) = Some x \<Longrightarrow> ?K x" for x using Cons.prems(10) .
  have into: "reachable T a x \<Longrightarrow> \<not> ?K x" for x by simp
  note one = insert_reaches_part [where K = ?K and T = T, OF Cons.prems(1) Cons.prems(6) next_e part
      Cons.prems(8) inside Cons.prems(9) port Cons.prems(11) into v]
  have wires: "wiring v = wiring w" using one(2) by simp
  have still: "unmoved w v b" if "live w b" "?K b" for b using one(3) that by simp
  have now: "reachable T a b \<Longrightarrow> holds ?c (with_entry e es) v b" for b using one(4) by simp
  have "wiring w' = wiring v \<and> (\<forall>b. live v b \<longrightarrow> ?K b \<longrightarrow> unmoved v w' b) \<and>
    (\<forall>b. reachable T a b \<longrightarrow> holds (merged ?c L) (put_all L (with_entry e es)) w' b)"
  proof (rule Cons.IH)
    show "wired v" using wiring_wired [OF wires [symmetric] Cons.prems(1)] .
    show "causal ?c L" "distinct (map entry_clock L)" "room (merged ?c L) 1"
      using Cons.prems(2-4) by simp_all
    show "om_find (with_entry e es) (entry_clock x) = None" if "x \<in> set L" for x
      using Cons.prems(3,5) that by (auto simp: image_iff)
    show "bordered ?K x v" if "x \<in> set L" for x
      using bordered_later [OF Cons.prems(6) Cons.prems(1) wires still] that by simp
    show "live v a" "unat s < length (conns v a)"
      using Cons.prems(8,9) wiring_live [OF wires] wiring_length [OF wires] by simp_all
    show "?K x" if "conn_broker (conn v a (unat s)) = Some x" for x
      using that Cons.prems(9) wiring_ends(1) [OF wires [symmetric], of a "unat s"] port [of x] by simp
    show "set (neighbours T x) \<subseteq> set (neighbours v x)" for x
      using Cons.prems(11) wiring_neighbours [OF wires] by simp
    show "reachable T a x \<Longrightarrow> live v x" for x using Cons.prems(12) wiring_live [OF wires] by simp
  qed (use now rest in simp_all)
  moreover have "unmoved w w' b" if "live w b" "?K b" "unmoved v w' b" for b
    using still [OF that(1,2)] that(3) by (rule unmoved_trans)
  ultimately show ?case using wires wiring_live [OF wires] by (auto simp: put_all_def)
qed

section \<open>What each side lacks\<close>

text \<open>The entries that a clock does not cover, in the order in which a cache lists them.\<close>

definition unseen :: "clock \<Rightarrow> (clock, data) omap \<Rightarrow> entry list" where
  "unseen c es = filter (\<lambda>e. Clock_merge (entry_clock e) c \<noteq> c) (listed es)"

text \<open>What the clock covers of the other side's entries is there already.\<close>

definition caught_up :: "clock \<Rightarrow> (clock, data) omap \<Rightarrow> (clock, data) omap \<Rightarrow> bool" where
  "caught_up c es others \<longleftrightarrow>
     list_all (\<lambda>(k, d). Clock_merge k c \<noteq> c \<or> om_find es k = Some d) (entries others)"

lemma query_unseen:
  assumes "b_kind (broker_at w a) = Cache"
  shows "BrokerBase_query (Suc n) w a c s = Inr (unseen c (b_entries (broker_at w a)))"
proof -
  have "Clock_concurrent k c \<or> Clock_smallerThan c k \<longleftrightarrow> Clock_merge k c \<noteq> c" for k
    using clock_le_antisym [of k c]
    by (auto simp: Clock_concurrent_def smallerThan_iff clock_le_merge_iff)
  then show ?thesis using assms
    by (simp add: JournalBase_query_def unseen_def BrokerBase_entries_def Journal_entries_def listed_def)
qed

lemma clocks_listed: "map entry_clock (listed es) = map fst (entries es)"
  by (simp add: listed_def split_def)

lemma in_listed: "e \<in> set (listed es) \<longleftrightarrow> om_find es (entry_clock e) = Some (entry_data e)"
  by (cases e) (auto simp: listed_def om_find_iff)

lemma distinct_unseen: "distinct (map entry_clock (unseen c es))"
  using distinct_entries [of es] by (simp add: unseen_def distinct_map_filter clocks_listed)

lemma in_unseen:
  "e \<in> set (unseen c es) \<longleftrightarrow>
     om_find es (entry_clock e) = Some (entry_data e) \<and> \<not> clock_le (entry_clock e) c"
  by (auto simp: unseen_def in_listed clock_le_merge_iff)

lemma merged_unseen: "merged c (unseen c es) = Clock_merge c (merged om_empty (listed es))"
proof -
  have "merged c (filter (\<lambda>e. Clock_merge (entry_clock e) c \<noteq> c) xs) = merged c xs" for xs
  proof (induction xs)
    case (Cons x xs)
    show ?case
    proof (cases "Clock_merge (entry_clock x) c = c")
      case True
      then show ?thesis using Cons by (simp add: merge_commute)
    next
      case False
      then show ?thesis using Cons by (simp add: merged_from merge_commute [of c])
    qed
  qed simp
  then have "merged c (unseen c es) = merged (Clock_merge c om_empty) (listed es)"
    by (simp add: unseen_def)
  then show ?thesis by (simp only: merged_from)
qed

lemma find_put_unseen:
  "om_find (put_all (unseen c es) m) k =
     (if clock_le k c then om_find m k
      else case om_find es k of None \<Rightarrow> om_find m k | Some d \<Rightarrow> Some d)"
proof -
  let ?xs = "map (\<lambda>e. (entry_clock e, entry_data e)) (unseen c es)"
  have distinct: "distinct (map fst ?xs)" using distinct_unseen [of c es] by (simp add: comp_def)
  have "(k, d) \<in> set ?xs \<longleftrightarrow> om_find es k = Some d \<and> \<not> clock_le k c" for d
  proof
    assume "om_find es k = Some d \<and> \<not> clock_le k c"
    then have "\<lparr>entry_clock = k, entry_data = d\<rparr> \<in> set (unseen c es)" by (simp add: in_unseen)
    then show "(k, d) \<in> set ?xs" by force
  qed (auto simp: in_unseen)
  then have "map_of ?xs k = Some d \<longleftrightarrow> (if clock_le k c then None else om_find es k) = Some d" for d
    using map_of_eq_Some_iff [OF distinct, of k d] by simp
  then have "map_of ?xs k = (if clock_le k c then None else om_find es k)"
    by (rule option_eqI)
  then show ?thesis using find_put_all [OF distinct_unseen, of c es m k] by simp
qed

lemma covered_merged: "merged om_empty (listed es) = c \<Longrightarrow> om_find es k = Some d \<Longrightarrow> clock_le k c"
  using merged_covers [of "\<lparr>entry_clock = k, entry_data = d\<rparr>" "listed es" om_empty] by (auto simp: in_listed)

lemma caught_up_find: "caught_up c es others \<Longrightarrow> om_find others k = Some d \<Longrightarrow> clock_le k c \<Longrightarrow> om_find es k = Some d"
  by (auto simp: caught_up_def list_all_iff om_find_iff clock_le_merge_iff)

text \<open>Both sides arrive at the union.\<close>

lemma put_unseen:
  assumes covered: "merged om_empty (listed es1) = c1" "merged om_empty (listed es2) = c2"
    and up: "caught_up c1 es1 es2" "caught_up c2 es2 es1"
  shows "put_all (unseen c1 es2) es1 = om_absorb es1 es2" and "put_all (unseen c2 es1) es2 = om_absorb es1 es2"
proof -
  have below: "om_find es1 k = Some d \<Longrightarrow> clock_le k c1" "om_find es2 k = Some d \<Longrightarrow> clock_le k c2" for k d
    using covered_merged [OF covered(1)] covered_merged [OF covered(2)] by blast+
  have known: "om_find es2 k = Some d \<Longrightarrow> clock_le k c1 \<Longrightarrow> om_find es1 k = Some d"
    "om_find es1 k = Some d \<Longrightarrow> clock_le k c2 \<Longrightarrow> om_find es2 k = Some d" for k d
    using caught_up_find [OF up(1)] caught_up_find [OF up(2)] by blast+
  have "om_find (put_all (unseen c1 es2) es1) k = om_find (om_absorb es1 es2) k \<and>
    om_find (put_all (unseen c2 es1) es2) k = om_find (om_absorb es1 es2) k" for k
  proof (cases "om_find es1 k")
    case None
    then have "\<not> clock_le k c1" if "om_find es2 k = Some d" for d using known(1) that by fastforce
    with None show ?thesis
      by (cases "om_find es2 k") (simp_all add: find_put_unseen om_find_absorb)
  next
    case (Some d)
    then have "clock_le k c1" "clock_le k c2 \<Longrightarrow> om_find es2 k = Some d" using below(1) known(2) by blast+
    with Some show ?thesis by (cases "clock_le k c2") (simp_all add: find_put_unseen om_find_absorb)
  qed
  then show "put_all (unseen c1 es2) es1 = om_absorb es1 es2" "put_all (unseen c2 es1) es2 = om_absorb es1 es2"
    by (simp_all add: om_eqI)
qed

section \<open>Two networks and the connection between them\<close>

text \<open>\<open>v\<close> has the connections of \<open>w\<close> and one between \<open>a\<close> and \<open>b\<close>.\<close>

definition bridged :: "addr \<Rightarrow> addr \<Rightarrow> world \<Rightarrow> world \<Rightarrow> bool" where
  "bridged a b w v \<longleftrightarrow> (\<forall>x. live v x = live w x) \<and>
     (\<forall>x. set (neighbours w x) \<subseteq> set (neighbours v x)) \<and>
     (\<forall>x y. y \<in> set (neighbours v x) \<longrightarrow> y \<in> set (neighbours w x) \<or> x = a \<and> y = b \<or> x = b \<and> y = a)"

lemma bridged_swap: "bridged a b w v \<Longrightarrow> bridged b a w v"
  by (auto simp: bridged_def)

lemma bridged_wiring: "wiring v' = wiring v \<Longrightarrow> bridged a b w v \<Longrightarrow> bridged a b w v'"
  using wiring_live [of v' v] wiring_neighbours [of v' v] by (simp add: bridged_def)

lemma bridged_joined:
  assumes "a \<noteq> b" and "live w a" and "live w b"
  shows "bridged a b w (joined a b w)"
  using conns_joined [OF assms] by (auto simp: bridged_def neighbours_def Connection_to_def)

lemma reachable_live:
  assumes "wired w" and "live w a" and "reachable w a x"
  shows "live w x"
  using assms(3)
proof (induction rule: reachable.induct)
  case (step x y)
  then show ?case using wired_conn(2) [OF assms(1)] by (auto simp: neighbours_iff)
qed (rule assms(2))

lemma reachable_from: "reachable w a b \<Longrightarrow> b' \<in> set (neighbours w a') \<Longrightarrow> a = b' \<Longrightarrow> reachable w a' b"
  by (induction rule: reachable.induct) (auto intro: reachable.intros)

lemma reachable_back:
  assumes "wired w" and "live w a" and "reachable w a b"
  shows "reachable w b a"
  using assms(3)
proof (induction rule: reachable.induct)
  case (step x y)
  have "live w x" using reachable_live [OF assms(1,2)] step.hyps(1) .
  then have "x \<in> set (neighbours w y)"
    using step.hyps(2) wired_conn(3,4) [OF assms(1)] unfolding neighbours_iff by meson
  then show ?case using reachable_from [OF step.IH] by blast
qed (rule reachable.here)

lemma reachable_meet:
  "wired w \<Longrightarrow> live w b \<Longrightarrow> reachable w a x \<Longrightarrow> reachable w b x \<Longrightarrow> reachable w a b"
  using reachable_back reachable_trans by blast

text \<open>One side takes what it lacks. The broker at the other end of the connection declines all of it,
  so nothing leaves this side.\<close>

lemma pass_on:
  assumes w: "wired w" "live w a" "live w b" and apart: "\<not> reachable w a b" "\<not> reachable w b a"
    and v: "wired v" "bridged a b w v"
    and p: "unat p < length (conns v a)" "conn_broker (conn v a (unat p)) = Some b"
    and part: "\<And>x. reachable w a x \<Longrightarrow> holds c es v x"
    and contents: "merged om_empty (listed es) = c" "merged om_empty (listed es') = c'"
    and causal: "causal c (unseen c es')" and room: "room (Clock_merge c c') 1"
    and b: "b_kind (broker_at v b) = Cache" "clock_le c' (Broker_clock v b)" "room (Broker_clock v b) 1"
    and run: "BrokerBase_insert_all n a (unseen c es') p v = Inr (r, v')"
  shows "wiring v' = wiring v" and "\<And>x. live w x \<Longrightarrow> \<not> reachable w a x \<Longrightarrow> unmoved v v' x"
    and "\<And>x. reachable w a x \<Longrightarrow> holds (Clock_merge c c') (put_all (unseen c es') es) v' x"
proof -
  let ?L = "unseen c es'"
  have merged: "merged c ?L = Clock_merge c c'" using merged_unseen contents(2) by simp
  have covers: "clock_le (entry_clock e) c' \<and> \<not> clock_le (entry_clock e) c" if "e \<in> set ?L" for e
    using that covered_merged [OF contents(2)] by (auto simp: in_unseen)
  have live: "live v x = live w x" for x using v(2) by (simp add: bridged_def)
  have border: "bordered (\<lambda>x. \<not> reachable w a x) e v" if e: "e \<in> set ?L" for e
    unfolding bordered_def
  proof (intro allI impI)
    fix x y assume x: "live v x" "\<not> \<not> reachable w a x" and y: "y \<in> set (neighbours v x)" "\<not> reachable w a y"
    have "y \<notin> set (neighbours w x)" using x(2) y(2) reachable.step by blast
    then have "y = b" using v(2) y(1) x(2) apart by (auto simp: bridged_def)
    moreover have "clock_le (entry_clock e) (Broker_clock v b)"
      using covers [OF e] b(2) clock_le_trans by blast
    ultimately show "declines e v y" using b(1,3) covered_not_next by (simp add: declines_def)
  qed
  have new: "om_find es (entry_clock e) = None" if "e \<in> set ?L" for e
    using covered_merged [OF contents(1)] covers [OF that] by (cases "om_find es (entry_clock e)") auto
  have "wiring v' = wiring v \<and> (\<forall>x. live v x \<longrightarrow> \<not> reachable w a x \<longrightarrow> unmoved v v' x) \<and>
    (\<forall>x. reachable w a x \<longrightarrow> holds (merged c ?L) (put_all ?L es) v' x)"
  proof (rule insert_all_reaches_part [OF v(1) causal distinct_unseen _ new border])
    show "room (merged c ?L) 1" using room merged by simp
    show "unat p < length (conns v a)" by (rule p(1))
    show "\<not> reachable w a x" if "conn_broker (conn v a (unat p)) = Some x" for x
      using that p(2) apart(1) by simp
    show "set (neighbours w x) \<subseteq> set (neighbours v x)" for x using v(2) by (simp add: bridged_def)
    show "live v x" if "reachable w a x" for x using reachable_live [OF w(1,2) that] live by simp
  qed (use w live part run in auto)
  then show "wiring v' = wiring v" "\<And>x. live w x \<Longrightarrow> \<not> reachable w a x \<Longrightarrow> unmoved v v' x"
    "\<And>x. reachable w a x \<Longrightarrow> holds (Clock_merge c c') (put_all ?L es) v' x"
    using merged live by simp_all
qed

text \<open>The calls of the exchange, one after the other.\<close>

lemma exchange_steps:
  assumes run: "Broker_exchange (Suc m) a p z = Inr w'"
    and a: "b_kind (broker_at z a) = Cache" and b: "Connection_broker z (conn z a (unat p)) = Some b"
      "b_kind (broker_at z b) = Cache"
    and wires: "wired z" "live z a" "unat p < length (conns z a)"
  obtains r u where
      "BrokerBase_insert_all (Suc m) a (unseen (Broker_clock z a) (b_entries (broker_at z b))) p z = Inr (r, u)"
    and "wiring u = wiring z \<Longrightarrow> \<exists>q v. BrokerBase_insert_all (Suc m) b
        (unseen (conn_version (conn z a (unat p))) (b_entries (broker_at z a)))
        (conn_source (conn z a (unat p))) u = Inr (q, v) \<and>
      (wiring v = wiring u \<longrightarrow> (\<forall>c es x. holds c es v x \<longrightarrow> live z x \<longrightarrow> holds c es w' x))"
proof -
  define mine where "mine = unseen (conn_version (conn z a (unat p))) (b_entries (broker_at z a))"
  define theirs where "theirs = unseen (Broker_clock z a) (b_entries (broker_at z b))"
  have queries: "BrokerBase_query (Suc m) z a (conn_version (conn z a (unat p))) p = Inr mine"
    "Connection_query (BrokerBase_query (Suc m)) z (conn z a (unat p)) (Broker_clock z a) = Inr theirs"
    using query_unseen [OF a] query_unseen [OF b(2)] b(1)
    by (simp_all add: mine_def theirs_def Connection_query_def del: BrokerBase_query.simps)
  have "andThen (if theirs = [] then Inr z
      else andThen (BrokerBase_insert_all (Suc m) a theirs p z) (\<lambda>(_, w). Inr w)) (\<lambda>u.
    andThen (if mine = [] then Inr u
      else andThen (Connection_insert_all (Suc m) a (unat p) mine u) (\<lambda>(_, w). Inr w)) (\<lambda>v.
    Broker_refreshConnections (BrokerBase_refresh (Suc m)) a p v)) = Inr w'"
    using run by (simp only: Broker_exchange_def queries andThen_simps)
  then obtain u v where u: "(if theirs = [] then Inr z
        else andThen (BrokerBase_insert_all (Suc m) a theirs p z) (\<lambda>(_, w). Inr w)) = Inr u"
    and v: "(if mine = [] then Inr u
        else andThen (Connection_insert_all (Suc m) a (unat p) mine u) (\<lambda>(_, w). Inr w)) = Inr v"
    and last: "Broker_refreshConnections (BrokerBase_refresh (Suc m)) a p v = Inr w'"
    unfolding andThen_Inr by blast
  obtain r where r: "BrokerBase_insert_all (Suc m) a theirs p z = Inr (r, u)"
    using u by (cases "theirs = []") (auto simp: BrokerBase_insert_all_def cashmere_errors)
  show thesis
  proof (rule that [of r u])
    show "BrokerBase_insert_all (Suc m) a (unseen (Broker_clock z a) (b_entries (broker_at z b))) p z = Inr (r, u)"
      using r by (simp add: theirs_def)
    assume uz: "wiring u = wiring z"
    have far: "Connection_broker u (conn u a (unat p)) = Some b"
      "conn_source (conn u a (unat p)) = conn_source (conn z a (unat p))"
      using wiring_Connection_broker [OF uz [symmetric] wires(3)] b(1) by simp_all
    have "conn_broker (conn z a (unat p)) = Some b" using b(1) by (simp add: Connection_broker_live)
    then have p: "unat p \<noteq> 0" using wired_conn(1) [OF wires] by simp
    obtain q x where q: "BrokerBase_insert_all (Suc m) b mine (conn_source (conn z a (unat p))) u = Inr (q, x)"
      and x: "v = x \<or> v = set_conn a (unat p) (\<lambda>c. c\<lparr>conn_sources := learn q (conn_sources c)\<rparr>) x"
    proof (cases "mine = []")
      case True
      then show thesis using v that [of "Broker_clock u b" u] by (simp add: BrokerBase_insert_all_def)
    next
      case False
      then show thesis using v far that
        by (auto simp: Connection_insert_all_def cashmere_errors split: if_splits)
    qed
    have "holds c es x y \<Longrightarrow> holds c es v y" for c es y using x p by (auto simp: holds_set_conn)
    moreover have "same_state v w'" using last by (rule quiet.refreshConnections)
    moreover have "live v y = live x y" for y using x by auto
    ultimately have "\<forall>c es y. holds c es x y \<longrightarrow> live z y \<longrightarrow> holds c es w' y" if "wiring x = wiring u"
      using wiring_live [OF that] wiring_live [OF uz] by (auto simp: holds_def same_state_def frame_def)
    then show "\<exists>q v. BrokerBase_insert_all (Suc m) b
        (unseen (conn_version (conn z a (unat p))) (b_entries (broker_at z a)))
        (conn_source (conn z a (unat p))) u = Inr (q, v) \<and>
      (wiring v = wiring u \<longrightarrow> (\<forall>c es x. holds c es v x \<longrightarrow> live z x \<longrightarrow> holds c es w' x))"
      using q by (auto simp: mine_def)
  qed
qed

lemma holds_same_state: "same_state w z \<Longrightarrow> live w x \<Longrightarrow> holds c es w x \<Longrightarrow> holds c es z x"
  by (auto simp: same_state_def holds_def frame_def)

text \<open>The brokers that walks of \<open>w\<close> from \<open>a\<close> lead to agree in \<open>v\<close>.\<close>

definition part_agrees :: "world \<Rightarrow> addr \<Rightarrow> clock \<Rightarrow> (clock, data) omap \<Rightarrow> world \<Rightarrow> bool" where
  "part_agrees w a c es v \<longleftrightarrow>
     list_all (\<lambda>(x, _). reachable w a x \<longrightarrow> holds c es v x) (entries (w_brokers v))"

lemma part_agrees_live: "part_agrees w a c es v \<longleftrightarrow> (\<forall>x. live v x \<longrightarrow> reachable w a x \<longrightarrow> holds c es v x)"
  by (auto simp: part_agrees_def live_entries list_all_iff)

text \<open>Two parts, each in agreement and each with a clock that is the merge of the clocks of its
  entries, of which neither lacks what its clock covers.\<close>

definition mergeable :: "clock \<Rightarrow> (clock, data) omap \<Rightarrow> clock \<Rightarrow> (clock, data) omap \<Rightarrow> bool" where
  "mergeable c es c' es' \<longleftrightarrow> merged om_empty (listed es) = c \<and> merged om_empty (listed es') = c' \<and>
     causal c (unseen c es') \<and> caught_up c es es' \<and> room (Clock_merge c c') 1"

lemma exchange_merges:
  assumes w: "wired w" "a \<noteq> b" "live w a" "live w b" and apart: "\<not> reachable w a b"
    and kinds: "b_kind (broker_at w a) = Cache" "b_kind (broker_at w b) = Cache"
    and parts: "part_agrees w a c1 es1 w" "part_agrees w b c2 es2 w"
    and contents: "mergeable c1 es1 c2 es2" "mergeable c2 es2 c1 es1"
    and z: "same_net (joined a b w) z" "same_state w z" "wired z"
    and ports: "unat p = length (conns w a)" "length (conns w b) < 2 ^ 32"
      "conn_version (conn z a (unat p)) = Broker_clock w b"
    and run: "Broker_exchange (Suc m) a p z = Inr w'"
  shows "\<And>x. reachable w a x \<or> reachable w b x \<Longrightarrow> holds (Clock_merge c1 c2) (om_absorb es1 es2) w' x"
proof -
  have apart_b: "\<not> reachable w b a" using reachable_back [OF w(1,4)] apart by blast
  have live: "reachable w a x \<or> reachable w b x \<Longrightarrow> live w x" for x using reachable_live w by blast
  have old: "reachable w a x \<Longrightarrow> holds c1 es1 w x" "reachable w b x \<Longrightarrow> holds c2 es2 w x" for x
    using parts live by (simp_all add: part_agrees_live)
  have zlive: "live z x = live w x" for x
    using wiring_live [of z "joined a b w" x] z(1) by (simp add: same_net_def)
  have zold: "reachable w a x \<Longrightarrow> holds c1 es1 z x" "reachable w b x \<Longrightarrow> holds c2 es2 z x" for x
    using holds_same_state [OF z(2)] live old by blast+
  have kinds: "b_kind (broker_at z a) = Cache" "b_kind (broker_at z b) = Cache"
    using z(2) w kinds by (simp_all add: same_state_def frame_def)
  have held: "Broker_clock z a = c1" "b_entries (broker_at z a) = es1" "Broker_clock z b = c2"
      "b_entries (broker_at z b) = es2" "Broker_clock w b = c2"
    using zold(1) [OF reachable.here] zold(2) [OF reachable.here] old(2) [OF reachable.here] kinds
    by (simp_all add: holds_def)
  note far = joined_far [OF w(2-4) z(1), folded ports(1)]
  have over: "conn_broker (conn z a (unat p)) = Some b" using far(2) by (simp add: Connection_broker_live)
  obtain q where q: "q = conn_source (conn z a (unat p))" by simp
  have back_port: "unat q < length (conns z b)" "conn_broker (conn z b (unat q)) = Some a"
    using wired_conn(3,4) [OF z(3) _ far(1) over] w(3) zlive by (simp_all add: q)
  have bridge: "bridged a b w z"
    using bridged_joined [OF w(2-4)] z(1) bridged_wiring by (simp add: same_net_def)
  have rooms: "room c2 1" "room (Clock_merge c1 c2) 1" "room (Clock_merge c2 c1) 1"
    using contents room_le [OF _ merge_upper(2), of c1 c2 1] by (simp_all add: mergeable_def)
  obtain r u where u: "BrokerBase_insert_all (Suc m) a (unseen c1 es2) p z = Inr (r, u)"
    and then_b: "wiring u = wiring z \<Longrightarrow> \<exists>s v. BrokerBase_insert_all (Suc m) b (unseen c2 es1) q u = Inr (s, v) \<and>
      (wiring v = wiring u \<longrightarrow> (\<forall>c es x. holds c es v x \<longrightarrow> live z x \<longrightarrow> holds c es w' x))"
    by (rule exchange_steps [OF run kinds(1) far(2) kinds(2) z(3) _ far(1)])
      (use w(3) zlive held ports(3) q in auto)
  have first: "wiring u = wiring z" "\<And>x. live w x \<Longrightarrow> \<not> reachable w a x \<Longrightarrow> unmoved z u x"
    "\<And>x. reachable w a x \<Longrightarrow> holds (Clock_merge c1 c2) (put_all (unseen c1 es2) es1) u x"
    using pass_on [OF w(1,3,4) apart apart_b z(3) bridge far(1) over zold(1) _ _ _ rooms(2) kinds(2) _ _ u]
      contents(1) held(3) rooms(1) by (simp_all add: mergeable_def)
  obtain s v where v: "BrokerBase_insert_all (Suc m) b (unseen c2 es1) q u = Inr (s, v)"
    and last: "wiring v = wiring u \<Longrightarrow> holds c es v x \<Longrightarrow> live z x \<Longrightarrow> holds c es w' x" for c es x
    using then_b [OF first(1)] by blast
  have u_a: "Broker_clock u a = Clock_merge c1 c2" "b_kind (broker_at u a) = Cache"
    using first(3) [OF reachable.here] kinds(1) wiring_kind [OF first(1)] by (simp_all add: holds_def)
  have q_u: "unat q < length (conns u b)" "conn_broker (conn u b (unat q)) = Some a"
    using back_port wiring_length [OF first(1), of b] wiring_ends(1) [OF first(1), of b "unat q"] by simp_all
  have u_b: "holds c2 es2 u x" if "reachable w b x" for x
  proof -
    have "\<not> reachable w a x" using reachable_meet [OF w(1,4) _ that] apart by blast
    then show ?thesis using first(2) live zold(2) that wiring_kind [OF first(1)]
      by (auto simp: unmoved_def holds_def)
  qed
  have second: "wiring v = wiring u" "\<And>x. live w x \<Longrightarrow> \<not> reachable w b x \<Longrightarrow> unmoved u v x"
    "\<And>x. reachable w b x \<Longrightarrow> holds (Clock_merge c2 c1) (put_all (unseen c2 es1) es2) v x"
    using pass_on [OF w(1,4,3) apart_b apart _ bridged_swap q_u u_b _ _ _ rooms(3) u_a(2) _ _ v]
      contents(2) u_a(1) rooms(2) wiring_wired [OF first(1) [symmetric] z(3)]
      bridged_wiring [OF first(1) bridge] by (simp_all add: mergeable_def)
  have union: "put_all (unseen c1 es2) es1 = om_absorb es1 es2" "put_all (unseen c2 es1) es2 = om_absorb es1 es2"
    using contents put_unseen [of es1 c1 es2 c2] by (simp_all add: mergeable_def)
  show "holds (Clock_merge c1 c2) (om_absorb es1 es2) w' x" if x: "reachable w a x \<or> reachable w b x" for x
  proof (rule last [OF second(1)])
    show "live z x" using live [OF x] zlive by simp
    show "holds (Clock_merge c1 c2) (om_absorb es1 es2) v x"
    proof (cases "reachable w b x")
      case True
      then show ?thesis using second(3) union merge_commute [of c1] by simp
    next
      case False
      then have "holds (Clock_merge c1 c2) (om_absorb es1 es2) u x" "unmoved u v x"
        using x first(3) second(2) live union(1) by auto
      then show ?thesis using wiring_kind [OF second(1)] by (simp add: holds_def unmoved_def)
    qed
  qed
qed

section \<open>Theorems\<close>


text \<open>A cache and a hub that hold an entry of device 1, and two caches that hold two entries of
  device 2.\<close>

definition two_entries :: "(clock, data) omap" where
  "two_entries = om_init [(Clock_init [(2, 1)], Data_of 2 7 om_empty), (Clock_init [(2, 2)], Data_of 2 8 om_empty)]"

definition two_pairs :: world where
  "two_pairs = world_of
     [member Cache 1 trio_clock [(1, 1)] trio_entries,
      member Hub 3 trio_clock [(0, 1)] om_empty,
      member Cache 2 (Clock_init [(2, 2)]) [(3, 1)] two_entries,
      member Cache 4 (Clock_init [(2, 2)]) [(2, 1)] two_entries]"

lemma two_pairs_settled: "settled two_pairs"
proof -
  have "wired two_pairs" by (simp add: eval_simps sample_simps two_pairs_def)
  then show ?thesis
    by (simp add: settled_def) (simp add: eval_simps sample_simps two_pairs_def registered_def named_back_def)
qed

lemma two_pairs_neighbours: "neighbours two_pairs 0 = [1]" "neighbours two_pairs 1 = [0]"
  "neighbours two_pairs 2 = [3]" "neighbours two_pairs 3 = [2]"
  by (simp_all add: eval_simps sample_simps two_pairs_def neighbours_def)

lemma two_pairs_reachable:
  "reachable two_pairs 0 x \<Longrightarrow> x = 0 \<or> x = 1" "reachable two_pairs 2 x \<Longrightarrow> x = 2 \<or> x = 3"
proof -
  show "reachable two_pairs 0 x \<Longrightarrow> x = 0 \<or> x = 1"
    by (induction rule: reachable.induct) (auto simp: two_pairs_neighbours simp del: One_nat_def)
  show "reachable two_pairs 2 x \<Longrightarrow> x = 2 \<or> x = 3"
    by (induction rule: reachable.induct) (auto simp: two_pairs_neighbours)
qed

lemma two_pairs_agree:
  "part_agrees two_pairs 0 trio_clock trio_entries two_pairs"
  "part_agrees two_pairs 2 (Clock_init [(2, 2)]) two_entries two_pairs"
proof -
  have "holds trio_clock trio_entries two_pairs 0" "holds trio_clock trio_entries two_pairs 1"
    "holds (Clock_init [(2, 2)]) two_entries two_pairs 2" "holds (Clock_init [(2, 2)]) two_entries two_pairs 3"
    by (simp_all add: eval_simps sample_simps two_pairs_def)
  then show "part_agrees two_pairs 0 trio_clock trio_entries two_pairs"
    "part_agrees two_pairs 2 (Clock_init [(2, 2)]) two_entries two_pairs"
    using two_pairs_reachable by (auto simp: part_agrees_live)
qed

lemma two_pairs_mergeable:
  "mergeable trio_clock trio_entries (Clock_init [(2, 2)]) two_entries"
  "mergeable (Clock_init [(2, 2)]) two_entries trio_clock trio_entries"
  by (simp_all add: mergeable_def eval_simps sample_simps two_entries_def listed_def unseen_def caught_up_def
      merged_def)

lemma two_pairs_bounded:
  "bounded 3 (joined 0 2 two_pairs) 0 2" "bounded 3 (joined 0 2 two_pairs) 2 2"
  by (simp_all add: eval_simps sample_simps two_pairs_def joined_def new_port_def numeral_3_eq_3)


end
