(* ===== verification/File_Journal.thy ===== *)
theory File_Journal
  imports Soundness
begin

text \<open>
  A file journal as a whole: \<open>JournalBase::insert\<close> over the files of \<open>JournalFile\<close>. While entries
  arrive in order, line \<open>k\<close> of a device's file is the entry with counter \<open>k\<close> of that device, so
  that what was inserted is listed and found; after a restart the journal starts to count anew on
  old files, and no longer.
\<close>

section \<open>Lines are counters\<close>

text \<open>A journal that stands alone: it has its front connection only.\<close>

definition stands_alone :: "world \<Rightarrow> addr \<Rightarrow> bool" where
  "stands_alone w a \<longleftrightarrow> live w a \<and> b_kind (broker_at w a) = File \<and> length (conns w a) = 1"

definition counter :: "clock \<Rightarrow> ident \<Rightarrow> nat" where
  "counter c i = (case om_find c i of None \<Rightarrow> 0 | Some t \<Rightarrow> unat t)"

text \<open>An entry in order adds nothing but its own counter to the clock.\<close>

definition in_order :: "clock \<Rightarrow> entry \<Rightarrow> bool" where
  "in_order c e \<longleftrightarrow> Clock_merge c (entry_clock e) = Clock_tick c (data_id (entry_data e)) \<and>
     list_all (\<lambda>(_, t). t \<noteq> 0) (entries (entry_clock e))"

fun all_in_order :: "clock \<Rightarrow> entry list \<Rightarrow> bool" where
  "all_in_order c [] = True"
| "all_in_order c (e # es) \<longleftrightarrow> in_order c e \<and> all_in_order (Clock_merge c (entry_clock e)) es"

definition disciplined :: "world \<Rightarrow> addr \<Rightarrow> (ident \<Rightarrow> entry list) \<Rightarrow> bool" where
  "disciplined w a log \<longleftrightarrow> logged w a log \<and> stands_alone w a \<and>
     (\<forall>i. length (log i) = counter (Broker_clock w a) i) \<and>
     (\<forall>i k. k < length (log i) \<longrightarrow> om_find (entry_clock (log i ! k)) i = Some (of_nat (Suc k))) \<and>
     (\<forall>i e. e \<in> set (log i) \<longrightarrow> clock_le (entry_clock e) (Broker_clock w a) \<and>
        list_all (\<lambda>(_, t). t \<noteq> 0) (entries (entry_clock e))) \<and>
     inj_on entry_clock (\<Union>i. set (log i))"

lemma counter_less: "counter c i < 2 ^ 64"
proof (cases "om_find c i")
  case (Some t)
  have "unat t < 2 ^ LENGTH(64)" by (rule unsigned_less)
  with Some show ?thesis by (simp add: counter_def)
qed (simp add: counter_def)

lemma in_order_counter:
  assumes "in_order c e"
  shows "om_find (entry_clock e) (data_id (entry_data e)) = Some (of_nat (Suc (counter c (data_id (entry_data e)))))"
    and "counter (Clock_merge c (entry_clock e)) i =
      (if i = data_id (entry_data e) then Suc (counter c i) else counter c i)"
    and "Clock_isNext (entry_clock e) c (data_id (entry_data e))"
    and "\<not> clock_le (entry_clock e) c"
proof -
  define j where "j = data_id (entry_data e)"
  have merge: "max (om_find c i) (om_find (entry_clock e) i) = om_find (Clock_tick c j) i" for i
    using assms by (metis find_merge in_order_def j_def)
  have j: "om_find (entry_clock e) j = Some ((case om_find c j of None \<Rightarrow> 0 | Some t \<Rightarrow> t) + 1) \<and>
      counter (Clock_tick c j) j = Suc (counter c j)"
  proof (cases "om_find c j")
    case None
    then show ?thesis using merge [of j] by (auto simp: find_tick counter_def max_def split: if_splits)
  next
    case (Some t)
    then have max: "max (Some t) (om_find (entry_clock e) j) = Some (t + 1)"
      using merge [of j] by (simp add: find_tick)
    moreover have "t \<noteq> t + 1" by simp
    ultimately have e: "om_find (entry_clock e) j = Some (t + 1)" "t \<le> t + 1"
      by (auto simp: max_def split: if_splits)
    then have "t + 1 \<noteq> 0" by (metis \<open>t \<noteq> t + 1\<close> word_le_0_iff)
    then have "unat (t + 1) = Suc (unat t)" using unatSuc [of t] by (simp add: add.commute)
    then show ?thesis using Some e by (simp add: find_tick counter_def)
  qed
  moreover have "of_nat (Suc (counter c j)) = (case om_find c j of None \<Rightarrow> 0 | Some t \<Rightarrow> t) + (1 :: 64 word)"
    by (simp add: counter_def split: option.split)
  ultimately show "om_find (entry_clock e) (data_id (entry_data e)) = Some (of_nat (Suc (counter c (data_id (entry_data e)))))"
    by (simp add: j_def)
  show "counter (Clock_merge c (entry_clock e)) i =
      (if i = data_id (entry_data e) then Suc (counter c i) else counter c i)"
    using j assms by (auto simp: in_order_def counter_def find_tick simp flip: j_def)
  show "Clock_isNext (entry_clock e) c (data_id (entry_data e))"
    using j by (auto simp: Clock_isNext_def simp flip: j_def split: option.split)
  show "\<not> clock_le (entry_clock e) c"
  proof
    assume "clock_le (entry_clock e) c"
    then have "counter c j = Suc (counter c j)"
      using j assms clock_le_merge_iff [of "entry_clock e" c] merge_commute [of c "entry_clock e"]
      by (simp add: in_order_def j_def)
    then show False by simp
  qed
qed

section \<open>Inserting into a file journal\<close>

lemma files_set_broker [simp]: "w_files (set_broker a f w) = w_files w"
  by (simp add: set_broker_def split: option.split)

lemma logged_acknowledged [simp]: "logged (acknowledged a e s w) b log = logged w b log"
proof -
  have "w_files (acknowledged a e s w) = w_files w"
    by (simp add: acknowledged_def Let_def Broker_setClock_def set_conn_def)
  moreover have "b_url (broker_at (acknowledged a e s w) b) = b_url (broker_at w b)"
    using wiring_frame [OF wiring_acknowledged, of a e s w b] by (simp add: frame_def)
  ultimately show ?thesis by (simp add: logged_def file_of_def)
qed

lemma stands_alone_same_net: "same_net w w' \<Longrightarrow> stands_alone w a \<Longrightarrow> stands_alone w' a"
  using wiring_live [of w' w a] wiring_kind [of w' w a] wiring_length [of w' w a]
  by (simp add: stands_alone_def same_net_def)

lemma alone_insert:
  assumes a: "stands_alone w a" and log: "logged w a log"
    and isNext: "Clock_isNext (entry_clock e) (Broker_clock w a) (data_id (entry_data e))"
  obtains w' where "BrokerBase_insert (Suc n) a e 0 w = Inr (Clock_merge (Broker_clock w a) (entry_clock e), w')"
    and "Broker_clock w' a = Clock_merge (Broker_clock w a) (entry_clock e)"
    and "logged w' a (\<lambda>i. if i = data_id (entry_data e) then log i @ [e] else log i)"
    and "stands_alone w' a"
proof -
  obtain v where v: "JournalFile_save a e w = (True, v)" "w_brokers v = w_brokers w"
    "logged v a (\<lambda>i. if i = data_id (entry_data e) then log i @ [e] else log i)"
    using file_save_logs [OF log] by blast
  have at: "broker_at v a = broker_at w a" by (simp add: broker_at_def v(2))
  have some: "conns v a \<noteq> []" and range: "[0..<length (conns v a)] = [0]"
    using a by (auto simp: stands_alone_def at)
  have clock: "Broker_clock (acknowledged a e 0 v) a = Clock_merge (Broker_clock w a) (entry_clock e)"
    using clock_acknowledged [OF some, of e 0 a] at by (simp add: Broker_clock_def)
  have "Broker_insert call a e 0 v = Inr (Broker_clock (acknowledged a e 0 v) a, acknowledged a e 0 v)" for call
    using some range by (subst Broker_insert_steps) (simp_all add: forwarded_def)
  then have run: "BrokerBase_insert (Suc n) a e 0 w =
      Inr (Clock_merge (Broker_clock w a) (entry_clock e), acknowledged a e 0 v)"
    using a isNext v(1) clock by (simp add: stands_alone_def JournalBase_insert_def BrokerBase_save_def)
  then show thesis using that clock v(3) stands_alone_same_net [OF nets.insert [OF run] a] by simp
qed

lemma disciplined_insert:
  assumes w: "disciplined w a log" and e: "in_order (Broker_clock w a) e"
  shows "\<exists>w'. BrokerBase_insert (Suc n) a e 0 w = Inr (Clock_merge (Broker_clock w a) (entry_clock e), w') \<and>
    Broker_clock w' a = Clock_merge (Broker_clock w a) (entry_clock e) \<and>
    disciplined w' a (\<lambda>i. if i = data_id (entry_data e) then log i @ [e] else log i)"
proof -
  note new = in_order_counter [OF e]
  have old: "clock_le (entry_clock e') (Broker_clock w a)" if "e' \<in> set (log i)" for i e'
    using w that by (auto simp: disciplined_def)
  obtain w' where run: "BrokerBase_insert (Suc n) a e 0 w = Inr (Clock_merge (Broker_clock w a) (entry_clock e), w')"
    and w': "Broker_clock w' a = Clock_merge (Broker_clock w a) (entry_clock e)"
      "logged w' a (\<lambda>i. if i = data_id (entry_data e) then log i @ [e] else log i)" "stands_alone w' a"
    using alone_insert [OF _ _ new(3), of log n] w unfolding disciplined_def by blast
  have "inj_on entry_clock (insert e (\<Union>i. set (log i)))"
    using w old new(4) by (fastforce simp: disciplined_def)
  moreover have "(\<Union>i. set (if i = data_id (entry_data e) then log i @ [e] else log i)) =
      insert e (\<Union>i. set (log i))"
    by (auto split: if_splits)
  ultimately have inj: "inj_on entry_clock (\<Union>i. set (if i = data_id (entry_data e) then log i @ [e] else log i))"
    by simp
  have le: "clock_le (entry_clock e') (Clock_merge (Broker_clock w a) (entry_clock e))"
    if "e' \<in> set (log i)" for i e'
    using old [OF that] merge_upper(1) by (rule clock_le_trans)
  have line: "om_find (entry_clock ((if i = data_id (entry_data e) then log i @ [e] else log i) ! k)) i =
      Some (of_nat (Suc k))"
    if "k < length (if i = data_id (entry_data e) then log i @ [e] else log i)" for i k
    using that w new(1) by (auto simp: disciplined_def nth_append less_Suc_eq split: if_splits)
  have len: "length (if i = data_id (entry_data e) then log i @ [e] else log i) =
      counter (Clock_merge (Broker_clock w a) (entry_clock e)) i" for i
    using w by (simp add: disciplined_def new(2))
  have fine: "clock_le (entry_clock e') (Clock_merge (Broker_clock w a) (entry_clock e)) \<and>
      list_all (\<lambda>(_, t). t \<noteq> 0) (entries (entry_clock e'))"
    if "e' \<in> set (if i = data_id (entry_data e) then log i @ [e] else log i)" for i e'
  proof -
    have "e' = e \<or> e' \<in> set (log i)" using that by (auto split: if_splits)
    then show ?thesis using w e le merge_upper(2) unfolding disciplined_def in_order_def by blast
  qed
  show ?thesis using run w' inj len line fine unfolding disciplined_def by simp
qed

lemma disciplined_insert_all:
  assumes "disciplined w a log" and "all_in_order (Broker_clock w a) es"
  shows "\<exists>c w'. BrokerBase_insert_all (Suc n) a es 0 w = Inr (c, w') \<and>
    disciplined w' a (\<lambda>i. log i @ device_log es i)"
  using assms
proof (induction es arbitrary: w log)
  case Nil
  then show ?case by (simp add: BrokerBase_insert_all_def device_log_def)
next
  case (Cons e es)
  obtain v where v: "BrokerBase_insert (Suc n) a e 0 w = Inr (Clock_merge (Broker_clock w a) (entry_clock e), v)"
    "Broker_clock v a = Clock_merge (Broker_clock w a) (entry_clock e)"
    "disciplined v a (\<lambda>i. if i = data_id (entry_data e) then log i @ [e] else log i)"
    using disciplined_insert [OF Cons.prems(1), of e n] Cons.prems(2) by auto
  obtain c w' where w': "BrokerBase_insert_all (Suc n) a es 0 v = Inr (c, w')"
    "disciplined w' a (\<lambda>i. (if i = data_id (entry_data e) then log i @ [e] else log i) @ device_log es i)"
    using Cons.IH [OF v(3)] Cons.prems(2) v(2) by auto
  have "(\<lambda>i. (if i = data_id (entry_data e) then log i @ [e] else log i) @ device_log es i) =
      (\<lambda>i. log i @ device_log (e # es) i)"
    by (auto simp: device_log_def)
  then show ?case using v(1) w' by (auto simp: BrokerBase_insert_all_def cashmere_errors)
qed

section \<open>Reading it back\<close>

lemma disciplined_entries:
  assumes "disciplined w a log"
  shows "JournalFile_entries w a = concat (map (\<lambda>(i, _). log i) (entries (Broker_clock w a)))"
proof -
  have count: "unat t = length (log i)" if "(i, t) \<in> set (entries (Broker_clock w a))" for i t
    using that assms by (simp add: disciplined_def counter_def flip: om_find_iff)
  then have "JournalFile_entries w a =
      concat (map (\<lambda>(i, t). take (unat t) (log i)) (entries (Broker_clock w a)))"
    using assms by (intro file_entries_logged) (auto simp: disciplined_def list_all_iff)
  also have "map (\<lambda>(i, t). take (unat t) (log i)) (entries (Broker_clock w a)) =
      map (\<lambda>(i, _). log i) (entries (Broker_clock w a))"
    using count by auto
  finally show ?thesis .
qed

lemma disciplined_lookup:
  assumes w: "disciplined w a log" and e: "e \<in> set (log i)"
  shows "JournalFile_entry w a (entry_clock e) = entry_data e"
  unfolding JournalFile_entry_def
proof (rule file_lookup_logged [where log = log])
  show "logged w a log" using w by (simp add: disciplined_def)
  show "e' = e" if "e' \<in> set (log j)" "entry_clock e' = entry_clock e" for j e'
    using w e that unfolding disciplined_def inj_on_def by blast
  show "0 < unat t \<and> unat t \<le> length (log j)" if jt: "(j, t) \<in> set (entries (entry_clock e))" for j t
  proof -
    have clock: "clock_le (entry_clock e) (Broker_clock w a)"
      "list_all (\<lambda>(_, t). t \<noteq> 0) (entries (entry_clock e))"
      using w e unfolding disciplined_def by blast+
    then have "t \<noteq> 0" using jt by (auto simp: list_all_iff)
    moreover from clock(1) have "Some t \<le> om_find (Broker_clock w a) j"
      using jt unfolding clock_le_def om_find_iff [symmetric] by metis
    ultimately show ?thesis using w
      by (auto simp: disciplined_def counter_def word_le_nat_alt unat_gt_0 split: option.splits)
  qed
  obtain k where k: "k < length (log i)" "e = log i ! k" using e by (metis in_set_conv_nth)
  then have find: "om_find (entry_clock e) i = Some (of_nat (Suc k))" using w by (simp add: disciplined_def)
  have "length (log i) < 2 ^ 64" using w counter_less unfolding disciplined_def by metis
  then have "Suc k < 2 ^ 64" using k(1) by simp
  then have "unat (of_nat (Suc k) :: time) - 1 = k"
    by (simp add: unat_of_nat take_bit_nat_eq_self del: of_nat_Suc)
  then show "\<exists>(j, t) \<in> set (entries (entry_clock e)). log j ! (unat t - 1) = e"
    using find k(2) by (intro bexI [of _ "(i, of_nat (Suc k))"]) (simp_all add: om_find_iff)
qed simp

lemma disciplined_start:
  assumes "stands_alone w a" and "\<And>i. om_find (w_files w) (file_of w a i) = None"
    and "Broker_clock w a = om_empty"
  shows "disciplined w a (\<lambda>_. [])"
  using assms by (simp add: disciplined_def logged_def counter_def)

lemma disciplined_listed:
  assumes w: "disciplined w a log"
  shows "set (JournalFile_entries w a) = (\<Union>i. set (log i))"
proof -
  have "i \<in> fst ` set (entries (Broker_clock w a))" if "e \<in> set (log i)" for e i
  proof -
    have "counter (Broker_clock w a) i = length (log i)" using w by (simp add: disciplined_def)
    then have "counter (Broker_clock w a) i \<noteq> 0" using that by auto
    then have "om_find (Broker_clock w a) i \<noteq> None" by (auto simp: counter_def split: option.splits)
    then show ?thesis by (simp add: om_find_None)
  qed
  then show ?thesis unfolding disciplined_entries [OF w] by fastforce
qed

lemma append_alone:
  fixes v :: amount
  assumes a: "stands_alone w a" and log: "logged w a log" and clock: "Broker_clock w a = om_empty"
    and i: "b_id (broker_at w a) \<noteq> 0"
  defines "e \<equiv> Entry_of (Clock_tick om_empty (b_id (broker_at w a))) (b_id (broker_at w a)) v om_empty"
  shows "\<exists>w'. BrokerBase_append_amount (Suc n) a v w = Inr (True, w') \<and>
    Broker_clock w' a = entry_clock e \<and>
    logged w' a (\<lambda>i. if i = b_id (broker_at w a) then log i @ [e] else log i)"
proof -
  have "Clock_isNext (entry_clock e) (Broker_clock w a) (data_id (entry_data e))"
    using clock by (simp add: e_def Clock_isNext_def find_tick)
  from alone_insert [OF a log this, of n]
  obtain w' where w': "BrokerBase_insert (Suc n) a e 0 w = Inr (entry_clock e, w')"
    "Broker_clock w' a = entry_clock e"
    "logged w' a (\<lambda>i. if i = data_id (entry_data e) then log i @ [e] else log i)"
    by (auto simp: clock)
  have "Clock_valid (entry_clock e)" using i by (simp add: e_def Clock_valid_def find_tick)
  then show ?thesis using w'
    by (simp add: BrokerBase_append_amount_def BrokerBase_append_def clock e_def del: BrokerBase_insert.simps)
qed

section \<open>Theorems\<close>

text \<open>C14: A file journal is a faithful record: of entries that arrive in order each is stored at the
  line of its counter in its device's file; the journal then lists exactly these entries, those of
  each device in their order, and finds each of them by its clock.\<close>

theorem file_journal_faithful:
  assumes "stands_alone w a" and "\<And>i. om_find (w_files w) (file_of w a i) = None"
    and "Broker_clock w a = om_empty" and "all_in_order om_empty es"
  shows "\<exists>c w'. BrokerBase_insert_all (Suc n) a es 0 w = Inr (c, w') \<and>
    BrokerBase_entries w' a = concat (map (\<lambda>(i, _). device_log es i) (entries (Broker_clock w' a))) \<and>
    set (BrokerBase_entries w' a) = set es \<and>
    (\<forall>e \<in> set es. BrokerBase_entry w' a (entry_clock e) = entry_data e)"
proof -
  obtain c w' where run: "BrokerBase_insert_all (Suc n) a es 0 w = Inr (c, w')"
    and w': "disciplined w' a (device_log es)"
    using disciplined_insert_all [OF disciplined_start [OF assms(1-3)], of es n] assms(3,4) by auto
  have kind: "b_kind (broker_at w' a) = File" using w' by (simp add: disciplined_def stands_alone_def)
  have "JournalFile_entry w' a (entry_clock e) = entry_data e" if "e \<in> set es" for e
    using that disciplined_lookup [OF w', of e "data_id (entry_data e)"] by (simp add: device_log_def)
  moreover have "(\<Union>i. set (device_log es i)) = set es" by (auto simp: device_log_def)
  ultimately show ?thesis
    using run disciplined_entries [OF w'] disciplined_listed [OF w'] kind
    by (simp add: BrokerBase_entries_def BrokerBase_entry_def)
qed

theorem file_journal_faithful_witness:
  "\<exists>c w'. BrokerBase_insert_all 1 0 [first_of_two, Entry_of (Clock_init [(2, 2)]) 2 8 om_empty] 0
        (file_journal om_empty om_empty) = Inr (c, w') \<and>
     set (BrokerBase_entries w' 0) = {first_of_two, Entry_of (Clock_init [(2, 2)]) 2 8 om_empty} \<and>
     BrokerBase_entry w' 0 (Clock_init [(2, 2)]) = Data_of 2 8 om_empty"
proof -
  have "stands_alone (file_journal om_empty om_empty) 0" "Broker_clock (file_journal om_empty om_empty) 0 = om_empty"
    "all_in_order om_empty [first_of_two, Entry_of (Clock_init [(2, 2)]) 2 8 om_empty]"
    by (simp_all add: eval_simps file_journal_def stands_alone_def live_def in_order_def first_of_two_def)
  then show ?thesis
    using file_journal_faithful [of "file_journal om_empty om_empty" 0
        "[first_of_two, Entry_of (Clock_init [(2, 2)]) 2 8 om_empty]" 0]
    by (fastforce simp: file_journal_def)
qed

text \<open>C39: A file journal does not survive a restart: the clock of a new process is empty, so the journal
  lists nothing of its files; the next entry of its device gets counter 1 but the line after the old
  ones, and the journal then shows the oldest entry in its place.\<close>

theorem restart_shows_old_entry:
  assumes "stands_alone w a" and "logged w a log" and "Broker_clock w a = om_empty"
    and "b_id (broker_at w a) \<noteq> 0" and "log (b_id (broker_at w a)) = old # later"
  shows "BrokerBase_entries w a = [] \<and>
    (\<exists>w'. BrokerBase_append_amount (Suc n) a v w = Inr (True, w') \<and> BrokerBase_entries w' a = [old])"
proof -
  obtain e w' where run: "BrokerBase_append_amount (Suc n) a v w = Inr (True, w')"
    and clock: "Broker_clock w' a = Clock_tick om_empty (b_id (broker_at w a))"
    and log: "logged w' a (\<lambda>i. if i = b_id (broker_at w a) then log i @ [e] else log i)"
    using append_alone [OF assms(1-4), of n v] by auto
  have files: "b_kind (broker_at w a) = File" "live w a" "length (conns w a) = 1"
    using assms(1) by (simp_all add: stands_alone_def)
  have "same_net w w'"
    using run by (auto simp: BrokerBase_append_amount_def BrokerBase_append_def cashmere_errors
        simp del: BrokerBase_insert.simps dest: nets.insert)
  then have "b_kind (broker_at w' a) = File" using wiring_kind [of w' w a] files by (simp add: same_net_def)
  moreover have "entries (Clock_tick om_empty i) = [(i, 1)]" for i
    by (simp add: Clock_tick_def om_update_def entries_put)
  ultimately have "BrokerBase_entries w' a = [old]"
    using file_entries_logged [OF log] clock assms(5) by (simp add: BrokerBase_entries_def)
  then show ?thesis
    using run files assms(3) by (simp add: BrokerBase_entries_def JournalFile_entries_def)
qed

theorem restart_shows_old_entry_witness:
  "\<exists>w'. BrokerBase_append_amount 1 0 5 (JournalFile_saves 0 [first_of_two] (file_journal om_empty om_empty)) =
      Inr (True, w') \<and> BrokerBase_entries w' 0 = [first_of_two]"
proof -
  let ?w = "JournalFile_saves 0 [first_of_two] (file_journal om_empty om_empty)"
  have "logged (file_journal om_empty om_empty) 0 (\<lambda>_. [])"
    by (simp add: logged_def file_journal_def)
  then have saved: "logged ?w 0 (device_log [first_of_two])"
    "w_brokers ?w = w_brokers (file_journal om_empty om_empty)"
    using saves_logged [of _ 0 "\<lambda>_. []" "[first_of_two]"] by simp_all
  have "stands_alone ?w 0" "Broker_clock ?w 0 = om_empty" "b_id (broker_at ?w 0) = 2"
    unfolding stands_alone_def live_def Broker_clock_def broker_at_def saved(2)
    by (simp_all add: eval_simps file_journal_def)
  then show ?thesis
    using restart_shows_old_entry [OF _ saved(1), of first_of_two "[]" 0 5]
    by (simp add: device_log_def) (simp add: first_of_two_def)
qed

end
