(* ===== verification/Effects.thy ===== *)
theory Effects
  imports Soundness
begin

text \<open>
  What a whole operation does to the world, from what its elementary steps do. The locale
  \<open>request_effect\<close> extends \<open>announce_effect\<close> by the other steps (an insertion, a new connection, a
  connection that is cut or told what its peer now knows, a new broker) and shows that every
  operation is made of them; theory \<open>Requests\<close> adds that sequences of requests are. The first
  interpretation: the store goes on knowing its brokers.
\<close>

section \<open>Operations and their steps\<close>

locale request_effect = announce_effect R for R :: "world \<Rightarrow> world \<Rightarrow> bool" +
  assumes inserted: "BrokerBase_insert n a e s w = Inr (c, w') \<Longrightarrow> R w w'"
    and pushed: "R w (push_conn a d w)"
    and cut: "R w (set_conn a i Connection_reset w)"
    and taught: "R w (set_conn a i (\<lambda>c. c\<lparr>conn_sources := learn k (conn_sources c)\<rparr>) w)"
    and created: "BrokerStore_getOrCreate u w = (r, w') \<Longrightarrow> R w w'"
begin

lemma insert_all:
  assumes "BrokerBase_insert_all n a es s w = Inr (c, w')"
  shows "R w w'"
proof -
  have "forEach es (\<lambda>e w. andThen (BrokerBase_insert n a e s w) (\<lambda>(_, w). Inr w)) w = Inr w'"
    using assms by (auto simp: BrokerBase_insert_all_def cashmere_errors)
  then show ?thesis
    by (rule forEach_invariant) (auto simp: cashmere_errors refl dest: inserted intro: trans)
qed

lemma insert_through:
  assumes "Connection_insert_all n a i es w = Inr (c, w')"
  shows "R w w'"
proof -
  obtain b v where "BrokerBase_insert_all n b es (conn_source (conn w a i)) w = Inr (c, v)"
    and "w' = v \<or> w' = set_conn a i (\<lambda>d. d\<lparr>conn_sources := learn c (conn_sources d)\<rparr>) v"
    using assms by (auto simp: Connection_insert_all_def cashmere_errors split: option.splits if_splits)
  then show ?thesis using insert_all taught trans by blast
qed

lemma relay: "BrokerBase_relay n a d s w = Inr (c, w') \<Longrightarrow> R w w'"
proof (induction n arbitrary: a d s c)
  case (Suc n)
  have "R w w'" if "Broker_relay (BrokerBase_relay n) (BrokerBase_insert n) a d s w = Inr (c, w')" for d
    using that Suc.IH inserted refl
    by (auto simp: Broker_relay_def Connection_relay_def split: option.splits prod.splits if_splits)
  then show ?case using Suc.prems by (auto simp: JournalBase_relay_def split: if_splits)
qed simp

lemma introduced: "introduction a p w = (d, w') \<Longrightarrow> R w w'"
  by (auto simp: introduction_def Let_def split: prod.splits intro: stub)

lemma exchange:
  assumes "Broker_exchange n a port w = Inr w'"
  shows "R w w'"
proof -
  obtain es fs u v where
    u: "(if fs = [] then Inr w
      else andThen (BrokerBase_insert_all n a fs port w) (\<lambda>(_, w). Inr w)) = Inr u"
    and v: "(if es = [] then Inr u
      else andThen (Connection_insert_all n a (unat port) es u) (\<lambda>(_, w). Inr w)) = Inr v"
    and w': "Broker_refreshConnections (BrokerBase_refresh n) a port v = Inr w'"
    using assms by (auto simp: Broker_exchange_def cashmere_errors)
  have "R w u" "R u v"
    using u v by (auto simp: cashmere_errors refl split: if_splits dest: insert_all insert_through)
  moreover have "R v w'" using w' by (rule refreshConnections)
  ultimately show ?thesis using trans by blast
qed

lemma connect_in:
  assumes "Broker_connect_in n a c w = Inr (out, w')"
  shows "R w w'"
proof -
  obtain s v where v: "BrokerBase_stub a w = (s, v)" by fastforce
  obtain d p where "Broker_refreshConnections (BrokerBase_refresh n) a p (push_conn a d v) = Inr w'"
    using assms v by (auto simp: Broker_connect_in_def Let_def cashmere_errors)
  then have "R (push_conn a d v) w'" by (rule refreshConnections)
  then show ?thesis using stub [OF v] pushed trans by blast
qed

text \<open>The number of connections, cut to a port, is not the front port.\<close>

lemma connecting_out:
  assumes run: "Broker_connect_out (BrokerBase_connect n) n a c w = Inr (out, w')"
    and a: "live w a" "(of_nat (length (conns w a)) :: source) \<noteq> 0"
  shows "R w w'"
proof -
  obtain s v where v: "BrokerBase_stub a w = (s, v)" by fastforce
  have same: "conns v a = conns w a" using stub_same [OF v a(1)] by simp
  let ?p = "of_nat (length (conns w a)) :: source" and ?u = "push_conn a c v"
  obtain d t where t: "introduction a ?p ?u = (d, t)" by fastforce
  have d: "conn_source d = ?p" using t by (rule source_introduction)
  show ?thesis
  proof (cases "Connection_valid v c")
    case False
    then show ?thesis using run v stub by (auto simp: Broker_connect_out_def)
  next
    case True
    then obtain y where call: "Connection_connect (BrokerBase_connect n) a (unat ?p) d t = Inr y"
      and exch: "Broker_exchange n a ?p y = Inr w'"
      using run v t same by (auto simp: Broker_connect_out_def Let_def cashmere_errors split: if_splits)
    obtain b other x where x: "BrokerBase_connect n b d t = Inr (other, x)"
      and y: "y = set_conn a (unat ?p) (heard other) x"
      using call by (auto simp: Connection_connect_def cashmere_errors heard_def [abs_def] split: option.splits)
    have "R t x" using x d a(2) by (cases n) (auto simp: Broker_connect_def intro: connect_in)
    moreover have "R x y" unfolding y using a(2) by (rule told)
    ultimately show ?thesis
      using stub [OF v] pushed [of v a c] introduced [OF t] exchange [OF exch] trans by blast
  qed
qed

lemma connect:
  assumes "BrokerBase_connect n a c w = Inr (out, w')"
    and "well_formed w" and "live w a" and "length (conns w a) < 2 ^ 32"
  shows "R w w'"
proof -
  have "(of_nat (length (conns w a)) :: source) \<noteq> 0"
    using well_formed_live(1) [OF assms(2,3)] unat_port [OF assms(4)] by force
  then show ?thesis using assms(1,3) connect_in connecting_out
    by (cases n) (auto simp: Broker_connect_def split: if_splits)
qed

lemma disconnect:
  assumes "Broker_disconnect n a p w = Inr (r, w')"
  shows "R w w'"
  using assms
proof (cases rule: disconnect_cases)
  case (2 b ok v)
  then show ?thesis using refresh refreshConnections cut trans by meson
qed (simp add: refl)

end

section \<open>The store knows its brokers\<close>

text \<open>A broker that lives in the store is found under its own URL, so its stub is itself.\<close>

definition filed :: "world \<Rightarrow> bool" where
  "filed w \<longleftrightarrow> (\<forall>a. live w a \<longrightarrow> registered w a)"

definition stays_filed :: "world \<Rightarrow> world \<Rightarrow> bool" where
  "stays_filed w w' \<longleftrightarrow> (filed w \<longrightarrow> filed w' \<and> (\<forall>a. live w a \<longrightarrow> live w' a))"

lemma files_refl [simp]: "stays_filed w w"
  by (simp add: stays_filed_def)

lemma files_trans: "stays_filed u v \<Longrightarrow> stays_filed v w \<Longrightarrow> stays_filed u w"
  by (simp add: stays_filed_def)

lemma files_set_conn [simp]: "stays_filed w (set_conn a i f w)"
  by (simp add: stays_filed_def filed_def registered_def)

lemma files_push: "stays_filed w (push_conn a c w)"
  by (simp add: stays_filed_def filed_def)

lemma files_same_net: "same_net w w' \<Longrightarrow> stays_filed w w'"
  using wiring_live [of w w'] wiring_frame [of w w']
  by (auto simp: stays_filed_def filed_def registered_def same_net_def frame_def)

lemma files_create:
  assumes "BrokerStore_getOrCreate u w = (r, w')"
  shows "stays_filed w w'"
proof -
  note keeps = getOrCreate_keeps [OF assms]
  have "registered w' a" if filed: "filed w" and a: "live w' a" for a
  proof (cases "live w a")
    case True
    then show ?thesis using filed keeps(2) [OF True] keeps(5) by (auto simp: filed_def registered_def)
  next
    case False
    from assms show ?thesis
    proof (cases rule: getOrCreate_cases)
      case (3 k b v)
      then have "a = fresh_addr v" using a False by (auto simp: live_def Impl_cases split: if_splits)
      then show ?thesis using 3 by (simp add: registered_def broker_at_def Impl_cases)
    qed (use a False in simp_all)
  qed
  then show ?thesis using keeps(1) by (simp add: stays_filed_def filed_def)
qed

lemma files_stub: "BrokerBase_stub a w = (c, w') \<Longrightarrow> stays_filed w w'"
  by (erule stub_cases) (auto intro: files_create)

interpretation filing: request_effect stays_filed
proof unfold_locales
  show "stays_filed w w'" if "BrokerBase_insert n a e s w = Inr (c, w')" for n a e s w c w'
    using files_same_net [OF nets.insert [OF that]] .
qed (auto intro: files_trans files_stub files_push files_create)

end
