(* ===== verification/Requests.thy ===== *)
theory Requests
  imports Effects Network
begin

text \<open>
  The operations of a network as one alphabet of requests, and the worlds they lead to from an
  empty store. \<open>Soundness\<close> shows what each operation keeps; here the pieces are put together: no
  sequence of requests leads to a world in which a request throws or follows a null pointer.
\<close>

section \<open>Requests\<close>

text \<open>\<open>BrokerStore::create\<close>: no broker, and the builders that the plugins provide.\<close>

definition BrokerStore_create ::
    "(string, kind) omap \<Rightarrow> (nat \<Rightarrow> ident) \<Rightarrow> (string, string) omap \<Rightarrow> world" where
  "BrokerStore_create builders random files =
     \<lparr>w_brokers = om_empty, w_store = om_empty, w_builders = builders, w_random = random,
      w_drawn = 0, w_files = files\<rparr>"

datatype request =
    Create string
  | Insert addr entry source
  | Insert_all addr "entry list" source
  | Append_data addr data
  | Relay_data addr data source
  | Query addr clock source
  | Refresh addr connection source
  | Connect_broker addr connection
  | Connect_url addr string
  | Disconnect_port addr source

primrec perform :: "nat \<Rightarrow> request \<Rightarrow> world \<Rightarrow> world outcome" where
  "perform n (Create u) w = Inr (snd (BrokerStore_getOrCreate u w))"
| "perform n (Insert a e s) w = andThen (BrokerBase_insert n a e s w) (\<lambda>(_, w). Inr w)"
| "perform n (Insert_all a es s) w = andThen (BrokerBase_insert_all n a es s w) (\<lambda>(_, w). Inr w)"
| "perform n (Append_data a d) w = andThen (BrokerBase_append n a d w) (\<lambda>(_, w). Inr w)"
| "perform n (Relay_data a d s) w = andThen (BrokerBase_relay n a d s w) (\<lambda>(_, w). Inr w)"
| "perform n (Query a c s) w = andThen (BrokerBase_query n w a c s) (\<lambda>_. Inr w)"
| "perform n (Refresh a d s) w = andThen (BrokerBase_refresh n a d s w) (\<lambda>(_, w). Inr w)"
| "perform n (Connect_broker a c) w = andThen (BrokerBase_connect n a c w) (\<lambda>(_, w). Inr w)"
| "perform n (Connect_url a u) w = andThen (BrokerBase_connect_url n a u w) (\<lambda>(_, w). Inr w)"
| "perform n (Disconnect_port a p) w = andThen (Broker_disconnect n a p w) (\<lambda>(_, w). Inr w)"

text \<open>Who may ask for what: the caller has the broker it calls, a connection it passes leads to a
  broker other than the one called, and there is a port left for it.\<close>

primrec admissible :: "world \<Rightarrow> request \<Rightarrow> bool" where
  "admissible w (Create u) = True"
| "admissible w (Insert a e s) = live w a"
| "admissible w (Insert_all a es s) = live w a"
| "admissible w (Append_data a d) = live w a"
| "admissible w (Relay_data a d s) = (live w a \<and> ports_fit w)"
| "admissible w (Query a c s) = live w a"
| "admissible w (Refresh a d s) = live w a"
| "admissible w (Connect_broker a c) =
     (live w a \<and> anchored w c \<and> conn_broker c \<noteq> Some a \<and> length (conns w a) < 2 ^ 32)"
| "admissible w (Connect_url a u) =
     (live w a \<and> om_find (w_store w) u \<noteq> Some a \<and> length (conns w a) < 2 ^ 32)"
| "admissible w (Disconnect_port a p) = live w a"

lemma connect_sound:
  assumes "well_formed w" and "live w a" and "length (conns w a) < 2 ^ 32" and "anchored w c"
  shows "sound (BrokerBase_connect n a c w)"
    and "BrokerBase_connect n a c w = Inr (out, w') \<Longrightarrow> grows w w'"
  using connect_peer [of c n a w] connect_out [OF assms] assms(4)
  by (cases n; cases "conn_source c = 0"; auto simp: Broker_connect_def)+

lemma connect_url_sound:
  assumes wf: "well_formed w" and a: "live w a" "length (conns w a) < 2 ^ 32"
  shows "sound (BrokerBase_connect_url n a u w)"
    and "BrokerBase_connect_url n a u w = Inr (out, w') \<Longrightarrow> grows w w'"
proof -
  obtain b v where v: "BrokerStore_getOrCreate u w = (b, v)" by fastforce
  have "anchored v (Connection_to b)"
    using created_live [of u w _ v] v wf by (cases b) (auto simp: anchored_iff Connection_to_def)
  then have new: "sound (BrokerBase_connect n a (Connection_to b) v)"
    "BrokerBase_connect n a (Connection_to b) v = Inr (out, w') \<Longrightarrow> grows v w'"
    using connect_sound [of v a "Connection_to b" n] grows_well_formed [OF grows_create [OF v] wf]
      getOrCreate_keeps(1,2) [OF v a(1)] a(2) by simp_all
  have "anchored w Connection_none" by (simp add: anchored_def Connection_none_def)
  note alone = connect_sound [OF wf a this]
  show "sound (BrokerBase_connect_url n a u w)"
    using new(1) alone(1) v by (simp add: BrokerBase_connect_url_def)
  show "BrokerBase_connect_url n a u w = Inr (out, w') \<Longrightarrow> grows w w'"
    using new(2) alone(2) v grows_trans [OF grows_create [OF v]]
    by (auto simp: BrokerBase_connect_url_def split: if_splits)
qed

lemma perform_sound:
  assumes wf: "well_formed w" and "admissible w r"
  shows "sound (perform n r w)"
  using assms connect_sound(1) connect_url_sound(1) relay_sound
  by (cases r) (auto simp: insert_sound insert_all_sound query_sound refresh_sound disconnect_sound
      BrokerBase_append_def intro!: soundness)

lemma perform_carries_on:
  assumes wf: "well_formed w" and "admissible w r" and run: "perform n r w = Inr w'"
  shows "carries_on w w'"
proof (cases r)
  case (Create u)
  then show ?thesis using run grows_create [of u w] by (metis grows_carries_on perform.simps(1) prod.collapse sum.inject(2))
next
  case (Disconnect_port a p)
  then show ?thesis using run by (auto simp: cashmere_errors dest: disconnect_carries_on)
qed (use assms connect_sound(2) connect_url_sound(2) in \<open>auto simp: cashmere_errors BrokerBase_append_def
    dest: grows_insert same_net_insert_all same_net_relay growing.refresh
    intro: grows_carries_on grows_carries_on [OF same_net_grows]\<close>)

context request_effect begin

theorem performed:
  assumes "perform n r w = Inr w'" and "well_formed w" and "admissible w r"
  shows "R w w'"
proof (cases r)
  case (Connect_url a u)
  obtain b v where v: "BrokerStore_getOrCreate u w = (b, v)" by fastforce
  have "well_formed v" "live v a" "length (conns v a) < 2 ^ 32"
    using grows_well_formed [OF grows_create [OF v] assms(2)] getOrCreate_keeps(1,2) [OF v, of a] assms(3) Connect_url
    by simp_all
  then show ?thesis using assms Connect_url v connect created [OF v] trans
    by (auto simp: BrokerBase_connect_url_def cashmere_errors split: if_splits)
qed (use assms connect created [OF surjective_pairing] in \<open>auto simp: cashmere_errors BrokerBase_append_def refl
    dest: inserted insert_all relay refresh disconnect\<close>)

end

section \<open>Worlds that requests lead to\<close>

inductive served :: "world \<Rightarrow> world \<Rightarrow> bool" for w0 where
  start: "served w0 w0"
| request: "served w0 w \<Longrightarrow> admissible w r \<Longrightarrow> perform n r w = Inr w' \<Longrightarrow> served w0 w'"

lemma served_invariant:
  assumes "served w0 w" and "well_formed w0" and "filed w0"
  shows "well_formed w \<and> filed w \<and> (\<forall>a. live w0 a \<longrightarrow> live w a)"
  using assms
proof induction
  case (request w r n w')
  then show ?case
    using perform_carries_on [of w r n w'] filing.performed [of n r w w']
    by (simp add: carries_on_def stays_filed_def)
qed simp

context request_effect begin

theorem served_effect:
  assumes "served w0 w" and "well_formed w0"
  shows "well_formed w \<and> R w0 w"
  using assms
proof induction
  case (request w r n w')
  then show ?case
    using perform_carries_on [of w r n w'] performed [of n r w w'] trans by (auto simp: carries_on_def)
qed (simp add: refl)

end

lemma create_well_formed: "well_formed (BrokerStore_create bs random files)"
  "filed (BrokerStore_create bs random files)"
  by (simp_all add: well_formed_def filed_def live_def BrokerStore_create_def)

text \<open>A store with two plugins, and the first broker it makes.\<close>

definition two_plugins :: "(string, kind) omap" where
  "two_plugins = om_init [(''cache'', Cache), (''hub'', Hub)]"

definition empty_store :: world where
  "empty_store = BrokerStore_create two_plugins (\<lambda>_. 7) om_empty"

definition first_url :: string where
  "first_url = ''cache://a@host:80''"

definition first_broker :: broker where
  "first_broker = \<lparr>b_kind = Cache, b_url = \<lparr>url_url = first_url, url_schema = ''cache'',
     url_id = ''a'', url_hostport = ''host:80'', url_path = []\<rparr>, b_id = 10, b_hostname = ''host'',
     b_port = 80, b_stored = True, b_connections = [Connection_none], b_entries = om_empty\<rparr>"

definition one_broker :: world where
  "one_broker = empty_store\<lparr>w_brokers := om_init [(0, first_broker)], w_store := om_init [(first_url, 0)]\<rparr>"

lemmas store_simps = two_plugins_def empty_store_def first_broker_def one_broker_def
  BrokerStore_create_def well_formed_def live_def anchored_def ports_fit_def

lemma parse_first_url:
  "ParseUrl first_url = \<lparr>url_url = first_url, url_schema = ''cache'', url_id = ''a'',
     url_hostport = ''host:80'', url_path = []\<rparr>"
  using kRegex_search [of "''cache''" "''host:80''" "[]" "''a''" "''a@''"]
  by (simp add: ParseUrl_def first_url_def path_ok_def capture_def group_def id_groups_def)

lemma first_numbers: "stoul 16 ''a'' = Some 10" "stoul 10 ''80'' = Some 80"
  by (simp_all add: stoul_def is_space_def digit_in_def digit_value_def conv_unsigned_def
      digits_value_def)

lemma first_broker_made: "BrokerStore_getOrCreate first_url empty_store = (Some 0, one_broker)"
  by (simp add: BrokerStore_getOrCreate_def BrokerBase_Impl_def parse_first_url first_numbers eval_simps
      store_simps)

lemma one_broker_served: "served empty_store one_broker"
  using served.request [OF served.start, of empty_store "Create first_url" 0 one_broker]
  by (simp add: first_broker_made)

lemma trio_well_formed: "well_formed trio"
  by (simp add: eval_simps sample_simps well_formed_def anchored_def)

section \<open>Theorems\<close>

text \<open>C5: Requests are type-sound: in a well-formed world an admissible request either returns, in a
  well-formed world in which no broker is lost, or is cut off for want of fuel; it never throws and
  never follows a null pointer.\<close>

theorem requests_type_sound:
  assumes "well_formed w" and "admissible w r"
  shows "case perform n r w of
      Inl f \<Rightarrow> f = Out_of_fuel
    | Inr w' \<Rightarrow> well_formed w' \<and> (\<forall>a. live w a \<longrightarrow> live w' a)"
proof (cases "perform n r w")
  case (Inl f)
  then show ?thesis using perform_sound [OF assms, of n] by simp
next
  case (Inr w')
  then show ?thesis using perform_carries_on [OF assms Inr] assms(1) by (simp add: carries_on_def)
qed

theorem requests_type_sound_witness:
  "case perform 3 (Disconnect_port 1 1) trio of
      Inl f \<Rightarrow> f = Out_of_fuel
    | Inr w' \<Rightarrow> well_formed w' \<and> (\<forall>a. live trio a \<longrightarrow> live w' a)"
  using requests_type_sound [OF trio_well_formed, of "Disconnect_port 1 1" 3] by (simp add: trio_live)

text \<open>C13: In every world that requests lead to from an empty store, no admissible request throws, and
  a broker's stub is the broker itself: the store finds it under its own URL and announcements
  create no brokers.\<close>

theorem served_worlds_safe:
  assumes "served (BrokerStore_create builders random files) w" and "admissible w r"
  shows "perform n r w \<notin> {Inl Out_of_range, Inl Invalid_argument, Inl Null_pointer} \<and>
    (\<forall>a. live w a \<longrightarrow> BrokerBase_stub a w = (Connection_to (Some a), w))"
proof -
  have w: "well_formed w" "filed w"
    using served_invariant [OF assms(1)] create_well_formed by blast+
  then show ?thesis
    using perform_sound [OF w(1) assms(2), of n] stub_registered
    by (auto simp: sound_def filed_def)
qed

theorem served_worlds_safe_witness:
  "perform 2 (Append_data 0 (Data_of 1 5 om_empty)) one_broker \<noteq> Inl Null_pointer \<and>
   BrokerBase_stub 0 one_broker = (Connection_to (Some 0), one_broker)"
proof -
  have "live one_broker 0" by (simp add: eval_simps store_simps)
  then show ?thesis
    using served_worlds_safe [of two_plugins "\<lambda>_. 7" om_empty one_broker
        "Append_data 0 (Data_of 1 5 om_empty)" 2] one_broker_served
    by (simp add: empty_store_def)
qed

text \<open>C28: The store makes a broker once: what it returned for a URL it returns again, without a
  change, whatever other URLs it was asked for in between; a new broker has a new address and its
  front connection only, and no other broker or entry of the store changes.\<close>

theorem store_creates_once:
  assumes "BrokerStore_getOrCreate u w = (Some a, w')"
  shows "(let w'' = fold (\<lambda>v w. snd (BrokerStore_getOrCreate v w)) us w' in
      BrokerStore_getOrCreate u w'' = (Some a, w'')) \<and>
    (\<forall>b. live w b \<longrightarrow> live w' b \<and> broker_at w' b = broker_at w b) \<and>
    (\<forall>v. v \<noteq> u \<longrightarrow> om_find (w_store w') v = om_find (w_store w) v) \<and>
    (om_find (w_store w) u = None \<longrightarrow>
       \<not> live w a \<and> live w' a \<and> conns w' a = [Connection_none] \<and>
       url_url (b_url (broker_at w' a)) = u \<and> Broker_clock w' a = om_empty)"
proof -
  have again: "let w'' = fold (\<lambda>v w. snd (BrokerStore_getOrCreate v w)) us w' in
      BrokerStore_getOrCreate u w'' = (Some a, w'')"
    using brokers.identity [OF assms, of us] by (simp add: Let_def)
  have old: "\<forall>b. live w b \<longrightarrow> live w' b \<and> broker_at w' b = broker_at w b"
    "\<forall>v. v \<noteq> u \<longrightarrow> om_find (w_store w') v = om_find (w_store w) v"
    using getOrCreate_keeps(1,2) [OF assms] brokers.others [OF assms] by blast+
  have "\<not> live w a \<and> live w' a \<and> conns w' a = [Connection_none] \<and>
      url_url (b_url (broker_at w' a)) = u \<and> Broker_clock w' a = om_empty"
    if "om_find (w_store w) u = None"
    using assms
  proof (cases rule: getOrCreate_cases)
    case (3 k b v)
    then show ?thesis using fresh_not_live [of v]
      by (auto simp: live_def broker_at_def Broker_clock_def Impl_cases Connection_none_def)
  qed (use that in simp_all)
  then show ?thesis using again old by blast
qed

theorem store_creates_once_witness:
  "BrokerStore_getOrCreate first_url one_broker = (Some 0, one_broker) \<and> live one_broker 0"
  using store_creates_once [OF first_broker_made, of "[]"] by (simp add: eval_simps store_simps)

end
