(* ===== verification/Knowledge.thy ===== *)
theory Knowledge
  imports Requests
begin

text \<open>
  Requests only add: the second interpretation of \<open>request_effect\<close> is on the relation that brokers
  stay what they are, clocks never go back, caches keep their entries and files get longer.
\<close>

section \<open>Files\<close>

text \<open>Files get longer at the end.\<close>

definition files_grow :: "world \<Rightarrow> world \<Rightarrow> bool" where
  "files_grow w w' \<longleftrightarrow>
     (\<forall>f t. om_find (w_files w) f = Some t \<longrightarrow> (\<exists>u. om_find (w_files w') f = Some (t @ u)))"

lemma files_grow_same: "w_files w' = w_files w \<Longrightarrow> files_grow w w'"
  by (simp add: files_grow_def)

lemma files_grow_trans: "files_grow u v \<Longrightarrow> files_grow v w \<Longrightarrow> files_grow u w"
  unfolding files_grow_def by (metis append.assoc)

lemma files_set_conn_same [simp]: "w_files (set_conn a i f w) = w_files w"
  by (simp add: set_conn_def set_broker_def split: option.split)

lemma files_setClock_same [simp]: "w_files (Broker_setClock a c w) = w_files w"
  by (simp add: Broker_setClock_def)

lemma files_push_same [simp]: "w_files (push_conn a c w) = w_files w"
  by (simp add: push_conn_def set_broker_def split: option.split)

lemma files_create_same: "BrokerStore_getOrCreate u w = (r, w') \<Longrightarrow> w_files w' = w_files w"
  by (erule getOrCreate_cases) (simp_all add: Impl_cases)

lemma files_grow_save: "BrokerBase_save a e w = (ok, w') \<Longrightarrow> files_grow w w'"
  by (auto simp: BrokerBase_save_def Journal_save_def JournalFile_save_def Let_def files_grow_def
      set_broker_def split: kind.splits if_splits option.splits)

interpretation appended: insert_effect "\<lambda>_ w w'. wiring w' = wiring w \<and> files_grow w w'"
  by unfold_locales
    (auto simp: wiring_save intro: files_grow_trans files_grow_same files_grow_save)

section \<open>Knowledge is only added\<close>

definition front :: "world \<Rightarrow> bool" where
  "front w \<longleftrightarrow> (\<forall>a. live w a \<longrightarrow> conns w a \<noteq> [] \<and> conn_broker (conn w a 0) = None)"

definition only_adds :: "world \<Rightarrow> world \<Rightarrow> bool" where
  "only_adds w w' \<longleftrightarrow> files_grow w w' \<and>
     (front w \<longrightarrow> front w' \<and>
       (\<forall>a. live w a \<longrightarrow> live w' a \<and> fst (frame (broker_at w' a)) = fst (frame (broker_at w a)) \<and>
          clock_le (Broker_clock w a) (Broker_clock w' a) \<and>
          (\<forall>c d. om_find (b_entries (broker_at w a)) c = Some d \<longrightarrow>
             om_find (b_entries (broker_at w' a)) c = Some d)))"

lemma front_fronted: "front w \<Longrightarrow> fronted w"
  unfolding fronted_def
proof
  fix a
  assume "front w"
  then show "conns w a = [] \<or> conn_broker (conn w a 0) = None"
    using not_live_conns [of w a] by (cases "live w a") (simp_all add: front_def)
qed

lemma front_wiring:
  assumes "wiring w' = wiring w" and "front w"
  shows "front w'"
  unfolding front_def
proof (intro allI impI)
  fix a
  assume "live w' a"
  then have "conns w a \<noteq> []" "conn_broker (conn w a 0) = None"
    using assms wiring_live [of w' w a] by (simp_all add: front_def)
  moreover from this have "conns w' a \<noteq> []"
    using wiring_length [OF assms(1), of a] by auto
  ultimately show "conns w' a \<noteq> [] \<and> conn_broker (conn w' a 0) = None"
    using wiring_ends(1) [OF assms(1), of a 0] by auto
qed

lemma only_adds_insert:
  assumes "BrokerBase_insert n a e s w = Inr (c, w')"
  shows "only_adds w w'"
proof -
  have wires: "wiring w' = wiring w" and "files_grow w w'"
    using appended.insert [OF assms] by simp_all
  moreover have "clock_le (Broker_clock w b) (Broker_clock w' b)" if "front w" for b
    using clocks.insert [OF assms] front_fronted [OF that]
    by (auto simp: clock_effect_def intro: vc.join_upper) (metis clock_le_refl vc.join_upper(1))
  moreover have "om_find (b_entries (broker_at w' b)) k = Some d"
    if "om_find (b_entries (broker_at w b)) k = Some d" for b k d
  proof -
    let ?old = "b_entries (broker_at w b)" and ?new = "b_entries (broker_at w' b)"
    have "?new = ?old \<or> om_find ?old (entry_clock e) = None \<and> ?new = om_put (entry_clock e) (entry_data e) ?old"
      using stored.insert [OF assms] by (simp add: entries_effect_def Let_def)
    then show ?thesis using that by auto
  qed
  ultimately show ?thesis
    using front_wiring [OF wires] wiring_live [OF wires] wiring_frame [OF wires] by (simp add: only_adds_def)
qed

lemma only_adds_set_conn:
  assumes "\<And>c. conn_broker (f c) = conn_broker c \<or> conn_broker (f c) = None"
    and "i \<noteq> 0 \<or> (\<forall>c. conn_version (f c) = conn_version c)"
  shows "only_adds w (set_conn a i f w)"
proof -
  have "front (set_conn a i f w)" if front: "front w"
    unfolding front_def
  proof (intro allI impI)
    fix b
    assume "live (set_conn a i f w) b"
    then have b: "conns w b \<noteq> []" "conn_broker (conn w b 0) = None" using front by (simp_all add: front_def)
    then have "conn_broker (conn (set_conn a i f w) b 0) = None"
      using assms(1) [of "conn w b 0"] by (cases "i = 0") (auto simp: conns_set_conn)
    moreover have "conns (set_conn a i f w) b \<noteq> []"
      using b(1) length_conns_set_conn [of a i f w b] by (metis length_0_conv)
    ultimately show "conns (set_conn a i f w) b \<noteq> [] \<and> conn_broker (conn (set_conn a i f w) b 0) = None" by blast
  qed
  moreover have "Broker_clock (set_conn a i f w) b = Broker_clock w b" for b
    using assms(2) by (auto simp: clock_set_conn Broker_clock_conv)
  ultimately show ?thesis by (simp add: only_adds_def files_grow_same frame_def)
qed

lemma only_adds_trans:
  assumes "only_adds u v" and "only_adds v w"
  shows "only_adds u w"
proof (cases "front u")
  case True
  then have v: "front v" "\<And>a. live u a \<Longrightarrow> live v a" and w: "front w"
    using assms by (simp_all add: only_adds_def)
  have "clock_le (Broker_clock u a) (Broker_clock w a)" if "live u a" for a
    using assms True v that clock_le_trans [of "Broker_clock u a" "Broker_clock v a"] by (simp add: only_adds_def)
  then show ?thesis using assms True v w files_grow_trans [of u v w] by (simp add: only_adds_def)
qed (use assms files_grow_trans [of u v w] in \<open>simp add: only_adds_def\<close>)

interpretation adding: request_effect only_adds
proof unfold_locales
  show same: "only_adds w w" for w by (simp add: only_adds_def files_grow_same)
  show "only_adds u w" if "only_adds u v" "only_adds v w" for u v w
    using that by (rule only_adds_trans)
  have create: "only_adds w w'" if "BrokerStore_getOrCreate u w = (r, w')" for u r w w'
  proof -
    note keeps = getOrCreate_keeps(1-3) [OF that]
    have "conns w' a \<noteq> [] \<and> conn_broker (conn w' a 0) = None" if "front w" "live w' a" for a
      using that keeps [of a] by (cases "live w a") (simp_all add: front_def Connection_none_def)
    then have "front w \<longrightarrow> front w'" unfolding front_def [of w'] by blast
    then show ?thesis
      using keeps(1,2) by (simp add: only_adds_def files_grow_same files_create_same [OF that] Broker_clock_def)
  qed
  show "only_adds w w'" if "BrokerStore_getOrCreate u w = (r, w')" for u r w w'
    using that by (rule create)
  show "only_adds w w'" if "BrokerBase_stub a w = (c, w')" for a c w w'
    using that by (cases rule: stub_cases) (auto intro: create same)
  show "only_adds w (set_conn a (unat p) (heard d) w)" if "p \<noteq> 0" for p a d w
    using that by (intro only_adds_set_conn) (simp_all add: heard_def unat_eq_0)
  show "only_adds w w'" if "BrokerBase_insert n a e s w = Inr (c, w')" for n a e s w c w'
    using that by (rule only_adds_insert)
  show "only_adds w (push_conn a d w)" for a d w
    by (auto simp: only_adds_def files_grow_same front_def conns_push frame_def Broker_clock_def nth_append
        split: list.split)
qed (intro only_adds_set_conn, auto)+

section \<open>Theorems\<close>

text \<open>C15: No sequence of requests takes knowledge back: brokers stay what they are, their clocks never go
  back, a cache keeps every entry it holds, unchanged, and files only get longer.\<close>

theorem requests_only_add:
  assumes "served w0 w" and "well_formed w0" and "live w0 a"
  shows "live w a \<and> b_kind (broker_at w a) = b_kind (broker_at w0 a) \<and> BrokerBase_id w a = BrokerBase_id w0 a \<and>
    clock_le (Broker_clock w0 a) (Broker_clock w a) \<and>
    (\<forall>c d. om_find (b_entries (broker_at w0 a)) c = Some d \<longrightarrow> om_find (b_entries (broker_at w a)) c = Some d) \<and>
    (\<forall>f t. om_find (w_files w0) f = Some t \<longrightarrow> (\<exists>u. om_find (w_files w) f = Some (t @ u)))"
proof -
  have "front w0" using well_formed_live [OF assms(2)] by (auto simp: front_def)
  then show ?thesis
    using adding.served_effect [OF assms(1,2)] assms(3)
    by (simp add: only_adds_def frame_def files_grow_def)
qed

theorem requests_only_add_witness:
  "\<exists>w. perform 3 (Append_data 0 (Data_of 1 5 om_empty)) trio = Inr w \<and>
     om_find (b_entries (broker_at w 2)) trio_clock = Some (Data_of 1 10 om_empty)"
proof -
  have live: "live trio 0" "live trio 2" "om_find (b_entries (broker_at trio 2)) trio_clock = Some (Data_of 1 10 om_empty)"
    by (simp_all add: eval_simps sample_simps live_def)
  obtain c w where "BrokerBase_insert 3 0 \<lparr>entry_clock = Clock_tick (Broker_clock trio 0) 1,
      entry_data = Data_of 1 5 om_empty\<rparr> 0 trio = Inr (c, w)"
    using insert_total_bounded [OF trio_bounded(1)] by blast
  then have run: "perform 3 (Append_data 0 (Data_of 1 5 om_empty)) trio = Inr w"
    by (simp add: BrokerBase_append_def del: BrokerBase_insert.simps)
  have "served trio w"
    using served.request [OF served.start _ run] live(1) by simp
  then show ?thesis using requests_only_add [OF _ trio_well_formed live(2), of w] run live(3) by blast
qed

end
