(* ===== verification/Plugins.thy ===== *)
theory Plugins
  imports Requests
begin

text \<open>
  The plugins (\<open>cashmere/src/storeimpl.h\<close>, \<open>wrapperstore.cpp\<close>) and the wrappers that make a broker a
  gRPC service (\<open>brokerwrapperbase.cpp\<close>, \<open>wrapperstore.cpp\<close>, \<open>grpcrunner.cpp\<close>). What the dynamic
  loader finds in a file and which addresses the gRPC server can listen on are arguments. The store
  of wrappers is an instance of the store of theory \<open>Store\<close>; the table of plugins decides what the
  store of brokers can make.
\<close>

section \<open>Plugins\<close>

text \<open>The schema of \<open>lib<schema>.so\<close>: \<open>substr(3, size - 6)\<close>, where the subtraction wraps and
  \<open>substr\<close> throws when the name has less than three characters.\<close>

definition plugin_schema :: "string \<Rightarrow> string outcome" where
  "plugin_schema filename =
     (if length filename < 3 then Inl Out_of_range
      else let r = drop 3 filename in
        Inr (if length filename < 6 then r else take (length filename - 6) r))"

definition LoadPlugins ::
    "(string \<Rightarrow> 'h option) \<Rightarrow> ('h \<Rightarrow> kind option) \<Rightarrow> string list \<Rightarrow> (string, kind) omap outcome" where
  "LoadPlugins dlopen dlsym files =
     forEach files (\<lambda>filename result.
         case dlopen filename of
           None \<Rightarrow> Inr result
         | Some handle \<Rightarrow>
             (case dlsym handle of
                None \<Rightarrow> Inr result
              | Some func \<Rightarrow> andThen (plugin_schema filename) (\<lambda>schema. Inr (om_put schema func result))))
       om_empty"

definition PluginsDirectory :: "string \<Rightarrow> string" where
  "PluginsDirectory exe = join_path (InstallDirectory exe) ''lib/cashmere/plugins''"

definition WrappersDirectory :: "string \<Rightarrow> string" where
  "WrappersDirectory exe = join_path (InstallDirectory exe) ''lib/cashmere/wrappers''"

text \<open>The store of a process whose program file is \<open>exe\<close>.\<close>

definition BrokerStore_init ::
    "string \<Rightarrow> (string \<Rightarrow> string list option) \<Rightarrow> (string \<Rightarrow> 'h option) \<Rightarrow> ('h \<Rightarrow> kind option) \<Rightarrow>
      (nat \<Rightarrow> ident) \<Rightarrow> (string, string) omap \<Rightarrow> world outcome" where
  "BrokerStore_init exe listing dlopen dlsym random files =
     (case listing (PluginsDirectory exe) of
        None \<Rightarrow> Inl No_directory
      | Some names \<Rightarrow>
          andThen (LoadPlugins (\<lambda>name. dlopen (join_path (PluginsDirectory exe) name)) dlsym names) (\<lambda>builders.
          Inr (BrokerStore_create builders random files)))"

text \<open>There is one class of wrappers, \<open>GrpcRunner\<close>.\<close>

definition LoadWrapperPlugins ::
    "(string \<Rightarrow> 'h option) \<Rightarrow> ('h \<Rightarrow> unit option) \<Rightarrow> string list \<Rightarrow> (string, unit) omap outcome" where
  "LoadWrapperPlugins dlopen dlsym files =
     forEach files (\<lambda>filename result.
         case dlopen filename of
           None \<Rightarrow> Inr result
         | Some handle \<Rightarrow>
             (case dlsym handle of
                None \<Rightarrow> Inr result
              | Some func \<Rightarrow> andThen (plugin_schema filename) (\<lambda>schema. Inr (om_put schema func result))))
       om_empty"

section \<open>Wrappers\<close>

text \<open>A runner: its URL, the broker it serves, the address of its server, if it has one, and whether
  the server is still serving.\<close>

record wrapper =
  wr_url :: string
  wr_broker :: "addr option"
  wr_server :: "string option"
  wr_serving :: bool

record wrapper_store =
  ws_wrappers :: "wrapper list"
  ws_store :: "(string, nat) omap"
  ws_builders :: "(string, unit) omap"

definition WrapperBase :: "string \<Rightarrow> wrapper" where
  "WrapperBase u = \<lparr>wr_url = u, wr_broker = None, wr_server = None, wr_serving = False\<rparr>"

definition WrapperStore_create :: "(string, unit) omap \<Rightarrow> wrapper_store" where
  "WrapperStore_create builders = \<lparr>ws_wrappers = [], ws_store = om_empty, ws_builders = builders\<rparr>"

definition WrapperStore_getOrCreate :: "string \<Rightarrow> wrapper_store \<Rightarrow> nat option \<times> wrapper_store" where
  "WrapperStore_getOrCreate u s =
     (case om_find (ws_store s) u of
        Some r \<Rightarrow> (Some r, s)
      | None \<Rightarrow>
          (case om_find (ws_builders s) (url_schema (ParseUrl u)) of
             None \<Rightarrow> (None, s)
           | Some _ \<Rightarrow>
               let r = length (ws_wrappers s) in
               (Some r, s\<lparr>ws_wrappers := ws_wrappers s @ [WrapperBase u], ws_store := om_put u r (ws_store s)\<rparr>)))"

definition WrapperStore_size :: "wrapper_store \<Rightarrow> nat" where
  "WrapperStore_size s = om_size (ws_store s)"

text \<open>\<open>listens\<close> says on which addresses the library's server can listen; where it cannot there is no
  server, and the thread that waits for it follows a null pointer.\<close>

definition GrpcRunner_start :: "(string \<Rightarrow> bool) \<Rightarrow> nat \<Rightarrow> addr \<Rightarrow> wrapper_store \<Rightarrow> wrapper_store outcome" where
  "GrpcRunner_start listens r b s =
     (let address = url_hostport (ParseUrl (wr_url (ws_wrappers s ! r))) in
      if listens address
      then Inr (s\<lparr>ws_wrappers := (ws_wrappers s)[r := (ws_wrappers s ! r)
             \<lparr>wr_broker := Some b, wr_server := Some address, wr_serving := True\<rparr>]\<rparr>)
      else Inl Null_pointer)"

definition GrpcRunner_stop :: "nat \<Rightarrow> wrapper_store \<Rightarrow> wrapper_store outcome" where
  "GrpcRunner_stop r s =
     (case wr_server (ws_wrappers s ! r) of
        None \<Rightarrow> Inl Null_pointer
      | Some _ \<Rightarrow> Inr (s\<lparr>ws_wrappers := (ws_wrappers s)[r := (ws_wrappers s ! r)\<lparr>wr_serving := False\<rparr>]\<rparr>))"

text \<open>The broker behind a runner, as long as it lives.\<close>

definition GrpcRunner_broker :: "world \<Rightarrow> wrapper \<Rightarrow> addr option" where
  "GrpcRunner_broker w r =
     (case wr_broker r of
        None \<Rightarrow> None
      | Some b \<Rightarrow> if om_find (w_brokers w) b = None then None else Some b)"

section \<open>The store of wrappers is a store\<close>

lemma wrapper_cases:
  assumes "WrapperStore_getOrCreate u s = (r, s')"
  obtains k where "om_find (ws_store s) u = Some k" "r = Some k" "s' = s"
  | "om_find (ws_store s) u = None" "om_find (ws_builders s) (url_schema (ParseUrl u)) = None"
    "r = None" "s' = s"
  | "om_find (ws_store s) u = None" "om_find (ws_builders s) (url_schema (ParseUrl u)) = Some ()"
    "r = Some (length (ws_wrappers s))"
    "s' = s\<lparr>ws_wrappers := ws_wrappers s @ [WrapperBase u],
            ws_store := om_put u (length (ws_wrappers s)) (ws_store s)\<rparr>"
  using assms by (auto simp: WrapperStore_getOrCreate_def Let_def split: option.splits)

interpretation runners: creating_store WrapperStore_getOrCreate "\<lambda>s. om_find (ws_store s)"
proof unfold_locales
  fix u v :: string and r :: nat and x :: "nat option" and s s' :: wrapper_store
  show "om_find (ws_store s) u = Some r \<Longrightarrow> WrapperStore_getOrCreate u s = (Some r, s)"
    by (simp add: WrapperStore_getOrCreate_def Let_def)
  show "WrapperStore_getOrCreate u s = (Some r, s') \<Longrightarrow> om_find (ws_store s') u = Some r"
    by (erule wrapper_cases) simp_all
  show "WrapperStore_getOrCreate u s = (None, s') \<Longrightarrow> s' = s"
    by (erule wrapper_cases) simp_all
  show "WrapperStore_getOrCreate u s = (x, s') \<Longrightarrow> v \<noteq> u \<Longrightarrow> om_find (ws_store s') v = om_find (ws_store s) v"
    by (erule wrapper_cases) simp_all
qed

section \<open>The plugin table\<close>

lemma plugin_schema_lib [simp]: "plugin_schema (''lib'' @ s @ ''.so'') = Inr s"
  by (simp add: plugin_schema_def)

lemma LoadPlugins_named:
  fixes dlopen :: "string \<Rightarrow> 'h option" and dlsym :: "'h \<Rightarrow> kind option"
  defines "plug \<equiv> \<lambda>s. Option.bind (dlopen (''lib'' @ s @ ''.so'')) dlsym"
  shows "LoadPlugins dlopen dlsym (map (\<lambda>s. ''lib'' @ s @ ''.so'') schemas) =
    Inr (fold (\<lambda>s t. case plug s of None \<Rightarrow> t | Some func \<Rightarrow> om_put s func t) schemas om_empty)"
proof -
  have step: "(case dlopen (''lib'' @ s @ ''.so'') of
         None \<Rightarrow> Inr t
       | Some handle \<Rightarrow>
           (case dlsym handle of
              None \<Rightarrow> Inr t
            | Some func \<Rightarrow> andThen (plugin_schema (''lib'' @ s @ ''.so'')) (\<lambda>schema. Inr (om_put schema func t)))) =
      Inr (case plug s of None \<Rightarrow> t | Some func \<Rightarrow> om_put s func t)" for s t
    unfolding plugin_schema_lib by (simp add: plug_def split: option.split)
  have "forEach (map (\<lambda>s. ''lib'' @ s @ ''.so'') schemas) (\<lambda>filename result.
         case dlopen filename of
           None \<Rightarrow> Inr result
         | Some handle \<Rightarrow>
             (case dlsym handle of
                None \<Rightarrow> Inr result
              | Some func \<Rightarrow> andThen (plugin_schema filename) (\<lambda>schema. Inr (om_put schema func result)))) t =
      Inr (fold (\<lambda>s t. case plug s of None \<Rightarrow> t | Some func \<Rightarrow> om_put s func t) schemas t)" for t
  proof (induction schemas arbitrary: t)
    case (Cons s schemas)
    show ?case unfolding list.map forEach.simps step using Cons by simp
  qed simp
  then show ?thesis unfolding LoadPlugins_def .
qed

lemma find_fold_plug:
  "om_find (fold (\<lambda>s t. case plug s of None \<Rightarrow> t | Some func \<Rightarrow> om_put s func t) schemas t) s =
     (if s \<in> set schemas \<and> plug s \<noteq> None then plug s else om_find t s)"
  by (induction schemas arbitrary: t) (auto split: option.splits)

section \<open>Theorems\<close>

text \<open>The plugins found in a directory of files named \<open>lib<schema>.so\<close> decide what the store can make:
  a broker of the class the plugin's \<open>create\<close> makes for the schemas of the files that load and export
  it, nothing for others.\<close>

theorem plugins_decide_brokers:
  "case LoadPlugins dlopen dlsym (map (\<lambda>s. ''lib'' @ s @ ''.so'') schemas) of
     Inl f \<Rightarrow> False
   | Inr builders \<Rightarrow>
       (let schema = url_schema (ParseUrl u);
            plug = (if schema \<in> set schemas then Option.bind (dlopen (''lib'' @ schema @ ''.so'')) dlsym else None) in
        case BrokerStore_getOrCreate u (BrokerStore_create builders random files) of
          (None, w) \<Rightarrow> plug = None \<and> w = BrokerStore_create builders random files
        | (Some a, w) \<Rightarrow> plug = Some (b_kind (broker_at w a)) \<and> om_find (w_store w) u = Some a)"
proof -
  let ?plug = "\<lambda>s. Option.bind (dlopen (''lib'' @ s @ ''.so'')) dlsym"
  obtain builders where load: "LoadPlugins dlopen dlsym (map (\<lambda>s. ''lib'' @ s @ ''.so'') schemas) = Inr builders"
    and find: "\<And>s. om_find builders s = (if s \<in> set schemas then ?plug s else None)"
    using LoadPlugins_named [of dlopen dlsym schemas] by (simp add: find_fold_plug)
  let ?w = "BrokerStore_create builders random files"
  obtain r w where made: "BrokerStore_getOrCreate u ?w = (r, w)" by fastforce
  have "w_builders ?w = builders" "om_find (w_store ?w) u = None" by (simp_all add: BrokerStore_create_def)
  then show ?thesis unfolding load sum.case made prod.case Let_def
    by (cases rule: getOrCreate_cases [OF made]) (auto simp: find broker_at_def Impl_cases)
qed

text \<open>A program at \<open>root/bin\<close> looks for its plugins under \<open>root/lib/cashmere\<close>; without that directory
  no store can be made.\<close>

theorem plugins_beside_program:
  assumes "CHR ''/'' \<notin> set name" and "root \<noteq> []" and "last root \<noteq> CHR ''/''"
  defines "exe \<equiv> join_path (join_path root ''bin'') name"
  shows "PluginsDirectory exe = root @ ''/lib/cashmere/plugins'' \<and>
    WrappersDirectory exe = root @ ''/lib/cashmere/wrappers'' \<and>
    (listing (root @ ''/lib/cashmere/plugins'') = None \<longrightarrow>
       BrokerStore_init exe listing dlopen dlsym random files = Inl No_directory)"
  using InstallDirectory_bin [OF assms(1-3)] assms(2,3)
  by (simp add: exe_def PluginsDirectory_def WrappersDirectory_def join_path_def BrokerStore_init_def)

end
