(* ===== verification/Scratch_Dirs.thy ===== *)
theory Scratch_Dirs
  imports File_Utils
begin

text \<open>
  Scratch directories: \<open>CreateTempDir\<close> and \<open>DeleteTempDir\<close> of \<open>cashmere/utils/src/fileutils.cpp\<close>, and
  \<open>TempDir\<close> in \<open>src/cli/main.cpp\<close>, the directory a service keeps its journal in when no path is given.
  The generator is the sequence of the numbers it yields, the file system the paths that exist in
  it. The loop that looks for a free name ends only when the generator comes up with one, so it is
  a partial function: \<open>None\<close> is a loop that does not end.
\<close>

section \<open>Operations\<close>

definition scratch_name :: "string \<Rightarrow> 64 word \<Rightarrow> string" where
  "scratch_name tmp i = join_path tmp (show_dec i)"

partial_function (option) fresh_dir ::
    "(string \<Rightarrow> bool) \<Rightarrow> string \<Rightarrow> (nat \<Rightarrow> 64 word) \<Rightarrow> nat \<Rightarrow> (string \<times> nat) option" where
  "fresh_dir taken tmp draw k =
     (if taken (scratch_name tmp (draw k)) then fresh_dir taken tmp draw (Suc k)
      else Some (scratch_name tmp (draw k), Suc k))"

definition CreateTempDir ::
    "string \<Rightarrow> (nat \<Rightarrow> 64 word) \<Rightarrow> nat \<Rightarrow> (string \<Rightarrow> bool) \<Rightarrow> (string \<times> nat \<times> (string \<Rightarrow> bool)) option" where
  "CreateTempDir tmp draw k taken =
     (case fresh_dir taken tmp draw k of
        None \<Rightarrow> None
      | Some (d, k) \<Rightarrow> Some (d, k, taken(d := True)))"

text \<open>\<open>remove_all\<close> takes the directory with everything under it; \<open>None\<close> is the failed assertion.\<close>

definition beneath :: "string \<Rightarrow> string \<Rightarrow> bool" where
  "beneath d p \<longleftrightarrow> p = d \<or> take (Suc (length d)) p = d @ ''/''"

definition DeleteTempDir :: "string \<Rightarrow> (string \<Rightarrow> bool) \<Rightarrow> (string \<Rightarrow> bool) option" where
  "DeleteTempDir d taken = (if taken d then Some (\<lambda>p. taken p \<and> \<not> beneath d p) else None)"

text \<open>The engine in \<open>main.cpp\<close> is not seeded: every service starts with the same numbers.\<close>

definition TempDir ::
    "string \<Rightarrow> (nat \<Rightarrow> 64 word) \<Rightarrow> (string \<Rightarrow> bool) \<Rightarrow> (string \<times> (string \<Rightarrow> bool)) option" where
  "TempDir tmp engine taken =
     (case fresh_dir taken tmp engine 0 of
        None \<Rightarrow> None
      | Some (d, _) \<Rightarrow> Some (d, taken(d := True)))"

text \<open>Its destructor removes the directory, and that of \<open>TempDir\<close> in
  \<open>cashmere/utils/include/cashmere/utils/file.h\<close> calls \<open>DeleteTempDir\<close>: whatever is done between
  construction and destruction is done with the directory there.\<close>

definition TempDir_end :: "string \<Rightarrow> (string \<Rightarrow> bool) \<Rightarrow> (string \<Rightarrow> bool) option" where
  "TempDir_end directory taken =
     (if taken directory then Some (\<lambda>p. taken p \<and> \<not> beneath directory p) else None)"

definition TempDir_scope ::
    "string \<Rightarrow> (nat \<Rightarrow> 64 word) \<Rightarrow> nat \<Rightarrow> (string \<Rightarrow> (string \<Rightarrow> bool) \<Rightarrow> string \<Rightarrow> bool) \<Rightarrow>
      (string \<Rightarrow> bool) \<Rightarrow> (nat \<times> (string \<Rightarrow> bool)) option" where
  "TempDir_scope tmp draw k body taken =
     (case CreateTempDir tmp draw k taken of
        None \<Rightarrow> None
      | Some (directory, k, taken) \<Rightarrow>
          map_option (Pair k) (DeleteTempDir directory (body directory taken)))"

section \<open>The search\<close>

lemma fresh_dir_found:
  assumes "\<not> taken (scratch_name tmp (draw i))" and "k \<le> i" and "\<And>j. k \<le> j \<Longrightarrow> j < i \<Longrightarrow> taken (scratch_name tmp (draw j))"
  shows "fresh_dir taken tmp draw k = Some (scratch_name tmp (draw i), Suc i)"
  using assms(2,3)
proof (induction k rule: inc_induct)
  case base
  show ?case using assms(1) by (simp add: fresh_dir.simps [of _ _ _ i])
next
  case (step k)
  then show ?case by (simp add: fresh_dir.simps [of _ _ _ k])
qed

definition first_free :: "(string \<Rightarrow> bool) \<Rightarrow> string \<Rightarrow> (nat \<Rightarrow> 64 word) \<Rightarrow> nat \<Rightarrow> string \<times> nat \<Rightarrow> bool" where
  "first_free taken tmp draw k r \<longleftrightarrow>
     (\<exists>i. k \<le> i \<and> \<not> taken (fst r) \<and> r = (scratch_name tmp (draw i), Suc i) \<and>
        (\<forall>j. k \<le> j \<and> j < i \<longrightarrow> taken (scratch_name tmp (draw j))))"

lemma first_free_later:
  assumes "taken (scratch_name tmp (draw k))" and "first_free taken tmp draw (Suc k) r"
  shows "first_free taken tmp draw k r"
proof -
  obtain i where i: "Suc k \<le> i" "\<not> taken (fst r)" "r = (scratch_name tmp (draw i), Suc i)"
    and before: "\<forall>j. Suc k \<le> j \<and> j < i \<longrightarrow> taken (scratch_name tmp (draw j))"
    using assms(2) by (auto simp: first_free_def)
  have "taken (scratch_name tmp (draw j))" if "k \<le> j" "j < i" for j
    using that assms(1) before by (cases "j = k") auto
  then show ?thesis using i unfolding first_free_def by (intro exI [of _ i]) auto
qed

lemma fresh_dir_result:
  assumes "fresh_dir taken tmp draw k = Some r"
  shows "first_free taken tmp draw k r"
proof (rule fresh_dir.raw_induct [OF _ assms])
  fix f taken tmp draw k r
  assume "\<And>taken tmp draw k r. f taken tmp draw k = Some r \<Longrightarrow> first_free taken tmp draw k r"
    and "(if taken (scratch_name tmp (draw k)) then f taken tmp draw (Suc k)
      else Some (scratch_name tmp (draw k), Suc k)) = Some r"
  then show "first_free taken tmp draw k r"
    by (cases "taken (scratch_name tmp (draw k))") (simp add: first_free_later, fastforce simp: first_free_def)
qed

lemma fresh_dir_None: "fresh_dir taken tmp draw k = None \<longleftrightarrow> (\<forall>i\<ge>k. taken (scratch_name tmp (draw i)))"
proof
  assume none: "fresh_dir taken tmp draw k = None"
  show "\<forall>i\<ge>k. taken (scratch_name tmp (draw i))"
  proof (rule ccontr)
    assume "\<not> ?thesis"
    then have ex: "\<exists>i. k \<le> i \<and> \<not> taken (scratch_name tmp (draw i))" by blast
    define i where "i = (LEAST i. k \<le> i \<and> \<not> taken (scratch_name tmp (draw i)))"
    have "k \<le> i \<and> \<not> taken (scratch_name tmp (draw i))" unfolding i_def by (rule LeastI_ex [OF ex])
    moreover have "taken (scratch_name tmp (draw j))" if "k \<le> j" "j < i" for j
      using not_less_Least [of j] that unfolding i_def by blast
    ultimately have "fresh_dir taken tmp draw k \<noteq> None" using fresh_dir_found [of taken tmp draw i k] by simp
    then show False using none by contradiction
  qed
next
  assume all: "\<forall>i\<ge>k. taken (scratch_name tmp (draw i))"
  show "fresh_dir taken tmp draw k = None"
  proof (rule ccontr)
    assume "fresh_dir taken tmp draw k \<noteq> None"
    then obtain r where "fresh_dir taken tmp draw k = Some r" by blast
    then show False using fresh_dir_result [of taken tmp draw k r] all by (auto simp: first_free_def)
  qed
qed

section \<open>Theorems\<close>

text \<open>C34: \<open>CreateTempDir\<close> returns exactly when the generator comes up with a free name; it then makes
  the first free one, and deleting it takes away what was made and nothing else, if there was nothing under
  that name before.\<close>

theorem scratch_directory:
  "case CreateTempDir tmp draw k taken of
     None \<Rightarrow> \<forall>i. k \<le> i \<longrightarrow> taken (scratch_name tmp (draw i))
   | Some (d, k', taken') \<Rightarrow>
       (\<exists>i. k \<le> i \<and> d = scratch_name tmp (draw i) \<and> k' = Suc i \<and>
          (\<forall>j. k \<le> j \<and> j < i \<longrightarrow> taken (scratch_name tmp (draw j)))) \<and>
       \<not> taken d \<and> taken' d \<and>
       ((\<forall>p. beneath d p \<longrightarrow> \<not> taken p) \<longrightarrow> DeleteTempDir d taken' = Some taken)"
proof (cases "fresh_dir taken tmp draw k")
  case None
  then show ?thesis using fresh_dir_None [of taken tmp draw k] by (simp add: CreateTempDir_def)
next
  case (Some r)
  obtain d k' where r: "r = (d, k')" by fastforce
  have "DeleteTempDir d (taken(d := True)) = Some taken" if "\<forall>p. beneath d p \<longrightarrow> \<not> taken p"
    using that by (auto simp: DeleteTempDir_def fun_eq_iff beneath_def)
  then show ?thesis using fresh_dir_result [OF Some] Some r by (simp add: CreateTempDir_def first_free_def) blast
qed

theorem scratch_directory_witness:
  "case CreateTempDir ''/tmp'' (\<lambda>i. of_nat (Suc i)) 0 (\<lambda>p. p = ''/tmp'' \<or> p = ''/tmp/1'') of
     None \<Rightarrow> False
   | Some (d, k', taken') \<Rightarrow> d = ''/tmp/2'' \<and> DeleteTempDir d taken' = Some (\<lambda>p. p = ''/tmp'' \<or> p = ''/tmp/1'')"
proof -
  let ?taken = "\<lambda>p. p = ''/tmp'' \<or> p = ''/tmp/1''"
  have names: "scratch_name ''/tmp'' (of_nat (Suc 0)) = ''/tmp/1''" "scratch_name ''/tmp'' (of_nat (Suc 1)) = ''/tmp/2''"
    by (simp_all add: scratch_name_def join_path_def show_dec_def show_nat_def digits.simps digit_char_def char_of_def bit_simps)
  have run: "fresh_dir ?taken ''/tmp'' (\<lambda>i. of_nat (Suc i)) 0 = Some (''/tmp/2'', 2)"
    using names by (simp add: fresh_dir.simps [of _ _ _ 0] fresh_dir.simps [of _ _ _ "Suc 0"])
  have "\<forall>p. beneath ''/tmp/2'' p \<longrightarrow> \<not> ?taken p"
    by (auto simp: beneath_def)
  then show ?thesis
    using scratch_directory [where tmp = "''/tmp''" and draw = "\<lambda>i. of_nat (Suc i)" and k = 0 and taken = ?taken]
    unfolding CreateTempDir_def run option.case prod.case by blast
qed

text \<open>A scope that only touches what lies in its directory leaves nothing behind.\<close>

theorem scope_leaves_nothing:
  assumes "\<And>d t p. \<not> beneath d p \<Longrightarrow> body d t p = t p"
    and "TempDir_scope tmp draw k body taken = Some (k', taken')" and "taken' p"
  shows "taken p"
proof -
  obtain d t where made: "CreateTempDir tmp draw k taken = Some (d, k', t)"
    and freed: "DeleteTempDir d (body d t) = Some taken'"
    using assms(2) by (auto simp: TempDir_scope_def split: option.splits)
  have t: "t = taken(d := True)" using made by (auto simp: CreateTempDir_def split: option.splits)
  have "body d t p \<and> \<not> beneath d p" using freed assms(3) by (auto simp: DeleteTempDir_def split: if_splits)
  then have "t p \<and> p \<noteq> d" using assms(1) [of d p t] by (auto simp: beneath_def)
  then show ?thesis by (simp add: t)
qed

end
