(* ===== verification/Service.thy ===== *)
theory Service
  imports Cli Grpc Printing Plugins
begin

text \<open>
  The program, \<open>src/cli/main.cpp\<close>: the help text, the service with its prompt, the one-shot client and
  \<open>main\<close>. The lines that \<open>readline\<close> returns are an argument, as is the temporary directory, which
  \<open>Scratch_Dirs\<close> models.
\<close>

section \<open>The help text\<close>

definition pad :: "nat \<Rightarrow> string \<Rightarrow> string" where
  "pad n s = s @ replicate (n - length s) CHR '' ''"

definition kCommandsHelp :: "(string, string) omap" where
  "kCommandsHelp = om_init
     [(''connect <host>:<port>'', ''Connects to another instance: '' @ [CHR 0x27] @ ''connect 0.0.0.0:5000'' @ [CHR 0x27] @ ''.''),
      (''disconnect <number>'', ''Disconnects from a host by its connection number: '' @ [CHR 0x27] @ ''disconnect 1'' @ [CHR 0x27]),
      (''add <value> [<version>]'', ''Appends a new entry to the local database: '' @ [CHR 0x27] @ ''add 100 {{aaff, 1}}'' @ [CHR 0x27] @ ''.''),
      (''relay <id> <value> [<version>]'', ''Relay an addition to another instance: '' @ [CHR 0x27] @ ''relay aaff 10'' @ [CHR 0x27]),
      (''sources'', ''Print this instance data sources.''),
      (''list'', ''List commands.''),
      (''quit'', ''Quit the instance.'')]"

abbreviation newline :: string where
  "newline \<equiv> [CHR ''\<newline>'']"

definition PrintCommands :: string where
  "PrintCommands =
     newline @ concat (map (\<lambda>(cmd, help). ''  '' @ pad 35 cmd @ pad 45 help @ newline) (entries kCommandsHelp)) @ newline"

section \<open>The service\<close>

text \<open>One command: what it prints and what it does. The runtime of the loop is the journal \<open>a\<close>.\<close>

definition RunService_command ::
    "nat \<Rightarrow> addr \<Rightarrow> options \<Rightarrow> command \<Rightarrow> world \<Rightarrow> (string \<times> world) outcome" where
  "RunService_command n a options command w =
     (case cmd_type command of
        Invalid \<Rightarrow>
          Inr (if cmd_name command \<noteq> [] then ''unknown command: '' @ cmd_name command @ newline else [], w)
      | Connect \<Rightarrow>
          let (b, w) = BrokerStore_getOrCreate (''grpc://'' @ cmd_url command) w in
          andThen (BrokerBase_connect n a (Connection_to b) w) (\<lambda>(out, w).
          Inr (if \<not> Connection_valid w out
               then cmd_name command @ '': failed '' @ show_source (opt_source options) @ newline else [], w))
      | Disconnect \<Rightarrow> andThen (Broker_disconnect n a (cmd_source command) w) (\<lambda>(_, w). Inr ([], w))
      | Append \<Rightarrow>
          andThen (BrokerBase_append n a ((cmd_data command)\<lparr>data_id := b_id (broker_at w a)\<rparr>) w)
            (\<lambda>(_, w). Inr ([], w))
      | Relay \<Rightarrow> andThen (BrokerBase_relay n a (cmd_data command) 0 w) (\<lambda>(_, w). Inr ([], w))
      | Sources \<Rightarrow> Inr (SourcesMap_str (BrokerBase_sources w a 0) @ newline, w)
      | Versions \<Rightarrow> Inr (IdClockMap_str (Broker_versions w a) @ newline, w)
      | ListCommands \<Rightarrow> Inr (PrintCommands, w)
      | Quit \<Rightarrow> Inr ([], w))"

text \<open>A round of the loop ends with the prompt, which shows the balance of the entries.\<close>

definition RunService_round ::
    "nat \<Rightarrow> addr \<Rightarrow> options \<Rightarrow> command \<Rightarrow> world \<Rightarrow> (string \<times> world) outcome" where
  "RunService_round n a options command w =
     andThen (RunService_command n a options command w) (\<lambda>(out, w).
     andThen (Ledger_Balance (BrokerBase_entries w a)) (\<lambda>balance.
     Inr (out @ Clock_str (Broker_clock w a) @ '':'' @ show_signed balance @ '' > '', w)))"

text \<open>The first command comes from the options, the others from the lines of the prompt, until a line
  says \<open>quit\<close> or there are no more.\<close>

primrec RunService_lines ::
    "nat \<Rightarrow> addr \<Rightarrow> options \<Rightarrow> string list \<Rightarrow> string \<times> world \<Rightarrow> (string \<times> world) outcome" where
  "RunService_lines n a options [] st = Inr st"
| "RunService_lines n a options (line # lines) st =
     andThen (Command_Read (input line)) (\<lambda>command.
     if cmd_type command = Quit then Inr st
     else andThen (RunService_round n a options command (snd st)) (\<lambda>(out, w).
       RunService_lines n a options lines (fst st @ out, w)))"

definition RunService_loop ::
    "nat \<Rightarrow> addr \<Rightarrow> options \<Rightarrow> string list \<Rightarrow> world \<Rightarrow> (string \<times> world) outcome" where
  "RunService_loop n a options lines w =
     andThen (RunService_round n a options (opt_command options) w) (\<lambda>st.
     andThen (RunService_lines n a options lines st) (\<lambda>(out, w). Inr (out @ ''bye!'' @ newline, w)))"

text \<open>The set-up: the journal of the device and the runner that serves it. The calls through a missing
  journal or runner follow a null pointer.\<close>

definition journal_url :: "options \<Rightarrow> string \<Rightarrow> string" where
  "journal_url options tempDir =
     ''file://'' @ show_hex (opt_id options) @ ''@localhost'' @
     (if opt_dbPath options = [] then tempDir else opt_dbPath options)"

definition service_url :: "options \<Rightarrow> string" where
  "service_url options = ''grpc://'' @ opt_hostname options @ '':'' @ show_source (opt_source options)"

definition RunService_setup ::
    "(string \<Rightarrow> bool) \<Rightarrow> options \<Rightarrow> string \<Rightarrow> world \<Rightarrow> wrapper_store \<Rightarrow>
     (addr \<times> nat \<times> world \<times> wrapper_store) outcome" where
  "RunService_setup listens options tempDir w s =
     (let (journal, w) = BrokerStore_getOrCreate (journal_url options tempDir) w;
          (runner, s) = WrapperStore_getOrCreate (service_url options) s in
      case (journal, runner) of
        (Some a, Some r) \<Rightarrow> andThen (GrpcRunner_start listens r a s) (\<lambda>s. Inr (a, r, w, s))
      | _ \<Rightarrow> Inl Null_pointer)"

definition RunService ::
    "nat \<Rightarrow> (string \<Rightarrow> bool) \<Rightarrow> options \<Rightarrow> string \<Rightarrow> string list \<Rightarrow> world \<Rightarrow> wrapper_store \<Rightarrow>
     (string \<times> world \<times> wrapper_store) outcome" where
  "RunService n listens options tempDir lines w s =
     andThen (RunService_setup listens options tempDir w s) (\<lambda>(a, r, w, s).
     andThen (RunService_loop n a options lines w) (\<lambda>(out, w).
     andThen (GrpcRunner_stop r s) (\<lambda>s. Inr (out, w, s))))"

section \<open>The one-shot client\<close>

text \<open>The virtual functions that the client calls on the remote broker; \<open>connect\<close> is given the URL of
  the connection it passes. \<open>store\<close> is what the client's store makes of a URL.\<close>

record remote =
  rc_relay :: "data \<Rightarrow> source \<Rightarrow> world \<Rightarrow> (clock \<times> world) outcome"
  rc_sources :: "source \<Rightarrow> world \<Rightarrow> (sources_map \<times> world) outcome"
  rc_connect :: "string \<Rightarrow> world \<Rightarrow> (connection \<times> world) outcome"

text \<open>The result: whether the process ends with success, what it printed, and the new world.\<close>

definition RunCommand :: "(string \<Rightarrow> remote option) \<Rightarrow> options \<Rightarrow> world \<Rightarrow> (bool \<times> string \<times> world) outcome" where
  "RunCommand store options w =
     (let stub = store (service_url options); command = opt_command options;
          relay = (case stub of
             None \<Rightarrow> Inl Null_pointer
           | Some b \<Rightarrow> andThen (rc_relay b (cmd_data command) 0 w) (\<lambda>(c, w). Inr (Clock_valid c, [], w)))
      in case cmd_type command of
        Connect \<Rightarrow>
          (case stub of
             None \<Rightarrow> Inl Null_pointer
           | Some b \<Rightarrow>
               let u = ''grpc://'' @ cmd_url command in
               andThen (rc_connect b (if store u = None then [] else u) w) (\<lambda>(_, w). Inr (True, [], w)))
      | Append \<Rightarrow> relay
      | Relay \<Rightarrow> relay
      | Sources \<Rightarrow>
          (case stub of
             None \<Rightarrow> Inl Null_pointer
           | Some b \<Rightarrow> andThen (rc_sources b 0 w) (\<lambda>(s, w). Inr (True, SourcesMap_str s @ newline, w)))
      | ListCommands \<Rightarrow> Inr (True, PrintCommands, w)
      | _ \<Rightarrow> Inr (True, [], w))"

definition usage :: "string \<Rightarrow> string" where
  "usage name = ''usage: '' @ name @ '' [-s] [-h hostname] [-p port] [-i id] [<command>...]'' @ newline"

definition main ::
    "nat \<Rightarrow> (string \<Rightarrow> remote option) \<Rightarrow> (string \<Rightarrow> bool) \<Rightarrow> string \<Rightarrow> string \<Rightarrow> (char \<times> string) list \<Rightarrow> string list \<Rightarrow>
     string list \<Rightarrow> world \<Rightarrow> wrapper_store \<Rightarrow> (bool \<times> string \<times> world) outcome" where
  "main n store listens tempDir name opts operands lines w s =
     andThen (Options_read opts operands) (\<lambda>options.
     if \<not> Options_ok options then Inr (False, usage name @ PrintCommands, w)
     else if opt_service options then
       andThen (RunService n listens options tempDir lines w s) (\<lambda>(out, w, _). Inr (True, out, w))
     else RunCommand store options w)"

section \<open>The addresses of the service\<close>

lemma stoul_show_hex [simp]: "stoul 16 (show_hex i) = Some i"
proof -
  obtain d cs where d: "show_hex i = digit_char d # cs" "d < 16"
    unfolding show_hex_def by (rule show_nat_Cons [of 16]) simp_all
  then have "scan_sign (dropWhile is_space (show_hex i)) = (False, show_hex i)"
    by (simp add: digit_char_no_space digit_char_neq)
  moreover have "scan_digits 16 (scan_prefix 16 (show_hex i)) = (digits 16 (unat i), [])"
    using scan_show_nat [of 16 "[]" "unat i"] by (simp add: show_hex_def number_ends_def)
  ultimately show ?thesis by (simp add: stoul_def conv_unsigned_word)
qed

lemma stoul_show_nat: "n < 2 ^ 64 \<Longrightarrow> stoul 10 (show_nat 10 n) = Some (of_nat n)"
proof -
  assume n: "n < 2 ^ 64"
  obtain d cs where d: "show_nat 10 n = digit_char d # cs" "d < 16"
    by (rule show_nat_Cons [of 10]) simp_all
  then have "scan_sign (dropWhile is_space (show_nat 10 n)) = (False, show_nat 10 n)"
    by (simp add: digit_char_no_space digit_char_neq)
  moreover have "scan_digits 10 (scan_prefix 10 (show_nat 10 n)) = (digits 10 n, [])"
    using scan_show_nat [of 10 "[]" n] by (simp add: number_ends_def)
  ultimately show ?thesis using n by (simp add: stoul_def conv_unsigned_def)
qed

lemma show_nat_inj:
  assumes "2 \<le> b" and "b \<le> 16" and "show_nat b m = show_nat b n"
  shows "m = n"
proof -
  have "digits b m = digits b n"
    using scan_show_nat [of b "[]" m] scan_show_nat [of b "[]" n] assms by (simp add: number_ends_def)
  then show ?thesis by (metis digits_value_digits)
qed

lemma show_nat_chars:
  assumes "2 \<le> b" and "b \<le> 16" and "c \<in> set (show_nat b n)"
  shows "c \<noteq> CHR ''/'' \<and> c \<noteq> CHR ''@''"
proof -
  obtain d where "d \<in> set (digits b n)" "c = digit_char d"
    using assms(3) by (auto simp: show_nat_def)
  moreover from this have "d < 16" using digits_less [OF assms(1), of d n] assms(2) by simp
  ultimately have "(of_char c :: nat) \<noteq> of_char (CHR ''/'') \<and> (of_char c :: nat) \<noteq> of_char (CHR ''@'')"
    by (simp add: of_char_digit_char)
  then show ?thesis by metis
qed

lemma journal_parts:
  assumes "path_ok p"
  shows "ParseUrl (''file://'' @ show_hex i @ ''@localhost'' @ p) =
    \<lparr>url_url = ''file://'' @ show_hex i @ ''@localhost'' @ p, url_schema = ''file'', url_id = show_hex i,
      url_hostport = ''localhost'', url_path = p\<rparr>"
proof -
  have "show_hex i \<noteq> []" by (simp add: show_hex_def show_nat_def)
  then have "hd (show_hex i) \<noteq> CHR ''/''" "CHR ''@'' \<notin> set (show_hex i)"
    using show_nat_chars [of 16 _ "unat i"] hd_in_set [of "show_hex i"] by (auto simp: show_hex_def)
  then show ?thesis
    using kRegex_search [of "''file''" "''localhost''" p "show_hex i" "show_hex i @ ''@''"] assms
      \<open>show_hex i \<noteq> []\<close>
    by (simp add: ParseUrl_def capture_def group_def id_groups_def)
qed

definition plain_host :: "string \<Rightarrow> bool" where
  "plain_host h \<longleftrightarrow> CHR ''/'' \<notin> set h \<and> CHR ''@'' \<notin> set h"

lemma service_parts:
  assumes "plain_host (opt_hostname options)"
  shows "url_schema (ParseUrl (service_url options)) = ''grpc''"
    and "url_hostport (ParseUrl (service_url options)) =
      opt_hostname options @ '':'' @ show_source (opt_source options)"
proof -
  let ?h = "opt_hostname options @ '':'' @ show_source (opt_source options)"
  have "CHR ''/'' \<notin> set ?h" "CHR ''@'' \<notin> set ?h"
    using assms show_nat_chars [of 10 _ "unat (opt_source options)"]
    by (auto simp: plain_host_def show_source_def)
  then have "regex_search kRegex (service_url options) = Some (group 5 [] (group 4 ?h (id_groups [] [(1, ''grpc'')])))"
    using kRegex_search [of "''grpc''" ?h "[]" "[]" "[]"] by (simp add: path_ok_def service_url_def)
  then show "url_schema (ParseUrl (service_url options)) = ''grpc''"
    and "url_hostport (ParseUrl (service_url options)) = ?h"
    by (simp_all add: ParseUrl_def capture_def group_def id_groups_def)
qed

section \<open>Commands\<close>

lemma quit_read: "Command_Read (input ''quit'') = Inr (no_command\<lparr>cmd_name := ''quit'', cmd_type := Quit\<rparr>)"
proof -
  have "extract_word [] (input ''quit'') = (''quit'', \<lparr>rest = [], eofbit = True, failbit = False\<rparr>)"
    by (simp add: extract_word_def is_space_def)
  then show ?thesis by (simp add: Command_Read_def kNameTypeMap_def)
qed

lemma lines_until_quit:
  "RunService_lines n a options (xs @ ''quit'' # ys) st = RunService_lines n a options xs st"
proof (induction xs arbitrary: st)
  case Nil
  show ?case by (simp add: quit_read)
next
  case (Cons x xs)
  then have "RunService_lines n a options (xs @ ''quit'' # ys) = RunService_lines n a options xs"
    by (rule ext)
  then show ?case by (simp cong: if_cong)
qed

text \<open>A journal finds itself first among its sources.\<close>

lemma own_route:
  assumes "b_kind (broker_at w a) \<noteq> Hub"
  shows "relay_scan (b_id (broker_at w a)) (advertised (BrokerBase_sources w a 0) 0) best = None"
proof -
  let ?own = "om_init [(b_id (broker_at w a), \<lparr>info_distance = 0, info_clock = Broker_clock w a\<rparr>)]"
  obtain m where m: "BrokerBase_sources w a 0 = om_put 0 ?own m"
    using assms by (simp add: BrokerBase_sources_def JournalBase_sources_def)
  have "(0, ?own) \<in> set (entries (BrokerBase_sources w a 0))"
    unfolding m by (simp flip: om_find_iff)
  moreover have "(b_id (broker_at w a), \<lparr>info_distance = 0, info_clock = Broker_clock w a\<rparr>) \<in> set (entries ?own)"
    by (simp flip: om_find_iff)
  ultimately have "0 \<in> fst ` set (routes (b_id (broker_at w a)) (advertised (BrokerBase_sources w a 0) 0))"
    by (force simp: routes_def advertised_def)
  then show ?thesis by (simp add: relay_scan_routes)
qed

lemma relay_own:
  assumes "b_kind (broker_at w a) \<noteq> Hub"
  shows "BrokerBase_relay (Suc n) a (d\<lparr>data_id := 0\<rparr>) 0 w =
    BrokerBase_insert n a \<lparr>entry_clock = Clock_tick (Broker_clock w a) (b_id (broker_at w a)),
      entry_data = d\<lparr>data_id := b_id (broker_at w a)\<rparr>\<rparr> 0 w"
  using assms own_route [OF assms] by (simp add: JournalBase_relay_def Broker_relay_def)

lemma connect_returns_stub:
  assumes "BrokerBase_connect n a c w = Inr (out, w')" and "conn_source c = 0"
  shows "conn_broker out = conn_broker (fst (BrokerBase_stub a w))"
  using assms
  by (cases n) (auto simp: Broker_connect_def Broker_connect_out_def Let_def cashmere_errors
      split: prod.splits if_splits)

lemma connect_result_valid:
  assumes wf: "well_formed w" "filed w" and a: "live w a" "length (conns w a) < 2 ^ 32"
    and c: "anchored w c" "conn_source c = 0" and run: "BrokerBase_connect n a c w = Inr (out, w')"
  shows "Connection_valid w' out"
proof -
  have "BrokerBase_stub a w = (Connection_to (Some a), w)"
    using wf(2) a(1) by (simp add: filed_def stub_registered)
  then have "conn_broker out = Some a"
    using connect_returns_stub [OF run c(2)] by (simp add: Connection_to_def)
  moreover have "live w' a"
    using grows_live [OF connect_sound(2) [OF wf(1) a c(1) run] wf(1) a(1)] .
  ultimately show ?thesis by (simp add: Connection_valid_def Connection_broker_def live_def)
qed

text \<open>A host with the plugin of file journals and that of gRPC runners, and options to start a service.\<close>

definition file_plugins :: "(string, kind) omap" where
  "file_plugins = om_init [(''file'', File)]"

definition grpc_runners :: wrapper_store where
  "grpc_runners = WrapperStore_create (om_init [(''grpc'', ())])"

definition sample_options :: options where
  "sample_options = no_options\<lparr>opt_id := 0xcafe, opt_service := True\<rparr>"

lemma sample_hosted: "plain_host (opt_hostname sample_options)" "path_ok ''/tmp/1''"
  by (simp_all add: sample_options_def no_options_def plain_host_def path_ok_def)

lemma well_formed_one_broker:
  "well_formed one_broker" "filed one_broker" "live one_broker 0" "length (conns one_broker 0) < 2 ^ 32"
  using served_invariant [OF one_broker_served] create_well_formed [of two_plugins "\<lambda>_. 7" om_empty]
  by (simp_all add: empty_store_def) (simp_all add: eval_simps store_simps)

section \<open>What a line can do\<close>

text \<open>The requests of \<open>admissible\<close>, for a command of the prompt.\<close>

definition prompt_ready :: "addr \<Rightarrow> command \<Rightarrow> world \<Rightarrow> bool" where
  "prompt_ready a command w \<longleftrightarrow>
     well_formed w \<and> live w a \<and>
     (case cmd_type command of
        Connect \<Rightarrow> om_find (w_store w) (''grpc://'' @ cmd_url command) \<noteq> Some a \<and> length (conns w a) < 2 ^ 32
      | Relay \<Rightarrow> ports_fit w
      | _ \<Rightarrow> True)"

lemma connect_command:
  assumes "well_formed w" and "live w a" and "length (conns w a) < 2 ^ 32"
    and "BrokerStore_getOrCreate u w = (b, v)"
  shows "sound (BrokerBase_connect n a (Connection_to b) v)"
    and "BrokerBase_connect n a (Connection_to b) v = Inr (c, w') \<Longrightarrow> grows w w'"
proof -
  have v: "well_formed v" "live v a" "length (conns v a) < 2 ^ 32" "grows w v"
    using grows_well_formed [OF grows_create [OF assms(4)] assms(1)] getOrCreate_keeps(1,2) [OF assms(4,2)]
      assms(3) grows_create [OF assms(4)] by simp_all
  have "anchored v (Connection_to b)"
    using created_live [of u w _ v] assms(1,4) by (cases b) (auto simp: anchored_iff Connection_to_def)
  note new = connect_sound [OF v(1-3) this]
  show "sound (BrokerBase_connect n a (Connection_to b) v)" by (rule new(1))
  show "grows w w'" if "BrokerBase_connect n a (Connection_to b) v = Inr (c, w')"
    using grows_trans [OF v(4) new(2) [OF that]] .
qed

lemma command_sound:
  assumes "prompt_ready a command w"
  shows "sound (RunService_command n a options command w)"
    and "RunService_command n a options command w = Inr (out, w') \<Longrightarrow> carries_on w w'"
proof -
  have wf: "well_formed w" "live w a" using assms by (simp_all add: prompt_ready_def)
  obtain b v where v: "BrokerStore_getOrCreate (''grpc://'' @ cmd_url command) w = (b, v)" by fastforce
  have room: "cmd_type command = Connect \<Longrightarrow> length (conns w a) < 2 ^ 32"
    and fit: "cmd_type command = Relay \<Longrightarrow> ports_fit w"
    using assms by (simp_all add: prompt_ready_def)
  show "sound (RunService_command n a options command w)"
    using connect_command(1) [OF wf room v, of n] relay_sound [OF wf(1) fit wf(2), of n] v
    by (cases "cmd_type command")
      (auto simp: RunService_command_def BrokerBase_append_def insert_sound disconnect_sound intro!: soundness)
  show "carries_on w w'" if "RunService_command n a options command w = Inr (out, w')"
    using that connect_command(2) [OF wf room v, of n _ w'] v
    by (cases "cmd_type command")
      (auto simp: RunService_command_def BrokerBase_append_def cashmere_errors carries_on_refl
        dest: grows_insert same_net_relay disconnect_carries_on intro: grows_carries_on grows_carries_on [OF same_net_grows])
qed

lemma balance_sound: "sound (Ledger_Balance es)"
proof -
  obtain l where "Ledger es = Inr l" by (rule Ledger_spec)
  then show ?thesis by (simp add: Ledger_Balance_def)
qed

lemma round_sound:
  assumes "prompt_ready a command w"
  shows "sound (RunService_round n a options command w)"
    and "RunService_round n a options command w = Inr (out, w') \<Longrightarrow> carries_on w w'"
  using command_sound [OF assms, of n options]
  by (auto simp: RunService_round_def balance_sound cashmere_errors intro!: soundness)

section \<open>Theorems\<close>



text \<open>A line that says \<open>quit\<close> ends the service: it prints and does what it would if the input ended
  there, and the lines after it are not read.\<close>

theorem quit_ends_service:
  "RunService n listens options tempDir (xs @ ''quit'' # ys) w s = RunService n listens options tempDir xs w s"
  by (simp add: RunService_def RunService_loop_def lines_until_quit)

text \<open>A service that comes to an end was listening, has said good-bye last, and its runner no longer
  serves.\<close>

theorem service_stops_serving:
  assumes "RunService n listens options tempDir lines w s = Inr (out, w', s')"
    and "om_find (ws_store s) (service_url options) = None"
  shows "\<exists>r printed. om_find (ws_store s') (service_url options) = Some r \<and>
    \<not> wr_serving (ws_wrappers s' ! r) \<and>
    (case wr_server (ws_wrappers s' ! r) of None \<Rightarrow> False | Some address \<Rightarrow> listens address) \<and>
    out = printed @ ''bye!'' @ newline"
proof -
  obtain a r v t u where begun: "RunService_setup listens options tempDir w s = Inr (a, r, v, t)"
    and loop: "RunService_loop n a options lines v = Inr (out, u)"
    and stop: "GrpcRunner_stop r t = Inr s'"
    using assms(1) by (auto simp: RunService_def cashmere_errors)
  obtain q where made: "WrapperStore_getOrCreate (service_url options) s = (Some r, q)"
    and start: "GrpcRunner_start listens r a q = Inr t"
    using begun by (auto simp: RunService_setup_def Let_def cashmere_errors split: prod.splits option.splits)
  have r: "r < length (ws_wrappers q)"
    by (cases rule: wrapper_cases [OF made]) (use assms(2) in auto)
  have q: "om_find (ws_store q) (service_url options) = Some r" by (rule runners.registers [OF made])
  obtain address where "listens address" and
    t: "t = q\<lparr>ws_wrappers := (ws_wrappers q)[r := (ws_wrappers q ! r)
      \<lparr>wr_broker := Some a, wr_server := Some address, wr_serving := True\<rparr>]\<rparr>"
    using start by (auto simp: GrpcRunner_start_def Let_def split: if_splits)
  moreover obtain printed where "out = printed @ ''bye!'' @ newline"
    using loop by (auto simp: RunService_loop_def cashmere_errors)
  ultimately show ?thesis using stop r q by (auto simp: GrpcRunner_stop_def)
qed

theorem service_stops_serving_witness:
  "case RunService 1 (\<lambda>_. True) sample_options ''/tmp/1'' [''quit'']
      (BrokerStore_create file_plugins (\<lambda>_. 7) om_empty) grpc_runners of
    Inl f \<Rightarrow> False
  | Inr (out, w', s') \<Rightarrow> \<exists>r. om_find (ws_store s') (service_url sample_options) = Some r \<and>
      \<not> wr_serving (ws_wrappers s' ! r)"
proof -
  let ?w = "BrokerStore_create file_plugins (\<lambda>_. 7) om_empty"
  have "\<exists>a r w t. RunService_setup (\<lambda>_. True) sample_options ''/tmp/1'' ?w grpc_runners = Inr (a, r, w, t) \<and>
      b_kind (broker_at w a) = File \<and> Broker_clock w a = om_empty \<and> wr_server (ws_wrappers t ! r) \<noteq> None"
    using journal_parts [OF sample_hosted(2), of "0xcafe"] service_parts [OF sample_hosted(1)]
    by (simp add: RunService_setup_def journal_url_def sample_options_def no_options_def
        BrokerBase_Impl_def WrapperStore_getOrCreate_def GrpcRunner_start_def grpc_runners_def file_plugins_def
        WrapperStore_create_def BrokerStore_create_def eval_simps Let_def split: option.split)
  then obtain a r w t where begun: "RunService_setup (\<lambda>_. True) sample_options ''/tmp/1'' ?w grpc_runners = Inr (a, r, w, t)"
    and journal: "b_kind (broker_at w a) = File" "Broker_clock w a = om_empty"
    and server: "wr_server (ws_wrappers t ! r) \<noteq> None" by blast
  have "BrokerBase_entries w a = []" using journal by (simp add: BrokerBase_entries_def JournalFile_entries_def)
  then have "\<exists>out. RunService_loop 1 a sample_options [''quit''] w = Inr (out, w)"
    by (simp add: RunService_loop_def RunService_round_def RunService_command_def sample_options_def
        no_options_def no_command_def Ledger_Balance_def quit_read eval_simps)
  then obtain out s' where "RunService 1 (\<lambda>_. True) sample_options ''/tmp/1'' [''quit''] ?w grpc_runners = Inr (out, w, s')"
    using begun server by (auto simp: RunService_def GrpcRunner_stop_def)
  then show ?thesis using service_stops_serving by (fastforce simp: grpc_runners_def WrapperStore_create_def)
qed

text \<open>C27: The client's \<open>add\<close> is the journal's own \<open>append\<close>: sent over a transport that delivers it, the
  payload without identifier becomes an entry of the journal that serves the address, and the exit
  status tells whether the entry was accepted.\<close>

theorem client_add_is_append:
  assumes "store (service_url options) = Some stub" and "rc_relay stub = Stub_relay (GrpcRunner_Relay (BrokerBase_relay (Suc n)) a)"
    and "Command_Read (input (add_line v c)) = Inr (opt_command options)"
    and "b_kind (broker_at w a) \<noteq> Hub"
  shows "RunCommand store options w =
    andThen (BrokerBase_append n a (Data_of (b_id (broker_at w a)) v c) w) (\<lambda>(ok, w). Inr (ok, [], w))"
proof -
  have command: "cmd_type (opt_command options) = Append" "cmd_data (opt_command options) = Data_of 0 v c"
    using assms(3) [unfolded Command_Read_add, THEN Inr_inject, symmetric] by simp_all
  have "Stub_relay (GrpcRunner_Relay (BrokerBase_relay (Suc n)) a) (Data_of 0 v c) 0 w = BrokerBase_relay (Suc n) a (Data_of 0 v c) 0 w"
    by (simp only: Stub_relay_Runner)
  also have "\<dots> = BrokerBase_insert n a \<lparr>entry_clock = Clock_tick (Broker_clock w a) (b_id (broker_at w a)),
      entry_data = Data_of (b_id (broker_at w a)) v c\<rparr> 0 w"
    using relay_own [OF assms(4), of n "Data_of 0 v c"] by simp
  finally show ?thesis
    using assms(1,2) command
    by (cases "BrokerBase_insert n a \<lparr>entry_clock = Clock_tick (Broker_clock w a) (b_id (broker_at w a)),
        entry_data = Data_of (b_id (broker_at w a)) v c\<rparr> 0 w")
      (auto simp: RunCommand_def BrokerBase_append_def Let_def)
qed

theorem client_add_is_append_witness:
  "case RunCommand (\<lambda>_. Some \<lparr>rc_relay = Stub_relay (GrpcRunner_Relay (BrokerBase_relay 2) 0),
        rc_sources = Stub_sources (GrpcRunner_Sources 0), rc_connect = \<lambda>u w. Inr (Connection_none, w)\<rparr>)
      (no_options\<lparr>opt_command := projr (Command_Read (input (add_line 5 om_empty)))\<rparr>) one_broker of
    Inl f \<Rightarrow> False
  | Inr (success, out, w) \<Rightarrow> success \<and> Broker_clock w 0 = Clock_init [(10, 1)]"
proof -
  have "\<exists>w. BrokerBase_append 1 0 (Data_of 10 5 om_empty) one_broker = Inr (True, w) \<and>
      Broker_clock w 0 = Clock_init [(10, 1)]"
    by (simp add: eval_simps store_simps)
  then obtain w where "BrokerBase_append 1 0 (Data_of 10 5 om_empty) one_broker = Inr (True, w)"
    "Broker_clock w 0 = Clock_init [(10, 1)]" by blast
  moreover have "b_kind (broker_at one_broker 0) \<noteq> Hub" "b_id (broker_at one_broker 0) = 10"
    by (simp_all add: eval_simps store_simps)
  ultimately show ?thesis
    using client_add_is_append [of "\<lambda>_. Some \<lparr>rc_relay = Stub_relay (GrpcRunner_Relay (BrokerBase_relay 2) 0),
        rc_sources = Stub_sources (GrpcRunner_Sources 0), rc_connect = \<lambda>u w. Inr (Connection_none, w)\<rparr>"
        "no_options\<lparr>opt_command := projr (Command_Read (input (add_line 5 om_empty)))\<rparr>" _ 1 0 5 om_empty one_broker]
    by (simp add: Command_Read_add numeral_2_eq_2 del: One_nat_def)
qed

text \<open>The prompt never reports that a connection failed: what \<open>connect\<close> returns is valid even when
  it refused, so the line that would say so is not printed, not even for a host that the store
  cannot make a broker for, where nothing is connected.\<close>

theorem failed_connection_not_reported:
  assumes "well_formed w" and "filed w" and "live w a" and "length (conns w a) < 2 ^ 32"
    and "cmd_type command = Connect"
    and "RunService_command n a options command w = Inr (out, w')"
  shows "out = [] \<and>
    (fst (BrokerStore_getOrCreate (''grpc://'' @ cmd_url command) w) = None \<longrightarrow> w' = w)"
proof -
  let ?u = "''grpc://'' @ cmd_url command"
  obtain b v where v: "BrokerStore_getOrCreate ?u w = (b, v)" by fastforce
  obtain c u where run: "BrokerBase_connect n a (Connection_to b) v = Inr (c, u)"
    and out: "out = (if \<not> Connection_valid u c then cmd_name command @ '': failed '' @ show_source (opt_source options) @ newline else [])"
    "w' = u"
    using assms(5,6) v by (auto simp: RunService_command_def cashmere_errors)
  have grown: "well_formed v" "live v a" "length (conns v a) < 2 ^ 32" "filed v"
    using grows_well_formed [OF grows_create [OF v] assms(1)] getOrCreate_keeps(1,2) [OF v assms(3)] assms(2,4)
      files_create [OF v] by (simp_all add: stays_filed_def)
  have "anchored v (Connection_to b)"
    using created_live [of ?u w _ v] v assms(1) by (cases b) (auto simp: anchored_iff Connection_to_def)
  then have valid: "Connection_valid u c"
    using connect_result_valid [OF grown(1,4,2,3) _ _ run] by (simp add: Connection_to_def)
  have "u = w" if "b = None"
  proof -
    have "v = w" using brokers.refuses [of ?u w v] v that by simp
    moreover have "BrokerBase_stub a w = (Connection_to (Some a), w)"
      using assms(2,3) by (simp add: filed_def stub_registered)
    ultimately show ?thesis using run that
      by (cases n) (auto simp: Broker_connect_def Broker_connect_out_def Connection_to_def Connection_valid_def
          Connection_broker_def)
  qed
  then show ?thesis using out valid v by simp
qed

theorem failed_connection_not_reported_witness:
  "RunService_command 1 0 no_options (no_command\<lparr>cmd_type := Connect, cmd_name := ''connect'', cmd_url := ''host:1''\<rparr>)
     one_broker = Inr ([], one_broker)"
proof -
  let ?c = "no_command\<lparr>cmd_type := Connect, cmd_name := ''connect'', cmd_url := ''host:1''\<rparr>"
  have "url_schema (ParseUrl (''grpc://'' @ ''host:1'')) = ''grpc''"
    using kRegex_search [of "''grpc''" "''host:1''" "[]" "[]" "[]"]
    by (simp add: ParseUrl_def path_ok_def capture_def group_def id_groups_def)
  then have none: "BrokerStore_getOrCreate (''grpc://'' @ cmd_url ?c) one_broker = (None, one_broker)"
    by (simp add: BrokerStore_getOrCreate_def first_url_def store_simps)
  then have "\<exists>out w'. RunService_command 1 0 no_options ?c one_broker = Inr (out, w')"
    by (simp add: RunService_command_def eval_simps store_simps)
  then show ?thesis
    using failed_connection_not_reported [OF well_formed_one_broker, of ?c 1 no_options] none by fastforce
qed

text \<open>C40: The client dials the host of the service, but only the low 16 bits of the port: up to port
  65535 it reaches the address the service listens on, from 65536 on it dials another port.\<close>

theorem client_dials_service:
  assumes "plain_host (opt_hostname options)" and "CHR '':'' \<notin> set (opt_hostname options)"
    and "BrokerBase_Impl k (service_url options) w = (b, w')"
  shows "BrokerGrpcStub_channel b = opt_hostname options @ '':'' @ show_nat 10 (unat (opt_source options) mod 2 ^ 16) \<and>
    (BrokerGrpcStub_channel b = url_hostport (ParseUrl (service_url options)) \<longleftrightarrow> unat (opt_source options) < 2 ^ 16)"
proof -
  let ?h = "opt_hostname options" and ?n = "unat (opt_source options)"
  have address: "url_hostport (ParseUrl (service_url options)) = ?h @ '':'' @ show_nat 10 ?n"
    using service_parts(2) [OF assms(1)] by (simp add: show_source_def)
  have host: "takeWhile (\<lambda>c. c \<noteq> CHR '':'') (?h @ CHR '':'' # u) = ?h" for u
    by (subst takeWhile_append2) (use assms(2) in auto)
  have "?n < 2 ^ 32" using unsigned_less [of "opt_source options"] by simp
  then have port: "stoul 10 (show_nat 10 ?n) = Some (of_nat ?n)" by (intro stoul_show_nat) simp
  have low: "unat (ucast (of_nat m :: 64 word) :: 16 word) = m mod 2 ^ 16" for m
    by (simp add: unsigned_ucast_eq take_bit_eq_mod unat_of_nat mod_mod_cancel)
  have "b_hostname b = ?h" "b_port b = ucast (of_nat ?n :: 64 word)"
    using assms(3) by (auto simp: BrokerBase_Impl_def Let_def address host port split: option.splits prod.splits)
  then have channel: "BrokerGrpcStub_channel b = ?h @ '':'' @ show_nat 10 (?n mod 2 ^ 16)"
    unfolding BrokerGrpcStub_channel_def by (simp only: low)
  have "show_nat 10 (?n mod 2 ^ 16) = show_nat 10 ?n \<longleftrightarrow> ?n < 2 ^ 16"
    using show_nat_inj [of 10 "?n mod 2 ^ 16" ?n] by (auto simp: mod_eq_self_iff_div_eq_0)
  then show ?thesis using channel address by simp
qed

theorem client_dials_service_witness:
  "BrokerGrpcStub_channel (fst (BrokerBase_Impl Cache (service_url (no_options\<lparr>opt_source := 70000\<rparr>)) empty_store)) \<noteq>
     url_hostport (ParseUrl (service_url (no_options\<lparr>opt_source := 70000\<rparr>)))"
proof -
  obtain b w where "BrokerBase_Impl Cache (service_url (no_options\<lparr>opt_source := 70000\<rparr>)) empty_store = (b, w)"
    by fastforce
  moreover have hosted: "plain_host (opt_hostname (no_options\<lparr>opt_source := 70000\<rparr>))"
    "CHR '':'' \<notin> set (opt_hostname (no_options\<lparr>opt_source := 70000\<rparr>))"
    "\<not> unat (opt_source (no_options\<lparr>opt_source := 70000\<rparr>)) < 2 ^ 16"
    by (simp_all add: no_options_def plain_host_def)
  ultimately show ?thesis
    using client_dials_service [of "no_options\<lparr>opt_source := 70000\<rparr>" Cache empty_store b w] hosted by auto
qed



end
