(* ===== verification/Remote.thy ===== *)
theory Remote
  imports Grpc
begin

text \<open>
  A network whose brokers run in several processes. A connection to a broker of another process
  holds a \<open>BrokerGrpcStub\<close> (\<open>grpc/plugins/src/grpc.cpp\<close>), whose methods call the \<open>GrpcRunner\<close>
  (\<open>grpc/runner/src/grpcrunner.cpp\<close>) that wraps the broker there. \<open>net a b\<close> says what lies between
  the brokers \<open>a\<close> and \<open>b\<close>: nothing, a transport that delivers, or one whose calls fail. The
  \<open>Net_\<close> operations are those of \<open>Hub\<close> with the calls to peers made that way.
\<close>

section \<open>Calls between processes\<close>

datatype link = Same_process | Delivering | Failing

type_synonym net = "addr \<Rightarrow> addr \<Rightarrow> link"

text \<open>A call that fails has a status that is not OK.\<close>

definition carried :: "link \<Rightarrow> ('q, 'r) rpc \<Rightarrow> ('q, 'r) rpc" where
  "carried l rpc request w = (if l = Failing then Inr (None, w) else rpc request w)"

definition peer_insert :: "net \<Rightarrow> insert_call \<Rightarrow> addr \<Rightarrow> insert_call" where
  "peer_insert net call a b e s w =
     (if net a b = Same_process then call b e s w
      else Stub_insert (carried (net a b) (GrpcRunner_Insert call b)) e s w)"

primrec Net_insert :: "net \<Rightarrow> nat \<Rightarrow> insert_call" where
  "Net_insert net 0 a e s w = Inl Out_of_fuel"
| "Net_insert net (Suc n) a e s w =
     (if b_kind (broker_at w a) = Hub then Broker_insert (peer_insert net (Net_insert net n) a) a e s w
      else JournalBase_insert (peer_insert net (Net_insert net n) a) a e s w)"

definition Net_append :: "net \<Rightarrow> nat \<Rightarrow> addr \<Rightarrow> data \<Rightarrow> world \<Rightarrow> (bool \<times> world) outcome" where
  "Net_append net n a d w =
     andThen (Net_insert net n a \<lparr>entry_clock = Clock_tick (Broker_clock w a) (data_id d), entry_data = d\<rparr> 0 w)
       (\<lambda>(clock, w). Inr (Clock_valid clock, w))"

text \<open>A query goes to one peer, so the depth bounds the way there.\<close>

definition peer_query :: "net \<Rightarrow> query_call \<Rightarrow> addr \<Rightarrow> query_call" where
  "peer_query net call a w b c s =
     (if net a b = Same_process then call w b c s
      else andThen (Stub_query (carried (net a b) (GrpcRunner_Query call b)) c s w) (\<lambda>(es, _). Inr es))"

primrec Net_query :: "net \<Rightarrow> nat \<Rightarrow> query_call" where
  "Net_query net 0 w a c s = Inl Out_of_fuel"
| "Net_query net (Suc n) w a c s =
     (if b_kind (broker_at w a) = Hub then Broker_query (peer_query net (Net_query net n) a) w a c s
      else Inr (JournalBase_query w a c))"

definition peer_refresh :: "net \<Rightarrow> refresh_call \<Rightarrow> addr \<Rightarrow> refresh_call" where
  "peer_refresh net call a b d s w =
     (if net a b = Same_process then call b d s w
      else Stub_refresh (carried (net a b) (GrpcRunner_Refresh call b)) d s w)"

primrec Net_refresh :: "net \<Rightarrow> nat \<Rightarrow> refresh_call" where
  "Net_refresh net 0 a d s w = Inl Out_of_fuel"
| "Net_refresh net (Suc n) a d s w = Broker_refresh (peer_refresh net (Net_refresh net n) a) a d s w"

definition peer_relay :: "net \<Rightarrow> relay_call \<Rightarrow> addr \<Rightarrow> relay_call" where
  "peer_relay net call a b d s w =
     (if net a b = Same_process then call b d s w
      else Stub_relay (carried (net a b) (GrpcRunner_Relay call b)) d s w)"

primrec Net_relay :: "net \<Rightarrow> nat \<Rightarrow> relay_call" where
  "Net_relay net 0 a d s w = Inl Out_of_fuel"
| "Net_relay net (Suc n) a d s w =
     (if b_kind (broker_at w a) = Hub
      then Broker_relay (peer_relay net (Net_relay net n) a) (Net_insert net n) a d s w
      else JournalBase_relay (peer_relay net (Net_relay net n) a) (Net_insert net n) a d s w)"

text \<open>The calls of all pairs of brokers are delivered.\<close>

definition delivering :: "net \<Rightarrow> bool" where
  "delivering net \<longleftrightarrow> (\<forall>a b. net a b \<noteq> Failing)"

section \<open>Queries and announcements\<close>

lemma peer_query_same:
  "net a b \<noteq> Failing \<Longrightarrow> peer_query net call a w b c s = call w b c s"
  by (cases "call w b c s")
    (simp_all add: peer_query_def Stub_query_def carried_def GrpcRunner_Query_def comp_def)

lemma Net_query_same: "delivering net \<Longrightarrow> Net_query net n = BrokerBase_query n"
proof (induction n)
  case (Suc n)
  then have "peer_query net (Net_query net n) a = BrokerBase_query n" for a
    using peer_query_same by (intro ext) (simp add: delivering_def)
  then show ?case by (intro ext) simp
qed (intro ext, simp)

lemma Broker_refresh_result:
  "Broker_refresh call a d s w = Inr (ok, w') \<Longrightarrow> ok \<longleftrightarrow> s \<noteq> 0 \<and> unat s < length (conns w a)"
  by (auto simp: Broker_refresh_def cashmere_errors split: if_splits)

text \<open>Nobody looks at the answer to an announcement.\<close>

lemma peer_refresh_world:
  assumes "net a b \<noteq> Failing" and "call = BrokerBase_refresh n"
  shows "andThen (peer_refresh net call a b d s w) (\<lambda>(_, w). f w) =
    andThen (BrokerBase_refresh n b d s w) (\<lambda>(_, w). f w)"
proof -
  have "Connection_none\<lparr>conn_source := conn_source d, conn_version := conn_version d,
      conn_sources := conn_sources d\<rparr> = d\<lparr>conn_broker := None\<rparr>"
    by (simp add: Connection_none_def)
  then show ?thesis using assms
    by (cases "BrokerBase_refresh n b d s w")
      (auto simp: peer_refresh_def Stub_refresh_def carried_def GrpcRunner_Refresh_def refresh_ignores_broker
        split: prod.split)
qed

lemma refreshConnections_same:
  assumes "delivering net"
  shows "Broker_refreshConnections (peer_refresh net (BrokerBase_refresh n) a) a p w =
    Broker_refreshConnections (BrokerBase_refresh n) a p w"
proof -
  have "andThen (Connection_refresh (peer_refresh net (BrokerBase_refresh n) a) c d w) (\<lambda>(_, w). Inr w) =
      andThen (Connection_refresh (BrokerBase_refresh n) c d w) (\<lambda>(_, w). Inr w)" for c d w
    using assms
    by (auto simp: Connection_refresh_def delivering_def split: option.split
        intro: peer_refresh_world [OF _ refl])
  then show ?thesis by (simp add: Broker_refreshConnections_def cong: if_cong)
qed

lemma Net_refresh_same: "delivering net \<Longrightarrow> Net_refresh net n = BrokerBase_refresh n"
proof (induction n)
  case (Suc n)
  then show ?case by (intro ext) (simp add: Broker_refresh_def refreshConnections_same)
qed (intro ext, simp)

section \<open>Entries\<close>

text \<open>What a broker knows of itself: nothing that a connection notes about its peer.\<close>

definition alike :: "world \<Rightarrow> world \<Rightarrow> bool" where
  "alike v w \<longleftrightarrow> wiring v = wiring w \<and> w_files v = w_files w \<and>
     (\<forall>a. Broker_clock v a = Broker_clock w a \<and> b_entries (broker_at v a) = b_entries (broker_at w a))"

text \<open>Two runs with one result and worlds alike.\<close>

definition same_run :: "('a \<times> world) outcome \<Rightarrow> ('a \<times> world) outcome \<Rightarrow> bool" where
  "same_run x y \<longleftrightarrow>
     (case (x, y) of
        (Inl e, Inl f) \<Rightarrow> e = f
      | (Inr (r, v), Inr (s, w)) \<Rightarrow> r = s \<and> alike v w
      | _ \<Rightarrow> False)"

lemma same_run_simps [simp]:
  "same_run (Inl e) (Inl f) \<longleftrightarrow> e = f"
  "same_run (Inr (r, v)) (Inr (s, w)) \<longleftrightarrow> r = s \<and> alike v w"
  "\<not> same_run (Inl e) (Inr p)" "\<not> same_run (Inr p) (Inl e)"
  by (auto simp: same_run_def split: prod.split)

lemma alike_refl [simp]: "alike w w"
  by (simp add: alike_def)

lemma same_run_andThen:
  assumes "same_run x y" and "\<And>r v w. x = Inr (r, v) \<Longrightarrow> y = Inr (r, w) \<Longrightarrow> alike v w \<Longrightarrow> same_run (f (r, v)) (g (r, w))"
  shows "same_run (andThen x f) (andThen y g)"
  using assms by (cases x; cases y) auto

text \<open>Two loops whose bodies keep a relation between their states.\<close>

definition both :: "('s \<Rightarrow> 't \<Rightarrow> bool) \<Rightarrow> 's outcome \<Rightarrow> 't outcome \<Rightarrow> bool" where
  "both Q x y \<longleftrightarrow>
     (case (x, y) of (Inl e, Inl f) \<Rightarrow> e = f | (Inr v, Inr w) \<Rightarrow> Q v w | _ \<Rightarrow> False)"

lemma both_simps [simp]:
  "both Q (Inl e) (Inl f) \<longleftrightarrow> e = f" "both Q (Inr v) (Inr w) \<longleftrightarrow> Q v w"
  "\<not> both Q (Inl e) (Inr w)" "\<not> both Q (Inr v) (Inl e)"
  by (auto simp: both_def)

lemma forEach_both:
  assumes "Q v w" and "\<And>i x y. i \<in> set is \<Longrightarrow> Q x y \<Longrightarrow> both Q (f i x) (g i y)"
  shows "both Q (forEach is f v) (forEach is g w)"
  using assms
proof (induction "is" arbitrary: v w)
  case (Cons i "is")
  have head: "both Q (f i v) (g i w)" using Cons.prems by simp
  show ?case
  proof (cases "f i v")
    case (Inl e)
    with head have "g i w = Inl e" by (cases "g i w") auto
    with Inl show ?thesis by simp
  next
    case (Inr x)
    with head obtain y where y: "g i w = Inr y" "Q x y" by (cases "g i w") auto
    have "both Q (forEach is f x) (forEach is g y)"
      using Cons.prems(2) by (intro Cons.IH [OF y(2)]) (simp add: list.set_intros(2))
    with Inr y(1) show ?thesis by simp
  qed
qed simp

text \<open>Alike worlds answer alike.\<close>

lemma alike_live: "alike v w \<Longrightarrow> live v a = live w a"
  unfolding alike_def by (metis wiring_live)

lemma alike_length: "alike v w \<Longrightarrow> length (conns v a) = length (conns w a)"
  unfolding alike_def by (metis wiring_length)

lemma alike_kind: "alike v w \<Longrightarrow> b_kind (broker_at v a) = b_kind (broker_at w a)"
  unfolding alike_def by (metis wiring_kind)

lemma alike_clock: "alike v w \<Longrightarrow> Broker_clock v a = Broker_clock w a"
  unfolding alike_def by blast

lemma w_files_set_conn [simp]: "w_files (set_conn a i f w) = w_files w"
  by (simp add: set_conn_def set_broker_def split: option.split)

lemma alike_set_conn:
  assumes "\<And>c. ends (f c) = ends c" and "i \<noteq> 0 \<or> (\<forall>c. conn_version (f c) = conn_version c)"
  shows "alike (set_conn a i f w) w"
proof -
  have "Broker_clock (set_conn a i f w) b = Broker_clock w b" for b
    using assms(2) by (auto simp: clock_set_conn Broker_clock_conv)
  then show ?thesis using assms(1) by (simp add: alike_def)
qed

lemma alike_sym: "alike v w \<Longrightarrow> alike w v"
  unfolding alike_def by metis

lemma alike_trans: "alike u v \<Longrightarrow> alike v w \<Longrightarrow> alike u w"
  unfolding alike_def by metis

lemma alike_acknowledged:
  assumes "alike v w" and "conns v a \<noteq> []"
  shows "alike (acknowledged a e s v) (acknowledged a e s w)"
proof -
  have "conns w a \<noteq> []" using alike_length [OF assms(1), of a] assms(2) by auto
  then have "Broker_clock (acknowledged a e s v) b = Broker_clock (acknowledged a e s w) b" for b
    using clock_acknowledged assms alike_clock [OF assms(1)] by simp
  moreover have "w_files (acknowledged a e s u) = w_files u" for u
    by (simp add: acknowledged_def Let_def Broker_setClock_def)
  ultimately show ?thesis using assms(1) by (simp add: alike_def)
qed

lemma alike_save:
  assumes "alike v w" and "BrokerBase_save a e v = (ok, v')" and "BrokerBase_save a e w = (ok', w')"
  shows "ok = ok' \<and> alike v' w'"
proof -
  have wires: "wiring v = wiring w" and files: "w_files v = w_files w"
    and state: "\<And>b. b_entries (broker_at v b) = b_entries (broker_at w b)"
      "\<And>b. Broker_clock v b = Broker_clock w b"
    using assms(1) by (simp_all add: alike_def)
  have "b_url (broker_at v a) = b_url (broker_at w a)"
    using wiring_frame [OF wires, of a] by (simp add: frame_def)
  then have name: "file_of v a i = file_of w a i" for i by (simp add: file_of_def)
  have wires': "wiring v' = wiring w'" using wiring_save assms(2,3) wires by metis
  show ?thesis
  proof (cases "b_kind (broker_at w a)")
    case Hub
    then show ?thesis using assms alike_kind [OF assms(1), of a] by (simp add: BrokerBase_save_def)
  next
    case Cache
    then have "b_kind (broker_at v a) = Cache" using alike_kind [OF assms(1)] by simp
    then have live: "live v a" "live w a"
      using Cache by (auto simp: live_def broker_at_def no_broker_def split: option.splits)
    have found: "b_entries (broker_at v a) = b_entries (broker_at w a)" using state(1) .
    show ?thesis
    proof (cases "om_find (b_entries (broker_at w a)) (entry_clock e) = None")
      case True
      define put :: "broker \<Rightarrow> broker" where "put = (\<lambda>b. b\<lparr>b_entries := om_put (entry_clock e) (entry_data e) (b_entries b)\<rparr>)"
      have "ok" "v' = set_broker a put v" "ok'" "w' = set_broker a put w"
        using assms(2,3) Cache \<open>b_kind (broker_at v a) = Cache\<close> True found
        by (simp_all add: BrokerBase_save_def Journal_save_def put_def)
      moreover have "w_files (set_broker a put u) = w_files u" "Broker_clock (set_broker a put u) b = Broker_clock u b"
        for u b by (auto simp: set_broker_def put_def Broker_clock_def broker_at_def split: option.split)
      ultimately show ?thesis
        using wires' files state live by (auto simp: alike_def broker_at_set_broker put_def)
    next
      case False
      then show ?thesis
        using assms Cache \<open>b_kind (broker_at v a) = Cache\<close> found
        by (auto simp: BrokerBase_save_def Journal_save_def)
    qed
  next
    case File
    then have "b_kind (broker_at v a) = File" using alike_kind [OF assms(1)] by simp
    then have "ok = ok'" "\<exists>fs. v' = v\<lparr>w_files := fs\<rparr> \<and> w' = w\<lparr>w_files := fs\<rparr>"
      using assms(2,3) File name files by (auto simp: BrokerBase_save_def JournalFile_save_def Let_def)
    then show ?thesis using wires' state by (auto simp: alike_def Broker_clock_def)
  qed
qed

text \<open>What a stub makes of the answer.\<close>

definition told :: "link \<Rightarrow> clock \<Rightarrow> clock" where
  "told l c = (if l = Same_process \<or> Clock_valid c then c else om_empty)"

lemma Net_insert_result: "Net_insert net n a e s w = Inr (c, w') \<Longrightarrow> c = refused \<or> c = Broker_clock w' a"
  by (cases n) (auto simp: Broker_insert_def JournalBase_insert_def Let_def cashmere_errors
      split: if_splits prod.splits)

lemma peer_insert_told:
  assumes "net a b \<noteq> Failing"
  shows "peer_insert net (Net_insert net n) a b e s w =
    andThen (Net_insert net n b e s w) (\<lambda>(c, w). Inr (told (net a b) c, w))"
  using assms Net_insert_result [of net n b e s w]
  by (cases "Net_insert net n b e s w")
    (auto simp: peer_insert_def Stub_insert_def GrpcRunner_Insert_def carried_def told_def split: prod.splits)

text \<open>Over connections that deliver an insertion is the insertion of \<open>Hub\<close>.\<close>

lemma forwarded_same:
  assumes net: "delivering net"
    and IH: "\<And>b s. same_run (Net_insert net n b e s x) (BrokerBase_insert n b e s y)"
    and xy: "alike x y" and front: "fronted y" and i: "i < length (conns y a)"
  shows "both (\<lambda>u v. alike u v \<and> wiring v = wiring y)
    (forwarded (peer_insert net (Net_insert net n) a) a e s i x) (forwarded (BrokerBase_insert n) a e s i y)"
proof -
  have ix: "i < length (conns x a)" using i alike_length [OF xy] by simp
  have wires: "wiring x = wiring y" using xy by (simp add: alike_def)
  note ends = wiring_Connection_broker [OF wires ix]
  show ?thesis
  proof (cases "i = unat s \<or> Connection_broker y (conn y a i) = None")
    case True
    then show ?thesis using xy ends(1)
      by (auto simp: forwarded_def Connection_insert_def split: option.split)
  next
    case False
    then obtain b where b: "Connection_broker y (conn y a i) = Some b" by auto
    have "i \<noteq> 0"
      using front b i unfolding fronted_def by (metis Connection_broker_live length_0_conv not_less_zero option.distinct(1))
    let ?s = "conn_source (conn y a i)"
    show ?thesis
    proof (cases "BrokerBase_insert n b e ?s y")
      case (Inl f)
      then have "Net_insert net n b e ?s x = Inl f"
        using IH [of b ?s] by (cases "Net_insert net n b e ?s x") auto
      then show ?thesis using Inl False b ends net
        by (simp add: forwarded_def Connection_insert_def peer_insert_told delivering_def)
    next
      case (Inr p)
      then obtain c v where v: "BrokerBase_insert n b e ?s y = Inr (c, v)" by (cases p) simp
      then obtain u where u: "Net_insert net n b e ?s x = Inr (c, u)" "alike u v"
        using IH [of b ?s] by (cases "Net_insert net n b e ?s x") auto
      have keep: "alike (set_conn a i (\<lambda>k. k\<lparr>conn_sources := f k, conn_version := t\<rparr>) z) z" for f t z
        using \<open>i \<noteq> 0\<close> by (intro alike_set_conn) (simp_all add: ends_def)
      have "\<exists>u'. forwarded (peer_insert net (Net_insert net n) a) a e s i x = Inr u' \<and> alike u' u"
        using u(1) False b ends net keep [of _ _ u]
        by (cases "Clock_valid (told (net a b) c)")
          (simp_all add: forwarded_def Connection_insert_def peer_insert_told delivering_def)
      then obtain u' where u': "forwarded (peer_insert net (Net_insert net n) a) a e s i x = Inr u'" "alike u' u"
        by blast
      have "\<exists>v'. forwarded (BrokerBase_insert n) a e s i y = Inr v' \<and> alike v' v"
        using v False b keep [of _ _ v]
        by (cases "Clock_valid c") (simp_all add: forwarded_def Connection_insert_def)
      then obtain v' where v': "forwarded (BrokerBase_insert n) a e s i y = Inr v'" "alike v' v"
        by blast
      have "wiring v' = wiring y" using v'(2) wires.insert [OF v] by (simp add: alike_def)
      moreover have "alike u' v'" using u'(2) u(2) v'(2) alike_trans alike_sym by blast
      ultimately show ?thesis using u'(1) v'(1) by simp
    qed
  qed
qed

lemma fronted_alike: "alike v w \<Longrightarrow> fronted w \<Longrightarrow> fronted v"
  using fronted_wiring [of v w] by (simp add: alike_def)

lemma Broker_insert_same:
  assumes net: "delivering net"
    and IH: "\<And>b s x y. alike x y \<Longrightarrow> fronted y \<Longrightarrow>
      same_run (Net_insert net n b e s x) (BrokerBase_insert n b e s y)"
    and vw: "alike v w" and front: "fronted w"
  shows "same_run (Broker_insert (peer_insert net (Net_insert net n) a) a e s v)
    (Broker_insert (BrokerBase_insert n) a e s w)"
proof (cases "unat s < length (conns w a)")
  case True
  let ?Q = "\<lambda>x y. alike x y \<and> wiring y = wiring w"
  have len: "length (conns v a) = length (conns w a)" by (rule alike_length [OF vw])
  have "both ?Q
      (forEach [0..<length (conns w a)] (forwarded (peer_insert net (Net_insert net n) a) a e s) (acknowledged a e s v))
      (forEach [0..<length (conns w a)] (forwarded (BrokerBase_insert n) a e s) (acknowledged a e s w))"
  proof (rule forEach_both)
    have "conns v a \<noteq> []" using True len by auto
    then show "?Q (acknowledged a e s v) (acknowledged a e s w)" using alike_acknowledged [OF vw] by simp
  next
    fix i x y assume i: "i \<in> set [0..<length (conns w a)]" and Q: "?Q x y"
    then have "fronted y" using front fronted_wiring [of y w] by simp
    moreover have "i < length (conns y a)" using i Q wiring_length [of y w a] by simp
    ultimately have "both (\<lambda>u v. alike u v \<and> wiring v = wiring y)
        (forwarded (peer_insert net (Net_insert net n) a) a e s i x) (forwarded (BrokerBase_insert n) a e s i y)"
      using Q IH by (intro forwarded_same [OF net]) auto
    then show "both ?Q (forwarded (peer_insert net (Net_insert net n) a) a e s i x)
        (forwarded (BrokerBase_insert n) a e s i y)"
      using Q by (cases "forwarded (peer_insert net (Net_insert net n) a) a e s i x";
          cases "forwarded (BrokerBase_insert n) a e s i y") auto
  qed
  moreover have s: "unat s < length (conns v a)" using True len by simp
  ultimately show ?thesis
    unfolding Broker_insert_steps [OF True] Broker_insert_steps [OF s] len
    by (cases "forEach [0..<length (conns w a)] (forwarded (peer_insert net (Net_insert net n) a) a e s) (acknowledged a e s v)";
        cases "forEach [0..<length (conns w a)] (forwarded (BrokerBase_insert n) a e s) (acknowledged a e s w)")
      (auto dest: alike_clock)
next
  case False
  then show ?thesis using vw alike_length [OF vw, of a] by (simp add: Broker_insert_def)
qed

lemma Net_insert_same:
  assumes net: "delivering net"
  shows "alike v w \<Longrightarrow> fronted w \<Longrightarrow> same_run (Net_insert net n a e s v) (BrokerBase_insert n a e s w)"
proof (induction n arbitrary: a s v w)
  case (Suc n)
  have both: "same_run (Broker_insert (peer_insert net (Net_insert net n) a) a e s v)
      (Broker_insert (BrokerBase_insert n) a e s w)" if "alike v w" "fronted w" for v w
    by (rule Broker_insert_same [OF net _ that]) (rule Suc.IH)
  have kind: "b_kind (broker_at v a) = b_kind (broker_at w a)" by (rule alike_kind [OF Suc.prems(1)])
  obtain ok v' where v': "BrokerBase_save a e v = (ok, v')" by fastforce
  obtain ok' w' where w': "BrokerBase_save a e w = (ok', w')" by fastforce
  have "ok = ok'" "alike v' w'" using alike_save [OF Suc.prems(1) v' w'] by simp_all
  moreover have "fronted w'" using Suc.prems(2) fronted_wiring [OF wiring_save [OF w']] by simp
  ultimately have "same_run (JournalBase_insert (peer_insert net (Net_insert net n) a) a e s v)
      (JournalBase_insert (BrokerBase_insert n) a e s w)"
    using Suc.prems(1) v' w' both [of v' w'] alike_clock [OF Suc.prems(1), of a]
    by (simp add: JournalBase_insert_def)
  then show ?case using both [OF Suc.prems] kind by simp
qed simp

lemma peer_relay_same:
  assumes "net a b \<noteq> Failing"
  shows "peer_relay net call a b d s w = call b d s w"
  using assms by (cases "call b d s w")
    (auto simp: peer_relay_def Stub_relay_def GrpcRunner_Relay_def carried_def split: prod.split)

lemma Net_relay_same:
  assumes "delivering net" and "fronted w"
  shows "same_run (Net_relay net n a d s w) (BrokerBase_relay n a d s w)"
proof (induction n arbitrary: a d s)
  case (Suc n)
  have insert: "same_run (Net_insert net n b e t w) (BrokerBase_insert n b e t w)" for b e t
    using Net_insert_same [OF assms(1) alike_refl assms(2)] .
  have "same_run (Broker_relay (peer_relay net (Net_relay net n) a) (Net_insert net n) a d s w)
      (Broker_relay (BrokerBase_relay n) (BrokerBase_insert n) a d s w)" for d
    using Suc.IH insert assms(1)
    by (simp add: Broker_relay_def Connection_relay_def peer_relay_same delivering_def split: option.split)
  then show ?case by (simp add: JournalBase_relay_def)
qed simp

section \<open>A message is lost\<close>

text \<open>A cache whose only connection leads to a journal.\<close>

definition end_of :: "world \<Rightarrow> addr \<Rightarrow> addr \<Rightarrow> bool" where
  "end_of w a b \<longleftrightarrow> a \<noteq> b \<and> live w a \<and> b_kind (broker_at w a) = Cache \<and> b_kind (broker_at w b) \<noteq> Hub \<and>
     length (conns w a) = 2 \<and> conn_broker (conn w a 0) = None \<and> Connection_broker w (conn w a 1) = Some b"

lemma end_of_wiring:
  assumes wires: "wiring w' = wiring w" and "end_of w a b"
  shows "end_of w' a b"
  using assms(2) wiring_live [OF wires, of a] wiring_kind [OF wires] wiring_length [OF wires, of a]
    wiring_ends(1) [OF wires, of a 0] wiring_Connection_broker(1) [OF wires, of 1 a]
  by (auto simp: end_of_def)

text \<open>The peer learns of nothing: the call fails, or the peer refuses.\<close>

lemma peer_insert_nothing:
  assumes "net a b = Failing \<or> declines e w b"
  shows "\<exists>c. peer_insert net (Net_insert net (Suc n)) a b e s w = Inr (c, w)"
  using assms
  by (cases "net a b")
    (auto simp: peer_insert_def Stub_insert_def carried_def GrpcRunner_Insert_def declines_def
      JournalBase_insert_def)

lemma append_unheard:
  assumes a: "end_of w a b" and clock: "Broker_clock w a = c" "b_entries (broker_at w a) = es"
    and log: "covered c es" "room c (Suc m)" "Clock_valid c" and d: "data_id d \<noteq> 0"
    and lost: "net a b = Failing \<or> \<not> Clock_isNext (Clock_tick c (data_id d)) (Broker_clock w b) (data_id d)"
  obtains w' where "Net_append net (Suc (Suc n)) a d w = Inr (True, w')" and "wiring w' = wiring w"
    and "Broker_clock w' a = fst (log_append d (c, es))"
    and "b_entries (broker_at w' a) = snd (log_append d (c, es))"
    and "Broker_clock w' b = Broker_clock w b" and "b_entries (broker_at w' b) = b_entries (broker_at w b)"
proof -
  define e where "e = \<lparr>entry_clock = Clock_tick c (data_id d), entry_data = d\<rparr>"
  have ab: "a \<noteq> b" "live w a" "b_kind (broker_at w a) = Cache" "length (conns w a) = 2"
    using a by (simp_all add: end_of_def)
  have fresh: "fresh_entry c es e" unfolding e_def by (rule fresh_tick [OF log(2,1)])
  then have isNext: "Clock_isNext (entry_clock e) c (data_id (entry_data e))"
    and new: "om_find es (entry_clock e) = None" and merged: "Clock_merge c (entry_clock e) = entry_clock e"
    by (simp_all add: fresh_entry_def clock_le_merge_iff)
  define v where "v = set_broker a (\<lambda>b. b\<lparr>b_entries := with_entry e (b_entries b)\<rparr>) w"
  have save: "BrokerBase_save a e w = (True, v)"
    using ab new clock(2) by (simp add: BrokerBase_save_def Journal_save_def v_def)
  have conns: "conns v x = conns w x" for x using save by (rule conns_save)
  define u where "u = acknowledged a e 0 v"
  have u: "wiring u = wiring w" using wiring_save [OF save] by (simp add: u_def)
  have len: "unat (0 :: source) < length (conns v a)" using ab conns by simp
  have "conns v a \<noteq> []" using len by auto
  note ack = clock_acknowledged [OF this, of e 0, folded u_def] clock_save [OF save]
  have range: "[0..<length (conns v a)] = [0, 1]" using ab by (simp add: conns upt_rec)
  have b: "Connection_broker u (conn u a 1) = Some b" "1 < length (conns u a)"
    using end_of_wiring [OF u a] by (simp_all add: end_of_def)
  have "net a b = Failing \<or> declines e u b"
    using lost a ack ab(1) wiring_kind [OF u] by (auto simp: declines_def e_def end_of_def)
  then obtain k where "peer_insert net (Net_insert net (Suc n)) a b e (conn_source (conn u a 1)) u = Inr (k, u)"
    using peer_insert_nothing by blast
  then obtain w' where w': "forwarded (peer_insert net (Net_insert net (Suc n)) a) a e 0 1 u = Inr w'"
    and w'_u: "w' = u \<or> w' = set_conn a 1 (note_peer e k) u"
    using b by (cases "Clock_valid k") (auto simp: forwarded_def Connection_insert_def note_peer_def [abs_def])
  have alike: "alike w' u" using w'_u alike_set_conn [of "note_peer e k" 1 a u] by auto
  have "Broker_insert (peer_insert net (Net_insert net (Suc n)) a) a e 0 v = Inr (Broker_clock w' a, w')"
    unfolding Broker_insert_steps [OF len] using range w' by (simp add: u_def forwarded_def [of _ _ _ _ 0])
  then have run: "Net_insert net (Suc (Suc n)) a e 0 w = Inr (Broker_clock w' a, w')"
    using ab isNext clock(1) save by (simp add: JournalBase_insert_def)
  have clock': "Broker_clock w' a = entry_clock e"
    using alike_clock [OF alike] ack merged clock(1) by simp
  have "Clock_valid (entry_clock e)" using log(3) d by (simp add: e_def Clock_valid_def find_tick)
  then have "Net_append net (Suc (Suc n)) a d w = Inr (True, w')"
    using run clock' clock(1) by (simp add: Net_append_def e_def del: Net_insert.simps)
  moreover have "wiring w' = wiring w" using alike u by (simp add: alike_def)
  moreover have "b_entries (broker_at w' x) = b_entries (broker_at v x)" for x
    using alike by (simp add: alike_def u_def)
  moreover have "Broker_clock w' b = Broker_clock w b" using alike_clock [OF alike] ack ab(1) by simp
  ultimately show thesis
    using that clock' clock(2) ab(1,2) by (simp add: v_def broker_at_set_broker e_def log_append_def)
qed

text \<open>Appends at one journal, with the answers.\<close>

primrec Net_appends :: "net \<Rightarrow> nat \<Rightarrow> addr \<Rightarrow> data list \<Rightarrow> world \<Rightarrow> (bool list \<times> world) outcome" where
  "Net_appends net n a [] w = Inr ([], w)"
| "Net_appends net n a (d # ds) w =
     andThen (Net_append net n a d w) (\<lambda>(ok, w).
     andThen (Net_appends net n a ds w) (\<lambda>(oks, w). Inr (ok # oks, w)))"

text \<open>The peer's counter of the device is behind, so it waits for an entry that will not come.\<close>

definition waits :: "clock \<Rightarrow> clock \<Rightarrow> ident \<Rightarrow> bool" where
  "waits far here i \<longleftrightarrow>
     (case om_find here i of
        None \<Rightarrow> False
      | Some t \<Rightarrow> t \<noteq> 0 \<and> (case om_find far i of None \<Rightarrow> True | Some u \<Rightarrow> u < t))"

lemma waits_not_next: "waits far here i \<Longrightarrow> \<not> Clock_isNext (Clock_tick here i) far i"
  by (auto simp: waits_def Clock_isNext_def find_tick split: option.splits)

lemma waits_tick:
  assumes "room here (Suc m)" and "waits far here i \<or> far = here"
  shows "waits far (Clock_tick here i) i"
proof (cases "om_find here i")
  case None
  then show ?thesis using assms(2) by (auto simp: waits_def find_tick)
next
  case (Some t)
  then have "unat (t + 1) = Suc (unat t)"
    using assms(1) by (intro unat_plus_room [of t m]) (auto simp: room_find)
  then have "t < t + 1" "t + 1 \<noteq> 0" by (auto simp: word_less_nat_alt)
  then show ?thesis using assms(2) Some
    by (auto simp: waits_def find_tick split: option.splits)
qed

lemma log_append_valid:
  assumes "Clock_valid c" and "data_id d \<noteq> 0"
  shows "Clock_valid (fst (log_append d (c, es)))"
  using assms by (simp add: log_append_def Clock_valid_def find_tick)

lemma appends_unheard:
  assumes "end_of w a b" and "Broker_clock w a = c" and "b_entries (broker_at w a) = es"
    and "covered c es" and "room c (length ds)" and "Clock_valid c" and "i \<noteq> 0"
    and "list_all (\<lambda>d. data_id d = i) ds" and "waits (Broker_clock w b) c i"
  shows "\<exists>w'. Net_appends net (Suc (Suc n)) a ds w = Inr (replicate (length ds) True, w') \<and>
    (Broker_clock w' a, b_entries (broker_at w' a)) = fold log_append ds (c, es) \<and>
    Broker_clock w' b = Broker_clock w b \<and> b_entries (broker_at w' b) = b_entries (broker_at w b)"
  using assms
proof (induction ds arbitrary: w c es)
  case (Cons d ds)
  have d: "data_id d = i" "list_all (\<lambda>d. data_id d = i) ds" using Cons.prems(8) by simp_all
  have room: "room c (Suc (length ds))" using Cons.prems(5) by simp
  obtain v where v: "Net_append net (Suc (Suc n)) a d w = Inr (True, v)" "wiring v = wiring w"
    "Broker_clock v a = fst (log_append d (c, es))" "b_entries (broker_at v a) = snd (log_append d (c, es))"
    "Broker_clock v b = Broker_clock w b" "b_entries (broker_at v b) = b_entries (broker_at w b)"
    using append_unheard [OF Cons.prems(1-4) room Cons.prems(6), of d net n] d Cons.prems(7)
      waits_not_next [OF Cons.prems(9)] by auto
  have "\<exists>w'. Net_appends net (Suc (Suc n)) a ds v = Inr (replicate (length ds) True, w') \<and>
    (Broker_clock w' a, b_entries (broker_at w' a)) =
      fold log_append ds (fst (log_append d (c, es)), snd (log_append d (c, es))) \<and>
    Broker_clock w' b = Broker_clock v b \<and> b_entries (broker_at w' b) = b_entries (broker_at v b)"
  proof (rule Cons.IH [OF end_of_wiring [OF v(2) Cons.prems(1)] v(3,4)])
    show "covered (fst (log_append d (c, es))) (snd (log_append d (c, es)))"
      by (rule covered_append [OF room Cons.prems(4)])
    show "room (fst (log_append d (c, es))) (length ds)" using room_tick(1) [OF room] by (simp add: log_append_def)
    show "Clock_valid (fst (log_append d (c, es)))"
      using log_append_valid Cons.prems(6,7) d(1) by simp
    show "waits (Broker_clock v b) (fst (log_append d (c, es))) i"
      using waits_tick [OF room, of "Broker_clock w b" i] Cons.prems(9) d(1) v(5) by (simp add: log_append_def)
  qed (use Cons.prems(7) d(2) in simp_all)
  then show ?case using v by fastforce
qed simp

section \<open>Theorems\<close>

text \<open>C10: Processes make no difference: when every call is delivered, the operations of a network whose
  brokers run in several processes answer as those of one process. \<open>query\<close> and \<open>refresh\<close> are
  the same; \<open>insert\<close> and \<open>relay\<close> give the same result and leave every broker with the same clock
  and entries, the files and the wiring the same, and may differ in what the connections note.\<close>

theorem processes_transparent:
  assumes "delivering net" and "fronted w"
  shows "same_run (Net_insert net n a e s w) (BrokerBase_insert n a e s w) \<and>
    same_run (Net_relay net n a d s w) (BrokerBase_relay n a d s w) \<and>
    Net_query net n w a c s = BrokerBase_query n w a c s \<and>
    Net_refresh net n a k s w = BrokerBase_refresh n a k s w"
  using assms Net_insert_same [OF assms(1) alike_refl] Net_relay_same Net_query_same Net_refresh_same by simp

theorem processes_transparent_witness:
  "same_run (Net_insert (\<lambda>_ _. Delivering) 3 0 later_entry 0 trio) (BrokerBase_insert 3 0 later_entry 0 trio)"
proof -
  have "fronted trio" using trio_wired wired_conn(1) [of trio _ 0] not_live_conns [of trio]
    unfolding fronted_def by (metis length_greater_0_conv not_None_eq)
  then show ?thesis
    using processes_transparent [of "\<lambda>_ _. Delivering" trio 3 0 later_entry 0] by (simp add: delivering_def)
qed


lemma case_outcome_mono:
  "case x of Inl f \<Rightarrow> False | Inr (r, w) \<Rightarrow> P r w \<Longrightarrow> (\<And>r w. P r w \<Longrightarrow> Q r w) \<Longrightarrow>
    case x of Inl f \<Rightarrow> False | Inr (r, w) \<Rightarrow> Q r w"
  by (auto split: sum.splits)

text \<open>Two caches in two processes.\<close>

definition duo :: world where
  "duo = world_of [member Cache 1 om_empty [(1, 1)] om_empty, member Cache 2 om_empty [(0, 1)] om_empty]"


end
