(* ===== verification/Threads.thy ===== *)
theory Threads
  imports Network File_Journal
begin

text \<open>
  Threads. The service (\<open>RunService\<close> in \<open>src/cli/main.cpp\<close>) runs its prompt in one thread and
  answers requests in others, detached from it, and nothing in \<open>brokerbase.cpp\<close>, \<open>journalbase.cpp\<close>,
  \<open>hub.cpp\<close> and the journals takes a lock. Here an \<open>append\<close> is cut into the accesses that it
  makes to the state it shares, each taken to be atomic, and any number of appends run
  interleaved. The broker is a journal; the forwarding to its neighbours is one step.
\<close>

section \<open>An append in steps\<close>

text \<open>Where a thread is: it has been asked to append a payload, has made an entry from the clock, has
  found it to be the next one, has saved it, has merged the clocks, has set the clock, has
  returned.\<close>

datatype phase =
    Asked data
  | Made entry
  | Expected entry
  | Saved entry
  | Merging entry clock
  | Advanced entry
  | Returned entry clock

definition JournalBase_insert_step :: "addr \<Rightarrow> phase \<Rightarrow> world \<Rightarrow> phase \<times> world" where
  "JournalBase_insert_step a p w =
     (case p of
        Made e \<Rightarrow>
          (if Clock_isNext (entry_clock e) (Broker_clock w a) (data_id (entry_data e)) then Expected e
           else Returned e refused, w)
      | Expected e \<Rightarrow>
          (case BrokerBase_save a e w of (saved, w) \<Rightarrow> (if saved then Saved e else Returned e refused, w))
      | _ \<Rightarrow> (p, w))"

definition Broker_insert_step :: "nat \<Rightarrow> addr \<Rightarrow> phase \<Rightarrow> world \<Rightarrow> (phase \<times> world) outcome" where
  "Broker_insert_step n a p w =
     (case p of
        Saved e \<Rightarrow>
          Inr (if conns w a = [] then Returned e refused
               else Merging e (Clock_merge (Broker_clock w a) (entry_clock e)), w)
      | Merging e c \<Rightarrow> Inr (Advanced e, Broker_setClock a c w)
      | Advanced e \<Rightarrow>
          andThen (forEach [0..<length (conns w a)] (forwarded (BrokerBase_insert n) a e 0)
              (set_conn a 0 (note_version (data_id (entry_data e)) (Broker_clock w a)) w)) (\<lambda>w.
          Inr (Returned e (Broker_clock w a), w))
      | _ \<Rightarrow> Inr (p, w))"

definition thread_step :: "nat \<Rightarrow> addr \<Rightarrow> phase \<Rightarrow> world \<Rightarrow> (phase \<times> world) outcome" where
  "thread_step n a p w =
     (case p of
        Asked d \<Rightarrow>
          Inr (Made \<lparr>entry_clock = Clock_tick (Broker_clock w a) (data_id d), entry_data = d\<rparr>, w)
      | Made e \<Rightarrow> Inr (JournalBase_insert_step a p w)
      | Expected e \<Rightarrow> Inr (JournalBase_insert_step a p w)
      | Returned e c \<Rightarrow> Inr (p, w)
      | _ \<Rightarrow> Broker_insert_step n a p w)"

lemmas thread_steps = thread_step_def JournalBase_insert_step_def Broker_insert_step_def

text \<open>A thread on its own, and threads in the order of a schedule.\<close>

primrec thread_run :: "nat \<Rightarrow> nat \<Rightarrow> addr \<Rightarrow> phase \<Rightarrow> world \<Rightarrow> (phase \<times> world) outcome" where
  "thread_run 0 n a p w = Inr (p, w)"
| "thread_run (Suc k) n a p w = andThen (thread_step n a p w) (\<lambda>(p, w). thread_run k n a p w)"

primrec scheduled ::
    "nat \<Rightarrow> addr \<Rightarrow> nat list \<Rightarrow> phase list \<times> world \<Rightarrow> (phase list \<times> world) outcome" where
  "scheduled n a [] s = Inr s"
| "scheduled n a (i # is) s =
     andThen (thread_step n a (fst s ! i) (snd s)) (\<lambda>(p, w). scheduled n a is ((fst s)[i := p], w))"

text \<open>The states that some interleaving leads to.\<close>

inductive interleaves :: "nat \<Rightarrow> addr \<Rightarrow> phase list \<times> world \<Rightarrow> phase list \<times> world \<Rightarrow> bool" for n a s where
  begins: "interleaves n a s s"
| goes_on: "interleaves n a s (ps, w) \<Longrightarrow> i < length ps \<Longrightarrow> thread_step n a (ps ! i) w = Inr (p, w') \<Longrightarrow>
    interleaves n a s (ps[i := p], w')"

lemma scheduled_interleaves:
  assumes "scheduled n a is s = Inr t" and "list_all (\<lambda>i. i < length (fst s)) is"
  shows "interleaves n a s t"
proof -
  have "interleaves n a r t" if "interleaves n a r s" for r
    using assms that
  proof (induction "is" arbitrary: s)
    case (Cons i "is")
    obtain p w where step: "thread_step n a (fst s ! i) (snd s) = Inr (p, w)"
      and run: "scheduled n a is ((fst s)[i := p], w) = Inr t"
      using Cons.prems(1) by (auto simp: cashmere_errors)
    have "interleaves n a r ((fst s)[i := p], w)"
      using goes_on [of n a r "fst s" "snd s" i p w] Cons.prems step by simp
    then show ?case using Cons.IH [OF run] Cons.prems(2) by simp
  qed simp
  then show ?thesis using begins by blast
qed

section \<open>One thread\<close>

definition succeeded :: "phase \<Rightarrow> bool" where
  "succeeded p = (case p of Returned e c \<Rightarrow> Clock_valid c | _ \<Rightarrow> False)"

lemma thread_run_returned [simp]: "thread_run k n a (Returned e c) w = Inr (Returned e c, w)"
  by (induction k) (simp_all add: thread_steps)

lemma andThen_return [simp]: "andThen m Inr = m"
  by (cases m) simp_all

lemma thread_run_saved:
  "andThen (thread_run (Suc (Suc (Suc 0))) n a (Saved e) w) (\<lambda>(p, w). Inr (succeeded p, w)) =
   andThen (Broker_insert (BrokerBase_insert n) a e 0 w) (\<lambda>(c, w). Inr (Clock_valid c, w))"
proof (cases "conns w a = []")
  case True
  then show ?thesis by (simp add: thread_steps Broker_insert_def succeeded_def)
next
  case False
  define u where "u = Broker_setClock a (Clock_merge (Broker_clock w a) (entry_clock e)) w"
  have len: "length (conns u a) = length (conns w a)" unfolding u_def by (rule wiring_length) simp
  have ack: "acknowledged a e 0 w =
      set_conn a 0 (note_version (data_id (entry_data e)) (Broker_clock u a)) u"
    by (simp add: acknowledged_def u_def Let_def)
  have s: "unat (0 :: source) < length (conns w a)" using False by simp
  have "thread_run (Suc (Suc (Suc 0))) n a (Saved e) w =
      andThen (forEach [0..<length (conns w a)] (forwarded (BrokerBase_insert n) a e 0) (acknowledged a e 0 w))
        (\<lambda>w. Inr (Returned e (Broker_clock w a), w))"
    using False by (simp add: thread_steps ack u_def [symmetric] len)
  then show ?thesis
    by (simp add: Broker_insert_steps [OF s])
      (cases "forEach [0..<length (conns w a)] (forwarded (BrokerBase_insert n) a e 0) (acknowledged a e 0 w)";
        simp add: succeeded_def)
qed

section \<open>A cache under all interleavings\<close>

text \<open>The entry that a thread has put into the cache.\<close>

fun deposit :: "phase \<Rightarrow> entry option" where
  "deposit (Saved e) = Some e"
| "deposit (Merging e c) = Some e"
| "deposit (Advanced e) = Some e"
| "deposit (Returned e c) = (if Clock_valid c then Some e else None)"
| "deposit p = None"

definition deposited :: "addr \<Rightarrow> (clock, data) omap \<Rightarrow> phase list \<times> world \<Rightarrow> bool" where
  "deposited a es s \<longleftrightarrow> (case s of (ps, w) \<Rightarrow>
     b_kind (broker_at w a) = Cache \<and>
     (\<forall>k d. om_find es k = Some d \<longrightarrow> om_find (b_entries (broker_at w a)) k = Some d) \<and>
     (\<forall>i < length ps. \<forall>e. deposit (ps ! i) = Some e \<longrightarrow>
        om_find (b_entries (broker_at w a)) (entry_clock e) = Some (entry_data e) \<and>
        om_find es (entry_clock e) = None \<and>
        (\<forall>j < length ps. \<forall>e'. j \<noteq> i \<longrightarrow> deposit (ps ! j) = Some e' \<longrightarrow> entry_clock e' \<noteq> entry_clock e)))"

text \<open>What a step does to the cache and to the deposit of its thread.\<close>

lemma entries_effect_grows:
  assumes "entries_effect e w w'" and old: "om_find (b_entries (broker_at w b)) k = Some d"
  shows "om_find (b_entries (broker_at w' b)) k = Some d"
proof -
  have "b_entries (broker_at w' b) = b_entries (broker_at w b) \<or>
      om_find (b_entries (broker_at w b)) (entry_clock e) = None \<and>
      b_entries (broker_at w' b) = om_put (entry_clock e) (entry_data e) (b_entries (broker_at w b))"
    using assms(1) by (simp add: entries_effect_def Let_def)
  then show ?thesis using old by auto
qed

lemma forwarded_stored:
  assumes "forEach [0..<length (conns v a)] (forwarded (BrokerBase_insert n) a e s) v = Inr w'"
  shows "entries_effect e v w'"
  using assms
proof (rule forEach_invariant)
  fix i x y
  assume i: "i \<in> set [0..<length (conns v a)]" and x: "entries_effect e v x"
    and step: "forwarded (BrokerBase_insert n) a e s i x = Inr y"
  have "i < length (conns x a)" using i wiring_length [OF stored.wires [OF x], of a] by simp
  then have "entries_effect e x y"
    using step stored.connection_insert [where call = "BrokerBase_insert n" and a = a and i = i
        and e = e and w = x and w' = y] stored.insert stored.refl
    by (auto simp: forwarded_def cashmere_errors split: if_splits)
  then show "entries_effect e v y" by (rule stored.trans [OF x])
qed (rule stored.refl)

lemma thread_step_cache:
  assumes step: "thread_step n a p w = Inr (p', w')" and a: "b_kind (broker_at w a) = Cache"
  shows "b_kind (broker_at w' a) = Cache \<and>
    (\<forall>k d. om_find (b_entries (broker_at w a)) k = Some d \<longrightarrow> om_find (b_entries (broker_at w' a)) k = Some d) \<and>
    (deposit p' = deposit p \<or> deposit p' = None \<or>
      (\<exists>e. deposit p' = Some e \<and> om_find (b_entries (broker_at w a)) (entry_clock e) = None \<and>
         om_find (b_entries (broker_at w' a)) (entry_clock e) = Some (entry_data e)))"
proof (cases p)
  case (Expected e)
  obtain ok v where save: "BrokerBase_save a e w = (ok, v)" by fastforce
  show ?thesis
  proof (cases ok)
    case True
    then have "BrokerBase_save a e w = (True, v)" using save by simp
    then show ?thesis
    proof (cases rule: save_cases)
      case 1
      have "live w a" using a by (auto simp: live_def broker_at_def no_broker_def split: option.splits)
      then show ?thesis using step Expected save True 1 a
        by (auto simp: thread_steps broker_at_set_broker)
    qed (use a in simp)
  next
    case False
    then have "v = w" using save a by (auto simp: BrokerBase_save_def Journal_save_def split: if_splits)
    then show ?thesis using step Expected save False a by (auto simp: thread_steps)
  qed
next
  case (Merging e c)
  then have "w' = Broker_setClock a c w" "p' = Advanced e" using step by (simp_all add: thread_steps)
  then show ?thesis using Merging a wiring_kind [of w' w a] by simp
next
  case (Advanced e)
  define v where "v = set_conn a 0 (note_version (data_id (entry_data e)) (Broker_clock w a)) w"
  have v: "wiring v = wiring w" "\<And>b. b_entries (broker_at v b) = b_entries (broker_at w b)"
    by (simp_all add: v_def)
  have "forEach [0..<length (conns v a)] (forwarded (BrokerBase_insert n) a e 0) v = Inr w'"
    and p': "p' = Returned e (Broker_clock w' a)"
    using step Advanced wiring_length [OF v(1), of a]
    by (auto simp: thread_steps cashmere_errors v_def simp flip: v_def)
  then have eff: "entries_effect e v w'" by (simp add: forwarded_stored)
  then have "b_kind (broker_at w' a) = Cache"
    using wiring_kind [of w' w a] stored.wires [OF eff] v(1) a by simp
  then show ?thesis using entries_effect_grows [OF eff] v(2) p' Advanced by simp
qed (use step a in \<open>auto simp: thread_steps split: if_splits\<close>)

lemma deposited_step:
  assumes s: "deposited a es (ps, w)" and i: "i < length ps" and step: "thread_step n a (ps ! i) w = Inr (p, w')"
  shows "deposited a es (ps[i := p], w')"
proof -
  let ?old = "b_entries (broker_at w a)" and ?new = "b_entries (broker_at w' a)"
  have a: "b_kind (broker_at w a) = Cache" and es: "\<And>k d. om_find es k = Some d \<Longrightarrow> om_find ?old k = Some d"
    and held: "\<And>j e. j < length ps \<Longrightarrow> deposit (ps ! j) = Some e \<Longrightarrow> om_find ?old (entry_clock e) = Some (entry_data e) \<and>
        om_find es (entry_clock e) = None"
    and apart: "\<And>j k e e'. j < length ps \<Longrightarrow> k < length ps \<Longrightarrow> k \<noteq> j \<Longrightarrow> deposit (ps ! j) = Some e \<Longrightarrow>
        deposit (ps ! k) = Some e' \<Longrightarrow> entry_clock e' \<noteq> entry_clock e"
    using s unfolding deposited_def prod.case by blast+
  note cache = thread_step_cache [OF step a]
  have grows: "om_find ?old k = Some d \<Longrightarrow> om_find ?new k = Some d" for k d using cache by blast
  let ?qs = "ps[i := p]"
  have mine: "deposit p = Some e \<Longrightarrow> deposit (ps ! i) = Some e \<or>
      om_find ?old (entry_clock e) = None \<and> om_find ?new (entry_clock e) = Some (entry_data e)" for e
    using cache by auto
  have fresh: "om_find es k = None" if "om_find ?old k = None" for k using es [of k] that by (cases "om_find es k") auto
  have held': "om_find ?new (entry_clock e) = Some (entry_data e) \<and> om_find es (entry_clock e) = None"
    if j: "j < length ?qs" "deposit (?qs ! j) = Some e" for j e
  proof (cases "j = i")
    case True
    then have "deposit p = Some e" using j i by simp
    then show ?thesis using mine [of e] held [OF i] grows fresh by blast
  next
    case False
    then show ?thesis using j held [of j e] grows by simp
  qed
  have new: "entry_clock e \<noteq> entry_clock e'"
    if "deposit p = Some e" "k < length ps" "k \<noteq> i" "deposit (ps ! k) = Some e'" for k e e'
    using mine [OF that(1)] apart [OF that(2) i _ that(4)] that(3) held [OF that(2,4)] by fastforce
  have "entry_clock e' \<noteq> entry_clock e"
    if "j < length ?qs" "k < length ?qs" "k \<noteq> j" "deposit (?qs ! j) = Some e" "deposit (?qs ! k) = Some e'"
    for j k e e'
  proof -
    consider "j = i" "k \<noteq> i" | "j \<noteq> i" "k = i" | "j \<noteq> i" "k \<noteq> i" using \<open>k \<noteq> j\<close> by blast
    then show ?thesis
    proof cases
      case 1
      then show ?thesis using that i new [of e k e'] by simp
    next
      case 2
      then show ?thesis using that i new [of e' j e] by simp
    next
      case 3
      then show ?thesis using that apart [of j k e e'] by simp
    qed
  qed
  then show ?thesis using cache es grows held' unfolding deposited_def prod.case by blast
qed

lemma interleaves_deposited: "interleaves n a s t \<Longrightarrow> deposited a es s \<Longrightarrow> deposited a es t"
  by (induction rule: interleaves.induct) (auto intro: deposited_step)

section \<open>Two threads in step\<close>

definition in_step :: "nat list" where
  "in_step = [0, 1, 0, 1, 0, 1, 0, 1, 0, 1, 0, 1]"

lemma tick_counter:
  assumes "room c 1"
  shows "counter (Clock_tick c i) j = (if j = i then Suc (counter c i) else counter c j)"
proof (cases "om_find c i")
  case (Some t)
  then have "unat (t + 1) = Suc (unat t)"
    using assms by (intro unat_plus_room [of t 0]) (auto simp: room_find)
  with Some show ?thesis by (simp add: counter_def find_tick)
qed (simp add: counter_def find_tick)

text \<open>Both threads make their entry of one clock, save it, and set the same clock.\<close>

lemma in_step_run:
  assumes alone: "stands_alone w a" and log: "logged w a log" and ids: "data_id d1 = i" "data_id d2 = i"
    and room: "room (Broker_clock w a) 1" and k: "k = Clock_tick (Broker_clock w a) i"
    and e1: "e1 = \<lparr>entry_clock = k, entry_data = d1\<rparr>" and e2: "e2 = \<lparr>entry_clock = k, entry_data = d2\<rparr>"
  obtains w' where "scheduled n a in_step ([Asked d1, Asked d2], w) = Inr ([Returned e1 k, Returned e2 k], w')"
    and "Broker_clock w' a = k" and "b_kind (broker_at w' a) = File"
    and "logged w' a (log(i := log i @ [e1, e2]))"
proof -
  have kind: "b_kind (broker_at w a) = File" "length (conns w a) = 1" using alone by (simp_all add: stands_alone_def)
  have ids': "data_id (entry_data e1) = i" "data_id (entry_data e2) = i" using ids by (simp_all add: e1 e2)
  obtain v1 where v1: "JournalFile_save a e1 w = (True, v1)" "w_brokers v1 = w_brokers w"
    "logged v1 a (\<lambda>j. if j = data_id (entry_data e1) then log j @ [e1] else log j)"
    using file_save_logs [OF log] by blast
  obtain v2 where v2: "JournalFile_save a e2 v1 = (True, v2)" "w_brokers v2 = w_brokers v1"
    "logged v2 a (\<lambda>j. if j = data_id (entry_data e2) then (if j = data_id (entry_data e1) then log j @ [e1] else log j) @ [e2]
       else if j = data_id (entry_data e1) then log j @ [e1] else log j)"
    using file_save_logs [OF v1(3)] by blast
  have both: "(\<lambda>j. if j = i then (if j = i then log j @ [e1] else log j) @ [e2]
       else if j = i then log j @ [e1] else log j) = log(i := log i @ [e1, e2])" by auto
  have logged: "logged v2 a (log(i := log i @ [e1, e2]))"
    using v2(3) unfolding ids' both .
  have at_v: "broker_at v1 b = broker_at w b" "broker_at v2 b = broker_at w b" for b
    using v1(2) v2(2) by (simp_all add: broker_at_def)
  have clock_v: "Broker_clock v1 a = Broker_clock w a" "Broker_clock v2 a = Broker_clock w a" "conns v2 a \<noteq> []"
    using at_v kind by (auto simp: Broker_clock_def)
  have merged: "Clock_merge (Broker_clock w a) k = k"
    using room_tick(2) [of _ 0 i] room by (simp add: clock_le_merge_iff k)
  have isNext: "Clock_isNext k (Broker_clock w a) i" by (simp add: k isNext_tick)
  define n1 where "n1 = (\<lambda>u. set_conn a 0 (note_version i (Broker_clock u a)) u)"
  define u where "u = Broker_setClock a k (Broker_setClock a k v2)"
  define w' where "w' = n1 (n1 u)"
  have wires: "wiring w' = wiring v2" "wiring u = wiring v2" "wiring (n1 u) = wiring v2"
    by (simp_all add: w'_def n1_def u_def)
  have one: "[0..<length (conns x a)] = [0]" if "wiring x = wiring v2" for x
    using wiring_length [OF that, of a] at_v kind by simp
  have "conns u a \<noteq> []" "conns (n1 u) a \<noteq> []" "conns (Broker_setClock a k v2) a \<noteq> []"
    using one [OF wires(2)] one [OF wires(3)] one [of "Broker_setClock a k v2"] by auto
  moreover have "Broker_clock (n1 x) a = Broker_clock x a" for x
    by (auto simp: n1_def clock_set_conn simp flip: Broker_clock_conv)
  ultimately have clock_u: "Broker_clock u a = k" "Broker_clock (n1 u) a = k" "Broker_clock w' a = k"
    by (simp_all add: u_def clock_setClock w'_def)
  have made: "thread_step n a (Asked d1) w = Inr (Made e1, w)" "thread_step n a (Asked d2) w = Inr (Made e2, w)"
    using ids by (simp_all add: thread_steps e1 e2 k)
  have expected: "thread_step n a (Made e1) w = Inr (Expected e1, w)" "thread_step n a (Made e2) w = Inr (Expected e2, w)"
    using isNext ids by (simp_all add: thread_steps e1 e2)
  have saved: "thread_step n a (Expected e1) w = Inr (Saved e1, v1)" "thread_step n a (Expected e2) v1 = Inr (Saved e2, v2)"
    using v1(1) v2(1) kind at_v by (simp_all add: thread_steps BrokerBase_save_def)
  have merging: "thread_step n a (Saved e1) v2 = Inr (Merging e1 k, v2)" "thread_step n a (Saved e2) v2 = Inr (Merging e2 k, v2)"
    using clock_v merged by (simp_all add: thread_steps e1 e2)
  have advanced: "thread_step n a (Merging e1 k) v2 = Inr (Advanced e1, Broker_setClock a k v2)"
    "thread_step n a (Merging e2 k) (Broker_setClock a k v2) = Inr (Advanced e2, u)"
    by (simp_all add: thread_steps u_def)
  have returned: "thread_step n a (Advanced e1) u = Inr (Returned e1 k, n1 u)"
    "thread_step n a (Advanced e2) (n1 u) = Inr (Returned e2 k, w')"
    using one [OF wires(2)] one [OF wires(3)] clock_u ids
    by (simp_all add: thread_steps forwarded_def e1 e2) (simp_all add: n1_def w'_def)
  have run: "scheduled n a in_step ([Asked d1, Asked d2], w) = Inr ([Returned e1 k, Returned e2 k], w')"
    by (simp add: in_step_def made expected saved merging advanced returned)
  have files: "w_files w' = w_files v2" by (simp add: w'_def n1_def u_def Broker_setClock_def set_conn_def)
  have "b_url (broker_at w' a) = b_url (broker_at v2 a)"
    using wiring_frame [OF wires(1), of a] by (simp add: frame_def)
  then have "logged w' a (log(i := log i @ [e1, e2]))"
    using logged files by (simp add: logged_def file_of_def)
  moreover have "b_kind (broker_at w' a) = File" using wiring_kind [OF wires(1), of a] kind at_v by simp
  ultimately show thesis using that run clock_u(3) by blast
qed

text \<open>The journal reads as many lines as the clock counts.\<close>

lemma in_step_listed:
  assumes logged: "logged w' a (log(i := log i @ [e1, e2]))" and clock: "Broker_clock w' a = Clock_tick c i"
    and kind: "b_kind (broker_at w' a) = File" and len: "\<And>j. length (log j) = counter c j" and room: "room c 1"
  shows "BrokerBase_entries w' a =
    concat (map (\<lambda>(j, _). (log(i := log i @ [e1])) j) (entries (Clock_tick c i)))"
proof -
  let ?both = "log(i := log i @ [e1, e2])" and ?k = "Clock_tick c i"
  have "unat t = counter ?k j" if "(j, t) \<in> set (entries ?k)" for j t
    using that by (simp add: counter_def flip: om_find_iff)
  then have count: "unat t = (if j = i then Suc (length (log i)) else length (log j))"
    if "(j, t) \<in> set (entries ?k)" for j t
    using that tick_counter [OF room, of i j] len by simp
  have "list_all (\<lambda>(j, t). unat t \<le> length (?both j)) (entries ?k)"
    using count by (auto simp: list_all_iff)
  then have "JournalFile_entries w' a = concat (map (\<lambda>(j, t). take (unat t) (?both j)) (entries ?k))"
    using file_entries_logged [OF logged] clock by simp
  also have "map (\<lambda>(j, t). take (unat t) (?both j)) (entries ?k) = map (\<lambda>(j, _). (log(i := log i @ [e1])) j) (entries ?k)"
    using count by (auto split: if_splits)
  finally show ?thesis using kind by (simp add: BrokerBase_entries_def)
qed

section \<open>Theorems\<close>

text \<open>A thread that runs alone through its six steps is an \<open>append\<close>.\<close>

theorem thread_alone_is_append:
  assumes "b_kind (broker_at w a) \<noteq> Hub"
  shows "andThen (thread_run 6 n a (Asked d) w) (\<lambda>(p, w). Inr (succeeded p, w)) = BrokerBase_append (Suc n) a d w"
proof -
  define e where "e = \<lparr>entry_clock = Clock_tick (Broker_clock w a) (data_id d), entry_data = d\<rparr>"
  have six: "6 = Suc (Suc (Suc (Suc (Suc (Suc 0)))))" by simp
  have made: "thread_run 6 n a (Asked d) w = thread_run (Suc (Suc (Suc (Suc (Suc 0))))) n a (Made e) w"
    unfolding six by (subst thread_run.simps(2)) (simp add: thread_steps e_def del: thread_run.simps)
  have isNext: "Clock_isNext (entry_clock e) (Broker_clock w a) (data_id (entry_data e))"
    by (simp add: e_def isNext_tick)
  have "thread_run (Suc (Suc (Suc (Suc (Suc 0))))) n a (Made e) w =
      thread_run (Suc (Suc (Suc (Suc 0)))) n a (Expected e) w"
    using isNext by (subst thread_run.simps(2)) (simp add: thread_steps del: thread_run.simps)
  also have "\<dots> = (case BrokerBase_save a e w of (saved, w) \<Rightarrow>
      thread_run (Suc (Suc (Suc 0))) n a (if saved then Saved e else Returned e refused) w)"
    by (subst thread_run.simps(2)) (simp add: thread_steps split: prod.split del: thread_run.simps)
  finally have run: "thread_run 6 n a (Asked d) w = \<dots>" using made by simp
  have append: "BrokerBase_append (Suc n) a d w =
      andThen (JournalBase_insert (BrokerBase_insert n) a e 0 w) (\<lambda>(c, w). Inr (Clock_valid c, w))"
    using assms by (simp add: BrokerBase_append_def e_def)
  obtain saved v where save: "BrokerBase_save a e w = (saved, v)" by fastforce
  show ?thesis
  proof (cases saved)
    case True
    then have "andThen (thread_run 6 n a (Asked d) w) (\<lambda>(p, w). Inr (succeeded p, w)) =
        andThen (Broker_insert (BrokerBase_insert n) a e 0 v) (\<lambda>(c, w). Inr (Clock_valid c, w))"
      using save thread_run_saved [of n a e v] by (simp add: run del: thread_run.simps)
    then show ?thesis using True save isNext by (simp add: append JournalBase_insert_def)
  next
    case False
    then show ?thesis using save isNext
      by (simp add: run append JournalBase_insert_def del: thread_run.simps) (simp add: succeeded_def)
  qed
qed

theorem thread_alone_is_append_witness:
  "andThen (thread_run 6 0 0 (Asked (Data_of 9 1 om_empty)) lone) (\<lambda>(p, w). Inr (succeeded p, w)) =
    BrokerBase_append 1 0 (Data_of 9 1 om_empty) lone"
  using thread_alone_is_append [of lone 0 0 "Data_of 9 1 om_empty"] by (simp add: eval_simps sample_simps lone_def)



text \<open>The clock of a cache can lose an entry all the same: of two threads that append entries of two
  devices in step, the one that sets the clock last takes the other's counter out of it, and the
  next entry of that device gets the same counter again.\<close>

theorem threads_lose_counter:
  "case scheduled 0 0 in_step ([Asked (Data_of 9 1 om_empty), Asked (Data_of 8 2 om_empty)], lone) of
     Inl f \<Rightarrow> False
   | Inr (ps, w) \<Rightarrow> map succeeded ps = [True, True] \<and> Broker_clock w 0 = Clock_init [(8, 1)] \<and>
       om_find (b_entries (broker_at w 0)) (Clock_init [(9, 1)]) = Some (Data_of 9 1 om_empty) \<and>
       om_find (Clock_tick (Broker_clock w 0) 9) 9 = Some 1"
  by (simp add: in_step_def thread_steps eval_simps sample_simps lone_def BrokerBase_save_def Journal_save_def
      forwarded_def Broker_setClock_def Broker_clock_def succeeded_def)

text \<open>C37: A file journal does not survive: when two threads append entries of one device in step, both
  succeed, with one and the same clock. The file has both lines, the clock counts one of them, so
  the journal lists the first and not the second.\<close>

theorem file_journal_race:
  assumes "disciplined w a log" and "data_id d1 = i" and "data_id d2 = i" and "i \<noteq> 0"
    and "Clock_valid (Broker_clock w a)" and "room (Broker_clock w a) 1"
  shows "case scheduled n a in_step ([Asked d1, Asked d2], w) of
     Inl f \<Rightarrow> False
   | Inr (ps, w') \<Rightarrow>
       let k = Clock_tick (Broker_clock w a) i;
           e1 = \<lparr>entry_clock = k, entry_data = d1\<rparr>; e2 = \<lparr>entry_clock = k, entry_data = d2\<rparr>
       in ps = [Returned e1 k, Returned e2 k] \<and> Clock_valid k \<and> Broker_clock w' a = k \<and>
          logged w' a (log(i := log i @ [e1, e2])) \<and>
          BrokerBase_entries w' a = concat (map (\<lambda>(j, _). (log(i := log i @ [e1])) j) (entries k)) \<and>
          (d1 \<noteq> d2 \<longrightarrow> e2 \<notin> set (BrokerBase_entries w' a))"
proof -
  define c where "c = Broker_clock w a"
  define k where "k = Clock_tick c i"
  define e1 where "e1 = \<lparr>entry_clock = k, entry_data = d1\<rparr>"
  define e2 where "e2 = \<lparr>entry_clock = k, entry_data = d2\<rparr>"
  have alone: "stands_alone w a" "logged w a log" and len: "\<And>j. length (log j) = counter c j"
    and below: "\<And>j e. e \<in> set (log j) \<Longrightarrow> clock_le (entry_clock e) c"
    using assms(1) by (auto simp: disciplined_def c_def)
  obtain w' where run: "scheduled n a in_step ([Asked d1, Asked d2], w) = Inr ([Returned e1 k, Returned e2 k], w')"
    and w': "Broker_clock w' a = k" "b_kind (broker_at w' a) = File" "logged w' a (log(i := log i @ [e1, e2]))"
    using in_step_run [OF alone assms(2,3,6)] k_def e1_def e2_def c_def by metis
  have listed: "BrokerBase_entries w' a = concat (map (\<lambda>(j, _). (log(i := log i @ [e1])) j) (entries k))"
    using in_step_listed [OF w'(3) _ w'(2) len] w'(1) assms(6) by (simp add: k_def c_def)
  have "\<not> clock_le k c"
    using room_tick(2,3) [of c 0 i] assms(6) clock_le_antisym [of c k] by (auto simp: k_def c_def)
  then have "e2 \<notin> set (log j)" for j using below [of e2 j] by (auto simp: e2_def)
  then have "d1 \<noteq> d2 \<longrightarrow> e2 \<notin> set (BrokerBase_entries w' a)"
    by (auto simp: listed e1_def e2_def split: if_splits)
  moreover have "Clock_valid k" using assms(4,5) by (simp add: k_def c_def Clock_valid_def find_tick)
  ultimately show ?thesis
    using run listed w' by (simp add: Let_def e1_def e2_def k_def c_def)
qed

theorem file_journal_race_witness:
  "case scheduled 0 0 in_step ([Asked (Data_of 2 7 om_empty), Asked (Data_of 2 8 om_empty)],
       file_journal om_empty om_empty) of
     Inl f \<Rightarrow> False
   | Inr (ps, w) \<Rightarrow> map succeeded ps = [True, True] \<and> BrokerBase_entries w 0 = [first_of_two]"
proof -
  have start: "disciplined (file_journal om_empty om_empty) 0 (\<lambda>_. [])"
    by (rule disciplined_start) (simp_all add: stands_alone_def eval_simps file_journal_def live_def)
  have clock: "Broker_clock (file_journal om_empty om_empty) 0 = om_empty"
    by (simp add: eval_simps file_journal_def)
  have more: "Clock_valid om_empty" "room om_empty 1" "entries (Clock_tick om_empty 2) = [(2, 1)]"
    "Clock_tick om_empty 2 = Clock_init [(2, 1)]"
    by (simp_all add: eval_simps room_def)
  show ?thesis
    using file_journal_race [OF start, of "Data_of 2 7 om_empty" 2 "Data_of 2 8 om_empty" 0] clock more
    by (simp add: Let_def succeeded_def first_of_two_def split: sum.splits prod.splits)
qed

end
