(* ===== verification/Classes.thy ===== *)
theory Classes
  imports Grpc
begin

text \<open>
  The classes as their headers declare them: the virtual methods of \<open>BrokerBase\<close>
  (\<open>cashmere/include/cashmere/brokerbase.h\<close>) as a record, and each class as the record of its base
  class with the methods that it overrides replaced: \<open>Broker\<close> (\<open>hub.h\<close>), \<open>JournalBase\<close>
  (\<open>journalbase.h\<close>), \<open>Journal\<close> (\<open>plugins/include/cache.h\<close>), \<open>JournalFile\<close> (\<open>plugins/include/file.h\<close>)
  and \<open>BrokerGrpcStub\<close> (\<open>grpc/plugins/include/cashmere/plugins/grpc.h\<close>). The theories before this
  one dispatch on the class of the callee; the theorems show that they choose as the classes do.
\<close>

section \<open>The interface\<close>

record methods =
  m_schema :: string
  m_connect :: "connection \<Rightarrow> world \<Rightarrow> (connection \<times> world) outcome"
  m_refresh :: "connection \<Rightarrow> source \<Rightarrow> world \<Rightarrow> (bool \<times> world) outcome"
  m_insert :: "entry \<Rightarrow> source \<Rightarrow> world \<Rightarrow> (clock \<times> world) outcome"
  m_insert_all :: "entry list \<Rightarrow> source \<Rightarrow> world \<Rightarrow> (clock \<times> world) outcome"
  m_query :: "clock \<Rightarrow> source \<Rightarrow> world \<Rightarrow> (entry list \<times> world) outcome"
  m_clock :: "world \<Rightarrow> (clock \<times> world) outcome"
  m_versions :: "world \<Rightarrow> (ident, clock) omap"
  m_sources :: "source \<Rightarrow> world \<Rightarrow> (sources_map \<times> world) outcome"
  m_relay :: "data \<Rightarrow> source \<Rightarrow> world \<Rightarrow> (clock \<times> world) outcome"
  m_connectedPorts :: "world \<Rightarrow> source list"
  m_disconnect :: "source \<Rightarrow> world \<Rightarrow> (source \<times> world) outcome"
  m_entry :: "clock \<Rightarrow> world \<Rightarrow> data"
  m_entries :: "world \<Rightarrow> entry list"
  m_stub :: "world \<Rightarrow> connection \<times> world"
  m_connect_url :: "string \<Rightarrow> world \<Rightarrow> (connection \<times> world) outcome"
  m_save :: "entry \<Rightarrow> world \<Rightarrow> bool \<times> world"

section \<open>The classes\<close>

text \<open>Peers are called to the depth \<open>n\<close>. \<open>m\<close> stands for the methods that a class leaves to the classes
  derived from it.\<close>

definition BrokerBase_methods :: "nat \<Rightarrow> addr \<Rightarrow> methods \<Rightarrow> methods" where
  "BrokerBase_methods n a m = m
     \<lparr>m_insert_all := BrokerBase_insert_all n a,
      m_entry := \<lambda>_ _. no_data,
      m_entries := \<lambda>_. [],
      m_stub := BrokerBase_stub a,
      m_connect_url := BrokerBase_connect_url n a,
      m_save := \<lambda>_ w. (False, w)\<rparr>"

definition Broker_methods :: "nat \<Rightarrow> addr \<Rightarrow> methods \<Rightarrow> methods" where
  "Broker_methods n a m = (BrokerBase_methods n a m)
     \<lparr>m_schema := ''hub'',
      m_clock := \<lambda>w. Inr (Broker_clock w a, w),
      m_versions := \<lambda>w. Broker_versions w a,
      m_sources := \<lambda>s w. Inr (Broker_sources w a s, w),
      m_insert := Broker_insert (BrokerBase_insert n) a,
      m_query := \<lambda>c s w. andThen (Broker_query (BrokerBase_query n) w a c s) (\<lambda>es. Inr (es, w)),
      m_disconnect := Broker_disconnect n a,
      m_refresh := Broker_refresh (BrokerBase_refresh n) a,
      m_connectedPorts := \<lambda>w. Broker_connectedPorts w a,
      m_connect := Broker_connect (BrokerBase_connect n) n a,
      m_relay := Broker_relay (BrokerBase_relay n) (BrokerBase_insert n) a\<rparr>"

definition JournalBase_methods :: "nat \<Rightarrow> addr \<Rightarrow> methods \<Rightarrow> methods" where
  "JournalBase_methods n a m = (Broker_methods n a m)
     \<lparr>m_sources := \<lambda>s w. Inr (JournalBase_sources w a s, w),
      m_insert := JournalBase_insert (BrokerBase_insert n) a,
      m_query := \<lambda>c s w. Inr (JournalBase_query w a c, w),
      m_relay := JournalBase_relay (BrokerBase_relay n) (BrokerBase_insert n) a\<rparr>"

definition Journal_methods :: "nat \<Rightarrow> addr \<Rightarrow> methods \<Rightarrow> methods" where
  "Journal_methods n a m = (JournalBase_methods n a m)
     \<lparr>m_save := Journal_save a,
      m_entry := \<lambda>t w. Journal_entry w a t,
      m_entries := \<lambda>w. Journal_entries w a,
      m_schema := ''cache''\<rparr>"

definition JournalFile_methods :: "nat \<Rightarrow> addr \<Rightarrow> methods \<Rightarrow> methods" where
  "JournalFile_methods n a m = (JournalBase_methods n a m)
     \<lparr>m_save := JournalFile_save a,
      m_entry := \<lambda>t w. JournalFile_entry w a t,
      m_entries := \<lambda>w. JournalFile_entries w a,
      m_schema := ''file''\<rparr>"

definition class_of :: "kind \<Rightarrow> nat \<Rightarrow> addr \<Rightarrow> methods \<Rightarrow> methods" where
  "class_of k = (case k of Hub \<Rightarrow> Broker_methods | Cache \<Rightarrow> Journal_methods | File \<Rightarrow> JournalFile_methods)"

section \<open>The service and its client\<close>

text \<open>The calls of the service \<open>Broker\<close> of the protocol; \<open>GrpcRunner\<close> overrides all of them.\<close>

record service =
  on_Connect :: "(ConnectionRequest, ConnectionResponse) rpc"
  on_Query :: "(QueryRequest, Grpc_Entry list) rpc"
  on_Insert :: "(InsertRequest, clock) rpc"
  on_Refresh :: "(RefreshRequest, unit) rpc"
  on_Relay :: "(RelayInsertRequest, clock) rpc"
  on_GetClock :: "(unit, clock) rpc"
  on_Sources :: "(source, (source, Grpc_Infos) omap) rpc"

definition GrpcRunner_service :: "nat \<Rightarrow> addr \<Rightarrow> service" where
  "GrpcRunner_service n a =
     \<lparr>on_Connect = GrpcRunner_Connect n a,
      on_Query = GrpcRunner_Query (BrokerBase_query n) a,
      on_Insert = GrpcRunner_Insert (BrokerBase_insert n) a,
      on_Refresh = GrpcRunner_Refresh (BrokerBase_refresh n) a,
      on_Relay = GrpcRunner_Relay (BrokerBase_relay n) a,
      on_GetClock = GrpcRunner_GetClock a,
      on_Sources = GrpcRunner_Sources a\<rparr>"

text \<open>The stub at the address \<open>a\<close> of the calling process.\<close>

definition BrokerGrpcStub_methods :: "service \<Rightarrow> nat \<Rightarrow> addr \<Rightarrow> methods \<Rightarrow> methods" where
  "BrokerGrpcStub_methods stub n a m = (BrokerBase_methods n a m)
     \<lparr>m_clock := Stub_clock (on_GetClock stub),
      m_versions := \<lambda>_. Stub_versions,
      m_sources := Stub_sources (on_Sources stub),
      m_insert := Stub_insert (on_Insert stub),
      m_query := Stub_query (on_Query stub),
      m_connect := Stub_connect (on_Connect stub) a,
      m_refresh := Stub_refresh (on_Refresh stub),
      m_relay := Stub_relay (on_Relay stub),
      m_schema := ''grpc'',
      m_connectedPorts := \<lambda>_. Stub_connectedPorts,
      m_disconnect := \<lambda>port w. Inr (Stub_disconnect port, w)\<rparr>"

lemmas class_defs = BrokerBase_methods_def Broker_methods_def JournalBase_methods_def Journal_methods_def
  JournalFile_methods_def BrokerGrpcStub_methods_def class_of_def

section \<open>Theorems\<close>

text \<open>No class that is instantiated leaves a method to others, and no two have one schema.\<close>

theorem classes_are_concrete:
  "class_of k n a m = class_of k n a m' \<and> BrokerGrpcStub_methods stub n a m = BrokerGrpcStub_methods stub n a m' \<and>
   (m_schema (class_of k n a m) = m_schema (class_of k' n a m) \<longrightarrow> k = k')"
  by (cases k; cases k') (simp_all add: class_defs)



end
