(* ===== verification/Causality.thy ===== *)
theory Causality
  imports Merging
begin

text \<open>
  In which order a journal lists its entries, and what a newcomer gets of them. \<open>entries\<close>
  (\<open>plugins/src/cache.cpp\<close>) lists by the order of \<open>std::map\<close>, in which a clock comes before another when
  the first device that they differ in has the smaller counter or is missing in the other. The
  log of a network in agreement is a chain, each clock the next tick of the one before; the theorem
  says which of its entries a newcomer takes, and when it takes all of them.
\<close>

section \<open>Ticks in the order of the map\<close>

lemma put_later:
  fixes v :: "'v::linorder"
  shows "map_of xs i = Some t \<Longrightarrow> t < v \<Longrightarrow> sorted_keys xs \<Longrightarrow> xs < put_sorted i v xs"
  by (induction i v xs rule: put_sorted.induct) (fastforce dest: map_of_SomeD split: if_splits)+

lemma put_fresh:
  fixes v :: "'v::linorder"
  shows "map_of xs i = None \<Longrightarrow> sorted_keys xs \<Longrightarrow> xs < put_sorted i v xs \<longleftrightarrow> (\<forall>j \<in> fst ` set xs. j < i)"
  by (induction i v xs rule: put_sorted.induct) (auto split: if_splits)

lemma tick_listed_after:
  assumes "room c (Suc m)"
  shows "c < Clock_tick c i \<longleftrightarrow> om_find c i \<noteq> None \<or> (\<forall>j. om_find c j \<noteq> None \<longrightarrow> j < i)"
proof (cases "om_find c i")
  case None
  then have "c < Clock_tick c i \<longleftrightarrow> (\<forall>j \<in> fst ` set (entries c). j < i)"
    using put_fresh [of "entries c" i "1 :: time"]
    by (simp add: less_omap_def Clock_tick_def om_update_def entries_put om_find_def)
  then show ?thesis using None by (auto simp: om_find_None)
next
  case (Some t)
  then have "unat (t + 1) = Suc (unat t)" using assms by (intro unat_plus_room [of t m]) (auto simp: room_find)
  then have "t < t + 1" by (simp add: word_less_nat_alt)
  then have "c < Clock_tick c i"
    using put_later [of "entries c" i t "t + 1"] Some
    by (simp add: less_omap_def Clock_tick_def om_update_def entries_put om_find_def)
  then show ?thesis using Some by simp
qed

section \<open>The log as a chain\<close>

text \<open>Every clock is a tick of an earlier one, and whatever is not earlier includes it.\<close>

definition chained :: "clock \<Rightarrow> (clock, data) omap \<Rightarrow> bool" where
  "chained c es \<longleftrightarrow>
     (if es = om_empty then c = om_empty else om_find es c \<noteq> None) \<and> covered c es \<and>
     (\<forall>k d. om_find es k = Some d \<longrightarrow> (\<exists>p. k = Clock_tick p (data_id d) \<and> room p 1 \<and>
        (p = om_empty \<or> om_find es p \<noteq> None) \<and>
        (\<forall>k'. om_find es k' \<noteq> None \<longrightarrow> clock_le k' p \<or> clock_le k k')))"

lemma chained_step:
  assumes "chained c es" and "om_find es k = Some d"
  obtains p where "k = Clock_tick p (data_id d)" and "room p 1" and "p = om_empty \<or> om_find es p \<noteq> None"
    and "\<And>k'. om_find es k' \<noteq> None \<Longrightarrow> clock_le k' p \<or> clock_le k k'"
  using assms unfolding chained_def by blast

lemma chained_append:
  assumes "room c (Suc m)" and "chained c es"
  shows "chained (fst (log_append d (c, es))) (snd (log_append d (c, es)))"
proof -
  let ?k = "Clock_tick c (data_id d)"
  have covered: "covered c es" using assms(2) by (simp add: chained_def)
  have below: "om_find es k' \<noteq> None \<Longrightarrow> clock_le k' c" for k' using covered by (simp add: covered_find)
  have later: "clock_le c ?k" by (rule room_tick(2) [OF assms(1)])
  have room: "room c 1" using assms(1) room_bound [OF assms(1)] by (fastforce simp: room_find)
  have "\<exists>p. k = Clock_tick p (data_id d') \<and> room p 1 \<and> (p = om_empty \<or> om_find (om_put ?k d es) p \<noteq> None) \<and>
      (\<forall>k'. om_find (om_put ?k d es) k' \<noteq> None \<longrightarrow> clock_le k' p \<or> clock_le k k')"
    if k: "om_find (om_put ?k d es) k = Some d'" for k d'
  proof (cases "k = ?k")
    case True
    have "c = om_empty \<or> om_find es c \<noteq> None" using assms(2) by (auto simp: chained_def split: if_splits)
    then show ?thesis using True k room below by (auto intro!: exI [of _ c] split: if_splits)
  next
    case False
    then have old: "om_find es k = Some d'" using k by simp
    then have "clock_le k ?k" using below [of k] later clock_le_trans by auto
    moreover obtain p where "k = Clock_tick p (data_id d')" "room p 1" "p = om_empty \<or> om_find es p \<noteq> None"
      "\<And>k'. om_find es k' \<noteq> None \<Longrightarrow> clock_le k' p \<or> clock_le k k'"
      using chained_step [OF assms(2) old] by blast
    moreover have held: "om_find (om_put ?k d es) x \<noteq> None \<longleftrightarrow> x = ?k \<or> om_find es x \<noteq> None" for x by simp
    ultimately show ?thesis unfolding held by blast
  qed
  then show ?thesis
    using covered_append [OF assms(1) covered, of d] by (simp add: chained_def log_append_def)
qed

section \<open>What a newcomer takes of a chain\<close>

text \<open>An entry stays when no entry that includes it is listed before it.\<close>

definition kept_entry :: "(clock, data) omap \<Rightarrow> clock \<Rightarrow> bool" where
  "kept_entry es k \<longleftrightarrow> list_all (\<lambda>(k', _). Clock_smallerThan k k' \<longrightarrow> k < k') (entries es)"

definition kept :: "(clock, data) omap \<Rightarrow> (clock, data) omap" where
  "kept es = om_filter (\<lambda>(k, _). kept_entry es k) es"

lemma kept_entry_find:
  "kept_entry es k \<longleftrightarrow> (\<forall>k'. om_find es k' \<noteq> None \<longrightarrow> clock_le k k' \<longrightarrow> k \<noteq> k' \<longrightarrow> k < k')"
  by (fastforce simp: kept_entry_def list_all_iff om_find_iff smallerThan_iff simp del: not_None_eq)

lemma listed_kept: "listed (kept es) = filter (\<lambda>e. kept_entry es (entry_clock e)) (listed es)"
  by (simp add: listed_def kept_def entries_filter filter_map comp_def split_def)

lemma listed_sorted: "sorted_wrt (\<lambda>x y. entry_clock x < entry_clock y) (listed es)"
proof -
  have "sorted_wrt (<) (map entry_clock (listed es))"
    using sorted_entries [of es] by (simp add: clocks_listed strict_sorted_iff)
  then show ?thesis by (simp add: sorted_wrt_map)
qed

lemma taken_chain:
  assumes chain: "chained c es" and room: "room c 1"
    and "listed es = P @ L" and "\<And>e. e \<in> set P \<Longrightarrow> clock_le (entry_clock e) h"
    and "if P = [] then h = om_empty else h \<in> entry_clock ` set P"
  shows "taken h L = filter (\<lambda>e. kept_entry es (entry_clock e)) L \<and> merged h (taken h L) = c"
  using assms(3-)
proof (induction L arbitrary: P h)
  case Nil
  have "h = c"
  proof (cases "P = []")
    case True
    then show ?thesis using Nil chain by (auto simp: listed_def chained_def entries_eq_Nil)
  next
    case False
    then have "es \<noteq> om_empty" using Nil(1) by (auto simp: listed_def)
    then obtain d where "om_find es c = Some d" using chain by (auto simp: chained_def)
    then have "\<lparr>entry_clock = c, entry_data = d\<rparr> \<in> set P" using Nil(1) by (metis append_Nil2 entry.simps in_listed)
    then have "clock_le c h" using Nil(2) by fastforce
    moreover have "clock_le h c"
      using False Nil(1,3) chain in_listed [of _ es] by (fastforce simp: chained_def covered_find)
    ultimately show ?thesis by (rule clock_le_antisym [THEN sym])
  qed
  then show ?case by simp
next
  case (Cons e L)
  let ?k = "entry_clock e" and ?i = "data_id (entry_data e)"
  have split: "listed es = P @ e # L" by (rule Cons.prems(1))
  have stored: "om_find es (entry_clock x) = Some (entry_data x)" if "x \<in> set (P @ e # L)" for x
    using that split in_listed [of x es] by simp
  have before: "entry_clock x < ?k \<longleftrightarrow> x \<in> set P" if "x \<in> set (P @ e # L)" for x
    using that listed_sorted [of es] unfolding split sorted_wrt_append by (fastforce dest: less_asym)
  have head: "h = om_empty \<or> h \<in> entry_clock ` set P" using Cons.prems(3) by (auto split: if_splits)
  then have "clock_le h c"
    using stored chain by (fastforce simp: chained_def covered_find)
  have kept: "kept_entry es ?k \<longleftrightarrow> \<not> (\<exists>x \<in> set P. clock_le ?k (entry_clock x))"
  proof
    assume "kept_entry es ?k"
    then show "\<not> (\<exists>x \<in> set P. clock_le ?k (entry_clock x))"
    proof (intro notI, elim bexE)
      fix x assume x: "x \<in> set P" "clock_le ?k (entry_clock x)"
      then have "entry_clock x < ?k" using before by simp
      moreover have "om_find es (entry_clock x) \<noteq> None" using stored x(1) by simp
      ultimately show False using \<open>kept_entry es ?k\<close> x(2) unfolding kept_entry_find by (metis less_asym less_irrefl)
    qed
  next
    assume none: "\<not> (\<exists>x \<in> set P. clock_le ?k (entry_clock x))"
    show "kept_entry es ?k"
      unfolding kept_entry_find
    proof (intro allI impI)
      fix k' assume k': "om_find es k' \<noteq> None" "clock_le ?k k'" "?k \<noteq> k'"
      then obtain x where x: "x \<in> set (P @ e # L)" "entry_clock x = k'"
        using in_listed [of _ es] split by (metis entry.select_convs not_None_eq)
      then show "?k < k'" using before [OF x(1)] none k'(2,3) by (metis linorder_neqE)
    qed
  qed
  show ?case
  proof (cases "kept_entry es ?k")
    case False
    then have "clock_le ?k h" using kept Cons.prems(2) clock_le_trans by blast
    then have "\<not> Clock_isNext ?k h ?i"
      using room_le [OF room \<open>clock_le h c\<close>] by (rule covered_not_next)
    moreover have "taken h L = filter (\<lambda>e. kept_entry es (entry_clock e)) L \<and> merged h (taken h L) = c"
    proof (rule Cons.IH [of "P @ [e]"])
      show "if P @ [e] = [] then h = om_empty else h \<in> entry_clock ` set (P @ [e])"
        using Cons.prems(3) False kept by (auto split: if_splits)
    qed (use split Cons.prems(2) \<open>clock_le ?k h\<close> in auto)
    ultimately show ?thesis using False by auto
  next
    case True
    have "om_find es ?k = Some (entry_data e)" using stored [of e] by simp
    then obtain p where p: "?k = Clock_tick p ?i" "room p 1" "p = om_empty \<or> om_find es p \<noteq> None"
      and comparable: "\<And>k'. om_find es k' \<noteq> None \<Longrightarrow> clock_le k' p \<or> clock_le ?k k'"
      using chained_step [OF chain] by blast
    have "clock_le (entry_clock x) p" if "x \<in> set P" for x
      using comparable [of "entry_clock x"] stored [of x] that True kept by auto
    then have "clock_le h p" using head by auto
    have "clock_le p ?k" using room_tick(2) [of p 0 ?i] p(1,2) by simp
    then have "clock_le h ?k" using \<open>clock_le h p\<close> clock_le_trans by blast
    have "Clock_isNext ?k h ?i"
    proof (cases "om_find p ?i")
      case None
      then have "om_find h ?i = None"
        using \<open>clock_le h p\<close> by (metis clock_le_def less_eq_option_None_is_None)
      then show ?thesis using None by (simp add: p(1) Clock_isNext_def find_tick)
    next
      case (Some t)
      then have "p < ?k" using tick_listed_after [of p 0 ?i] p(1,2) by simp
      moreover have "p \<noteq> om_empty" using Some by auto
      then obtain x where "x \<in> set (P @ e # L)" "entry_clock x = p"
        using p(3) in_listed [of _ es] split by (metis entry.select_convs not_None_eq)
      ultimately have "clock_le p h" using before Cons.prems(2) by auto
      then have "h = p" using \<open>clock_le h p\<close> clock_le_antisym by blast
      then show ?thesis using isNext_tick [of p ?i] p(1) by simp
    qed
    moreover have "Clock_merge h ?k = ?k" using \<open>clock_le h ?k\<close> by (simp add: clock_le_merge_iff)
    moreover have "taken ?k L = filter (\<lambda>e. kept_entry es (entry_clock e)) L \<and> merged ?k (taken ?k L) = c"
    proof (rule Cons.IH [of "P @ [e]"])
      show "clock_le (entry_clock x) ?k" if "x \<in> set (P @ [e])" for x
        using that Cons.prems(2) \<open>clock_le h ?k\<close> clock_le_trans by auto
    qed (use split in auto)
    ultimately show ?thesis using True by auto
  qed
qed

lemma newcomer_takes_kept:
  assumes "chained c es" and "room c 1"
  shows "put_all (taken om_empty (listed es)) om_empty = kept es"
    and "merged om_empty (taken om_empty (listed es)) = c"
  using taken_chain [OF assms, of "[]" "listed es" om_empty] put_all_listed [of "kept es"]
  by (auto simp: listed_kept)

section \<open>When everything is kept\<close>

definition joined_in_order :: "data list \<Rightarrow> bool" where
  "joined_in_order ds \<longleftrightarrow> sorted (rev (remdups (rev (map data_id ds))))"

lemma joined_in_order_snoc:
  "joined_in_order (ds @ [d]) \<longleftrightarrow>
     joined_in_order ds \<and> (data_id d \<in> data_id ` set ds \<or> (\<forall>j \<in> data_id ` set ds. j < data_id d))"
  by (auto simp: joined_in_order_def sorted_append order_le_less image_iff) metis

lemma kept_all: "kept es = es \<longleftrightarrow> (\<forall>k. om_find es k \<noteq> None \<longrightarrow> kept_entry es k)"
proof -
  have "om_find (kept es) k = om_find es k \<longleftrightarrow> om_find es k \<noteq> None \<longrightarrow> kept_entry es k" for k
    by (cases "om_find es k") (simp_all add: kept_def om_find_filter)
  then show ?thesis by (simp add: om_eq_iff)
qed

lemma kept_append:
  assumes "room c (Suc m)" and "chained c es"
  shows "kept (om_put (Clock_tick c i) d es) = om_put (Clock_tick c i) d es \<longleftrightarrow>
    kept es = es \<and> c < Clock_tick c i"
proof -
  let ?k = "Clock_tick c i"
  have below: "om_find es k \<noteq> None \<Longrightarrow> clock_le k c" for k
    using assms(2) by (simp add: chained_def covered_find)
  have last: "es = om_empty \<and> c = om_empty \<or> om_find es c \<noteq> None"
    using assms(2) by (auto simp: chained_def split: if_splits)
  note later = room_tick(2,3) [OF assms(1), of i]
  have new: "om_find es ?k = None" using below later clock_le_antisym by blast
  have ordered: "c < ?k \<longleftrightarrow> (\<forall>k. om_find es k \<noteq> None \<longrightarrow> k < ?k)" if "kept es = es"
  proof
    assume c: "c < ?k"
    show "\<forall>k. om_find es k \<noteq> None \<longrightarrow> k < ?k"
    proof (intro allI impI)
      fix k assume k: "om_find es k \<noteq> None"
      then have "om_find es c \<noteq> None" using last by auto
      then have "k = c \<or> k < c" using that k below [OF k] unfolding kept_all kept_entry_find by blast
      then show "k < ?k" using c by auto
    qed
  next
    assume "\<forall>k. om_find es k \<noteq> None \<longrightarrow> k < ?k"
    then show "c < ?k" using last later(2) om_least [of ?k] by (auto simp: order_le_less)
  qed
  have "kept_entry (om_put ?k d es) ?k"
    using below later clock_le_antisym clock_le_trans by (fastforce simp: kept_entry_find split: if_splits)
  moreover have "kept_entry (om_put ?k d es) k \<longleftrightarrow> kept_entry es k \<and> k < ?k" if "om_find es k \<noteq> None" for k
  proof -
    have "clock_le k ?k" "k \<noteq> ?k" using that below [OF that] later clock_le_trans new by blast+
    then show ?thesis using new by (auto simp: kept_entry_find split: if_splits)
  qed
  moreover have held: "om_find (om_put ?k d es) x \<noteq> None \<longleftrightarrow> x = ?k \<or> om_find es x \<noteq> None" for x by simp
  ultimately have "kept (om_put ?k d es) = om_put ?k d es \<longleftrightarrow> kept es = es \<and> (\<forall>k. om_find es k \<noteq> None \<longrightarrow> k < ?k)"
    unfolding kept_all held by blast
  then show ?thesis using ordered by blast
qed

lemma log_kept:
  assumes "fold log_append ds (om_empty, om_empty) = (c, es)" and "length ds + m < 2 ^ 64"
  shows "chained c es \<and> room c m \<and> {i. om_find c i \<noteq> None} = data_id ` set ds \<and>
    (kept es = es \<longleftrightarrow> joined_in_order ds)"
  using assms
proof (induction ds arbitrary: c es m rule: rev_induct)
  case Nil
  then show ?case
    by (simp add: chained_def covered_def room_def kept_all joined_in_order_def)
next
  case (snoc d ds)
  obtain c0 es0 where log: "fold log_append ds (om_empty, om_empty) = (c0, es0)" by fastforce
  then have "log_append d (c0, es0) = (c, es)" using snoc.prems(1) by simp
  then have new: "c = Clock_tick c0 (data_id d)" "es = om_put c d es0" by (auto simp: log_append_def)
  have IH: "chained c0 es0" "room c0 (Suc m)" "{i. om_find c0 i \<noteq> None} = data_id ` set ds"
    "kept es0 = es0 \<longleftrightarrow> joined_in_order ds"
    using snoc.IH [OF log, of "Suc m"] snoc.prems(2) by simp_all
  have "chained c es" using chained_append [OF IH(2,1), of d] new by (simp add: log_append_def)
  moreover have "room c m" using room_tick(1) [OF IH(2)] new(1) by simp
  moreover have "{i. om_find c i \<noteq> None} = data_id ` set (ds @ [d])"
    using IH(3) new(1) by (auto simp: find_tick)
  moreover have "kept es = es \<longleftrightarrow> joined_in_order (ds @ [d])"
    using kept_append [OF IH(2,1), of "data_id d" d] tick_listed_after [OF IH(2), of "data_id d"] IH(3,4)
    unfolding joined_in_order_snoc new by blast
  ultimately show ?case by blast
qed

section \<open>Theorems\<close>


lemma behind_settled: "settled behind"
proof -
  have "wired behind" by (simp add: eval_simps sample_simps behind_def)
  then show ?thesis
    by (simp add: settled_def) (simp add: eval_simps sample_simps behind_def registered_def named_back_def)
qed


end
