(* ===== verification/Walks.thy ===== *)
theory Walks
  imports Routing
begin

text \<open>
  Walks that never turn back, as steps from port to port. In a settled network in which they are
  bounded they form a tree: no walk comes back to a broker that it has left, and two walks from
  one port to one broker are the same.
\<close>

section \<open>Steps\<close>

text \<open>A step leaves a broker that was entered at a port through another port, and enters the broker
  behind it.\<close>

definition hop :: "world \<Rightarrow> addr \<times> source \<Rightarrow> addr \<times> source \<Rightarrow> bool" where
  "hop w e f \<longleftrightarrow> (\<exists>k < length (conns w (fst e)). k \<noteq> unat (snd e) \<and>
     Connection_broker w (conn w (fst e) k) = Some (fst f) \<and> snd f = conn_source (conn w (fst e) k))"

abbreviation walks :: "world \<Rightarrow> addr \<times> source \<Rightarrow> addr \<times> source \<Rightarrow> bool" where
  "walks w \<equiv> (hop w)\<^sup>*\<^sup>*"

abbreviation walks_on :: "world \<Rightarrow> addr \<times> source \<Rightarrow> addr \<times> source \<Rightarrow> bool" where
  "walks_on w \<equiv> (hop w)\<^sup>+\<^sup>+"

text \<open>No connection leads back to the broker that has it.\<close>

definition loopless :: "world \<Rightarrow> bool" where
  "loopless w \<longleftrightarrow>
     list_all (\<lambda>(a, b). list_all (\<lambda>i. conn_broker (conn w a i) \<noteq> Some a) [0..<length (b_connections b)])
       (entries (w_brokers w))"

lemma loopless_live: "loopless w \<longleftrightarrow> (\<forall>a. live w a \<longrightarrow> (\<forall>i < length (conns w a). conn_broker (conn w a i) \<noteq> Some a))"
  using broker_at_entries [of _ _ w] by (fastforce simp: loopless_def list_all_iff live_entries)

lemma hop_live: "hop w e f \<Longrightarrow> live w (fst f)"
  by (auto simp: hop_def Connection_broker_live)

lemma walks_live: "walks w e f \<Longrightarrow> live w (fst e) \<Longrightarrow> live w (fst f)"
  by (induction rule: rtranclp_induct) (auto dest: hop_live)

lemma walks_on_live: "walks_on w e f \<Longrightarrow> live w (fst f)"
  by (induction rule: tranclp_induct) (auto dest: hop_live)

lemma bounded_hop: "bounded (Suc n) w (fst e) (snd e) \<Longrightarrow> hop w e f \<Longrightarrow> bounded n w (fst f) (snd f)"
  by (fastforce simp: hop_def list_all_iff)

lemma bounded_walks_on:
  "walks_on w e f \<Longrightarrow> bounded n w (fst e) (snd e) \<Longrightarrow> \<exists>m < n. bounded m w (fst f) (snd f)"
proof (induction rule: tranclp_induct)
  case (base f)
  then show ?case by (cases n) (auto dest: bounded_hop simp del: bounded.simps(2))
next
  case (step f g)
  then obtain m where m: "m < n" "bounded m w (fst f) (snd f)" by blast
  moreover from this obtain k where "m = Suc k" by (cases m) auto
  ultimately show ?case using bounded_hop [OF _ step(2)] by (intro exI [of _ k]) auto
qed

lemma bounded_walks: "walks w e f \<Longrightarrow> bounded n w (fst e) (snd e) \<Longrightarrow> \<exists>m \<le> n. bounded m w (fst f) (snd f)"
  using bounded_walks_on [of w e f n] by (auto dest!: rtranclpD less_imp_le)

lemma no_cycle: "bounded n w (fst e) (snd e) \<Longrightarrow> \<not> walks_on w e e"
proof (induction n rule: less_induct)
  case (less n)
  show ?case
  proof
    assume cycle: "walks_on w e e"
    then obtain m where "m < n" "bounded m w (fst e) (snd e)" using bounded_walks_on less.prems by blast
    then show False using less.IH cycle by blast
  qed
qed

text \<open>The port that a step enters leads back to where it came from.\<close>

lemma hop_back:
  assumes w: "settled w" "live w x" and hop: "hop w (x, r) (y, s)"
  obtains k where "k < length (conns w x)" and "k \<noteq> unat r" and "k \<noteq> 0" and "unat (of_nat k :: source) = k"
    and "Connection_broker w (conn w x k) = Some y" and "conn_source (conn w x k) = s"
    and "live w y" and "unat s < length (conns w y)" and "s \<noteq> 0"
    and "Connection_broker w (conn w y (unat s)) = Some x"
    and "conn_source (conn w y (unat s)) = of_nat k"
proof -
  obtain k where k: "k < length (conns w x)" "k \<noteq> unat r" "Connection_broker w (conn w x k) = Some y"
    "conn_source (conn w x k) = s"
    using hop by (auto simp: hop_def)
  have wired: "wired w" and y: "conn_broker (conn w x k) = Some y" "live w y"
    using w(1) k(3) by (simp_all add: settled_iff Connection_broker_live)
  note far = wired_conn [OF wired w(2) k(1) y(1), unfolded k(4)]
  have "s \<noteq> 0" using wired_conn(1) [OF wired far(2,3,4)] by auto
  moreover have "unat (of_nat k :: source) = k"
    using k(1) settled_live(2) [OF w] by (intro unat_port) linarith
  moreover have "conn_source (conn w y (unat s)) = of_nat k"
    using settled_live(3) [OF w k(1)] y(1) k(4) by (simp add: named_back_def)
  ultimately show thesis using that [of k] k far w(2) by (simp add: Connection_broker_live)
qed

section \<open>The walks form a tree\<close>

lemma no_return:
  assumes w: "settled w" "loopless w"
  shows "live w b \<Longrightarrow> bounded n w b j \<Longrightarrow> \<not> walks_on w (b, j) (b, s)"
proof (induction n arbitrary: b j s)
  case (Suc n)
  show ?case
  proof
    assume "walks_on w (b, j) (b, s)"
    then obtain c q where first: "hop w (b, j) (c, q)" and rest: "walks w (c, q) (b, s)"
      by (metis surj_pair tranclpD)
    obtain k where k: "k < length (conns w b)" "k \<noteq> unat j" "unat (of_nat k :: source) = k"
      "Connection_broker w (conn w b k) = Some c" "conn_source (conn w b k) = q" "live w c"
      by (rule hop_back [OF w(1) Suc.prems(1) first]) blast
    have enough: "bounded n w c q" using bounded_hop [OF _ first] Suc.prems(2) by simp
    from rest show False
    proof (cases rule: rtranclp.cases)
      case rtrancl_refl
      then have "conn_broker (conn w b k) = Some b" using k(4) by (simp add: Connection_broker_live)
      then show False using w(2) Suc.prems(1) k(1) by (auto simp: loopless_live)
    next
      case (rtrancl_into_rtrancl f)
      obtain x r where f: "f = (x, r)" by fastforce
      have to_x: "walks w (c, q) (x, r)" and last: "hop w (x, r) (b, s)" using rtrancl_into_rtrancl f by simp_all
      have "live w x" using walks_live [OF to_x] k(6) by simp
      obtain k' where k': "k' \<noteq> unat r" "unat (of_nat k' :: source) = k'"
        "Connection_broker w (conn w b (unat s)) = Some x" "conn_source (conn w b (unat s)) = of_nat k'"
        by (rule hop_back [OF w(1) \<open>live w x\<close> last]) blast
      show False
      proof (cases "unat s = k")
        case False
        then have "hop w (b, s) (c, q)" using k by (auto simp: hop_def)
        then have "walks_on w (c, q) (c, q)" using rest by (rule rtranclp_into_tranclp1 [rotated])
        then show False using no_cycle [of n w "(c, q)"] enough by simp
      next
        case True
        then have "x = c" "q = of_nat k'" using k k' by simp_all
        then have "(c, q) \<noteq> (x, r)" using k'(1,2) by auto
        then have "walks_on w (c, q) (c, r)" using to_x \<open>x = c\<close> by (auto dest: rtranclpD)
        then show False using Suc.IH [OF k(6) enough] by blast
      qed
    qed
  qed
qed simp

lemma unique_arrival:
  assumes w: "settled w" "loopless w" and b: "live w b" "bounded n w b j"
  shows "walks w (b, j) e \<Longrightarrow> walks w (b, j) (fst e, s) \<Longrightarrow> snd e = s"
proof (induction arbitrary: s rule: rtranclp_induct)
  case base
  then show ?case using no_return [OF w b, of s] by (auto dest: rtranclpD)
next
  case (step f e)
  obtain x r y t where f: "f = (x, r)" and e: "e = (y, t)" by fastforce
  have x: "walks w (b, j) (x, r)" and hop: "hop w (x, r) (y, t)" using step.hyps f e by simp_all
  have "live w x" using walks_live [OF x] b(1) by simp
  obtain k where k: "k \<noteq> unat r" "unat (of_nat k :: source) = k" "live w y" "unat t < length (conns w y)"
    "Connection_broker w (conn w y (unat t)) = Some x" "conn_source (conn w y (unat t)) = of_nat k"
    by (rule hop_back [OF w(1) \<open>live w x\<close> hop]) blast
  show ?case
  proof (rule ccontr)
    assume "snd e \<noteq> s"
    then have "unat t \<noteq> unat s" using e by (simp add: word_unat_eq_iff)
    then have "hop w (y, s) (x, of_nat k)" using k by (auto simp: hop_def)
    then have "walks w (b, j) (fst f, of_nat k)" using step.prems e f by (simp add: rtranclp.rtrancl_into_rtrancl)
    then have "snd f = of_nat k" by (rule step.IH)
    then show False using k(1,2) f by auto
  qed
qed

text \<open>Walks that leave a broker through different ports stay apart.\<close>

lemma walks_apart:
  assumes w: "settled w" "loopless w" and b: "live w b" "bounded n w b j"
    and c: "hop w (b, j) c" and c': "hop w (b, j) c'"
  shows "walks w c e \<Longrightarrow> walks w c' e \<Longrightarrow> c = c'"
proof (induction rule: rtranclp_induct)
  case base
  show ?case
  proof (rule ccontr)
    assume "c \<noteq> c'"
    then have "walks_on w c' c" using base by (auto dest: rtranclpD)
    then obtain f where f: "walks w c' f" "hop w f c" by (metis tranclp.cases tranclp_into_rtranclp rtranclp.rtrancl_refl)
    obtain v q x r where cq: "c = (v, q)" and xr: "f = (x, r)" by fastforce
    have "live w x" using walks_live [OF f(1) hop_live [OF c']] xr by simp
    have "Connection_broker w (conn w v (unat q)) = Some b" using hop_back [OF w(1) b(1) c [unfolded cq]] by metis
    moreover have "Connection_broker w (conn w v (unat q)) = Some x"
      using hop_back [OF w(1) \<open>live w x\<close> f(2) [unfolded cq xr]] by metis
    ultimately have "x = b" by simp
    then have "walks_on w (b, j) (b, r)" using c' f(1) xr by (auto intro: rtranclp_into_tranclp2)
    then show False using no_return [OF w b] by blast
  qed
next
  case (step f e)
  obtain x r y t where f: "f = (x, r)" and e: "e = (y, t)" by fastforce
  have x: "walks w (b, j) (x, r)" using converse_rtranclp_into_rtranclp [OF c step.hyps(1)] f by simp
  have live: "live w x" using walks_live [OF x] b(1) by simp
  have from_x: "Connection_broker w (conn w y (unat t)) = Some x"
    using hop_back [OF w(1) live] step.hyps(2) f e by metis
  from step.prems show ?case
  proof (cases rule: rtranclp.cases)
    case rtrancl_refl
    then have "Connection_broker w (conn w y (unat t)) = Some b" using hop_back [OF w(1) b(1)] c' e by metis
    then have "x = b" using from_x by simp
    then have "walks_on w (b, j) (b, r)" using c step.hyps(1) f by (auto intro: rtranclp_into_tranclp2)
    then show ?thesis using no_return [OF w b] by blast
  next
    case (rtrancl_into_rtrancl f')
    obtain x' r' where f': "f' = (x', r')" by fastforce
    have x': "walks w (b, j) (x', r')"
      using converse_rtranclp_into_rtranclp [OF c' rtrancl_into_rtrancl(1)] f' by simp
    have "live w x'" using walks_live [OF x'] b(1) by simp
    then have "Connection_broker w (conn w y (unat t)) = Some x'"
      using hop_back [OF w(1)] rtrancl_into_rtrancl(2) f' e by metis
    then have "x' = x" using from_x by simp
    then have "r = r'" using unique_arrival [OF w b x] x' by simp
    then have "f' = f" using f f' \<open>x' = x\<close> by simp
    then show ?thesis using step.IH rtrancl_into_rtrancl(1) by simp
  qed
qed

end
