(* ===== verification/Relaying.thy ===== *)
theory Relaying
  imports Connecting Walks
begin

text \<open>
  Where \<open>relay\<close> ends. A connection notes which journals its peer has offered and how far they are; the
  notes are right when they repeat what the peer offers. In a network whose notes are right and
  whose walks are bounded, the notes lead from any broker to the journal with the identifier of the
  payload, and exist exactly when there is one (\<open>sources\<close>, \<open>relay\<close> and \<open>UpdateProvides\<close> in
  \<open>hub.cpp\<close>, \<open>sources\<close> and \<open>relay\<close> in \<open>journalbase.cpp\<close>).
\<close>

section \<open>What a broker offers\<close>

definition distances :: "provides \<Rightarrow> (ident, 16 word) omap" where
  "distances m = om_map (\<lambda>_. info_distance) m"

text \<open>What \<open>b\<close> offers at its port \<open>j\<close>.\<close>

abbreviation offer :: "world \<Rightarrow> addr \<Rightarrow> source \<Rightarrow> provides" where
  "offer w b j \<equiv> UpdateProvides (BrokerBase_sources w b j)"

definition told_right :: "world \<Rightarrow> addr \<Rightarrow> nat \<Rightarrow> bool" where
  "told_right w a i \<longleftrightarrow>
     (case Connection_broker w (conn w a i) of
        None \<Rightarrow> True
      | Some b \<Rightarrow> distances (conn_sources (conn w a i)) = distances (offer w b (conn_source (conn w a i))))"

definition informed :: "world \<Rightarrow> bool" where
  "informed w \<longleftrightarrow>
     list_all (\<lambda>(a, b). list_all (told_right w a) [0..<length (b_connections b)]) (entries (w_brokers w))"

lemma informed_live: "informed w \<longleftrightarrow> (\<forall>a. live w a \<longrightarrow> (\<forall>i < length (conns w a). told_right w a i))"
  using broker_at_entries [of _ _ w] by (fastforce simp: informed_def list_all_iff live_entries)

lemma find_distances: "om_find (distances m) i = map_option info_distance (om_find m i)"
  by (simp add: distances_def om_find_map)

text \<open>The routes that \<open>sources\<close> lists: the own identifier at port 0, what the others told at theirs.\<close>

definition listing :: "world \<Rightarrow> addr \<Rightarrow> source \<Rightarrow> source \<Rightarrow> ident \<Rightarrow> conn_info option" where
  "listing w b j p i =
     (case om_find (BrokerBase_sources w b j) p of None \<Rightarrow> None | Some m \<Rightarrow> om_find m i)"

lemma listing_cases:
  assumes w: "settled w" "live w b"
  shows "listing w b j p i = Some info \<longleftrightarrow>
    p = 0 \<and> b_kind (broker_at w b) \<noteq> Hub \<and> b_id (broker_at w b) = i \<and>
      info = \<lparr>info_distance = 0, info_clock = Broker_clock w b\<rparr> \<or>
    p \<noteq> 0 \<and> p \<noteq> j \<and> unat p < length (conns w b) \<and> Connection_broker w (conn w b (unat p)) \<noteq> None \<and>
      om_find (conn_sources (conn w b (unat p))) i = Some info"
proof -
  have front: "Connection_broker w (conn w b 0) = None"
    using wired_conn(1) [of w b 0] w wired_live(1) [of w b] by (auto simp: settled_iff Connection_broker_def split: option.splits)
  then have none: "\<not> Connection_valid w (conn w b (unat p))" if "p = 0" using that by (simp add: Connection_valid_def)
  show ?thesis
    using settled_live(2) [OF w] none
    by (auto simp: listing_def BrokerBase_sources_def JournalBase_sources_def find_sources Let_def om_find_init
        Connection_valid_def split: option.splits if_splits)
qed

lemma find_member: "find P xs = Some x \<Longrightarrow> x \<in> set xs \<and> P x"
  by (metis find_Some_iff nth_mem)

lemma find_offer:
  "om_find (offer w b j) i = None \<longleftrightarrow> (\<forall>p. listing w b j p i = None)"
  "om_find (offer w b j) i = Some info \<Longrightarrow> \<exists>p k. listing w b j p i = Some k \<and> info = farther k"
proof -
  let ?xs = "entries (BrokerBase_sources w b j)"
  have offer: "om_find (offer w b j) i = (case find (\<lambda>(_, m). om_find m i \<noteq> None) ?xs of
      None \<Rightarrow> None | Some (_, m) \<Rightarrow> map_option farther (om_find m i))"
    by (simp add: UpdateProvides_def find_absorb_all)
  have listed: "(p, m) \<in> set ?xs \<Longrightarrow> listing w b j p i = om_find m i" for p m
    by (simp add: listing_def flip: om_find_iff)
  show "om_find (offer w b j) i = None \<longleftrightarrow> (\<forall>p. listing w b j p i = None)"
  proof (cases "find (\<lambda>(_, m). om_find m i \<noteq> None) ?xs")
    case None
    have "listing w b j p i = None" for p
    proof (cases "om_find (BrokerBase_sources w b j) p")
      case (Some m)
      then have "(p, m) \<in> set ?xs" by (simp add: om_find_iff)
      then show ?thesis using None listed by (auto simp: find_None_iff)
    qed (simp add: listing_def)
    then show ?thesis using offer None by simp
  next
    case (Some x)
    then obtain p m k where x: "x = (p, m)" "(p, m) \<in> set ?xs" "om_find m i = Some k"
      by (cases x) (auto dest: find_member)
    then have "listing w b j p i = Some k" using listed by simp
    moreover have "om_find (offer w b j) i = Some (farther k)" using offer Some x(1,3) by simp
    ultimately show ?thesis by (metis option.distinct(1))
  qed
  show "\<exists>p k. listing w b j p i = Some k \<and> info = farther k" if found: "om_find (offer w b j) i = Some info"
  proof (cases "find (\<lambda>(_, m). om_find m i \<noteq> None) ?xs")
    case None
    then show ?thesis using found offer by simp
  next
    case (Some x)
    then obtain p m where x: "x = (p, m)" "(p, m) \<in> set ?xs"
      by (cases x) (auto dest: find_member)
    then have "map_option farther (om_find m i) = Some info" using found offer Some by simp
    then show ?thesis using listed [OF x(2)] by fastforce
  qed
qed

section \<open>Walks to a journal\<close>

text \<open>A walk that does not turn back leads from \<open>b\<close>, entered at port \<open>j\<close>, to a journal with the
  identifier.\<close>

inductive offered :: "world \<Rightarrow> ident \<Rightarrow> addr \<Rightarrow> source \<Rightarrow> bool" for w i where
  own: "b_kind (broker_at w b) \<noteq> Hub \<Longrightarrow> b_id (broker_at w b) = i \<Longrightarrow> offered w i b j"
| via: "k < length (conns w b) \<Longrightarrow> k \<noteq> unat j \<Longrightarrow> Connection_broker w (conn w b k) = Some c \<Longrightarrow>
    offered w i c (conn_source (conn w b k)) \<Longrightarrow> offered w i b j"

lemma map_option_same: "map_option f x = map_option f y \<Longrightarrow> x = Some a \<Longrightarrow> \<exists>b. y = Some b \<and> f b = f a"
  by (cases y) auto

lemma told_listed:
  assumes "informed w" and "live w b" and "k < length (conns w b)"
    and "Connection_broker w (conn w b k) = Some c"
  shows "map_option info_distance (om_find (conn_sources (conn w b k)) i) =
    map_option info_distance (om_find (offer w c (conn_source (conn w b k))) i)"
proof -
  have "told_right w b k" using assms(1-3) by (simp add: informed_live)
  then have "distances (conn_sources (conn w b k)) = distances (offer w c (conn_source (conn w b k)))"
    using assms(4) by (simp add: told_right_def)
  then show ?thesis by (simp flip: find_distances)
qed

lemma offered_listed:
  assumes w: "settled w" "informed w"
  shows "offered w i b j \<Longrightarrow> live w b \<Longrightarrow> \<exists>p info. listing w b j p i = Some info"
proof (induction rule: offered.induct)
  case (own b j)
  then show ?case using listing_cases [OF w(1) own(3), of j 0 i] by blast
next
  case (via k b j c)
  have wired: "wired w" using w(1) by (simp add: settled_iff)
  have "conn_broker (conn w b k) = Some c" using via(3) by (simp add: Connection_broker_live)
  note far = wired_conn [OF wired via(6,1) this]
  then obtain info where "om_find (offer w c (conn_source (conn w b k))) i = Some info"
    using via(5) find_offer(1) [of w c _ i] by fastforce
  then obtain info' where info: "om_find (conn_sources (conn w b k)) i = Some info'"
    using told_listed [OF w(2) via(6,1,3), of i] by auto
  have "unat (of_nat k :: source) = k"
    using via(1) settled_live(2) [OF w(1) via(6)] by (intro unat_port) linarith
  then have "listing w b j (of_nat k) i = Some info'"
    using listing_cases [OF w(1) via(6), of j "of_nat k" i] via(1-3) far(1) info by auto
  then show ?case by blast
qed

text \<open>On bounded walks the notes are true: they lead to a journal, and the distance counts the steps.\<close>

lemma listed_offered:
  assumes w: "settled w" "informed w"
  shows "bounded n w b j \<Longrightarrow> n < 2 ^ 15 \<Longrightarrow> live w b \<Longrightarrow> listing w b j p i = Some info \<Longrightarrow>
    offered w i b j \<and> (\<exists>d < n. info_distance info = of_nat d \<and> (d = 0 \<longleftrightarrow> p = 0))"
proof (induction n arbitrary: b j p info)
  case (Suc n)
  note cases = Suc.prems(4) [unfolded listing_cases [OF w(1) Suc.prems(3)]]
  show ?case
  proof (cases "p = 0")
    case True
    then show ?thesis using cases by (auto intro: offered.own)
  next
    case False
    then obtain c where p: "p \<noteq> j" "unat p < length (conns w b)" "Connection_broker w (conn w b (unat p)) = Some c"
      and info: "om_find (conn_sources (conn w b (unat p))) i = Some info"
      using cases by auto
    let ?q = "conn_source (conn w b (unat p))"
    have "unat p \<noteq> unat j" using p(1) by (metis word_unat_eq_iff)
    then have "bounded n w c ?q" using Suc.prems(1) p(2,3) by (fastforce simp: list_all_iff)
    moreover have "live w c" using p(3) by (simp add: Connection_broker_live)
    moreover obtain info' where "om_find (offer w c ?q) i = Some info'" "info_distance info' = info_distance info"
      using map_option_same [OF told_listed [OF w(2) Suc.prems(3) p(2,3)] info] by blast
    moreover from this obtain r k where "listing w c ?q r i = Some k" "info_distance info = info_distance k + 1"
      using find_offer(2) by (fastforce simp: farther_def)
    ultimately obtain d where d: "offered w i c ?q" "d < n" "info_distance info = of_nat (Suc d)"
      using Suc.IH [of c ?q r k] Suc.prems(2) by auto
    then show ?thesis using offered.via [OF p(2) \<open>unat p \<noteq> unat j\<close> p(3)] False by auto
  qed
qed simp

section \<open>Following the notes\<close>

lemma listing_sender:
  assumes "settled w" and "live w b" and "j \<noteq> 0"
  shows "listing w b j p i = Some info \<longleftrightarrow> listing w b 0 p i = Some info \<and> p \<noteq> j"
  using listing_cases [OF assms(1,2)] assms(3) by auto

lemma in_routes:
  assumes "settled w" and "live w b"
  shows "r \<in> set (routes i (advertised (BrokerBase_sources w b 0) j)) \<longleftrightarrow>
    (\<exists>p info. listing w b j p i = Some info \<and> r = (sint (info_distance info), p))"
proof -
  have scan: "r \<in> set (routes i (advertised s j)) \<longleftrightarrow>
      (\<exists>p m info. om_find s p = Some m \<and> \<not> (j > 0 \<and> p = j) \<and> om_find m i = Some info \<and>
         r = (sint (info_distance info), p))" for s
    by (force simp: routes_def advertised_def om_find_iff split: if_splits)
  have "(\<exists>m. om_find (BrokerBase_sources w b 0) p = Some m \<and> \<not> (j > 0 \<and> p = j) \<and> om_find m i = Some info) \<longleftrightarrow>
      listing w b j p i = Some info" for p info
  proof (cases "j = 0")
    case True
    then show ?thesis by (auto simp: listing_def split: option.splits)
  next
    case False
    then have "listing w b j p i = Some info \<longleftrightarrow> listing w b 0 p i = Some info \<and> p \<noteq> j"
      by (rule listing_sender [OF assms])
    moreover have "j > 0" using False by (simp add: word_gt_0)
    ultimately show ?thesis by (auto simp: listing_def split: option.splits)
  qed
  then show ?thesis unfolding scan by blast
qed

lemma distance_zero:
  assumes "k < 2 ^ 15"
  shows "(of_nat k :: 16 word) = 0 \<longleftrightarrow> k = 0"
proof -
  have "unat (of_nat k :: 16 word) = k" using assms by (simp add: unat_of_nat take_bit_nat_eq_self)
  then show ?thesis by (metis unat_0 unat_eq_zero)
qed

lemma relay_follows:
  assumes w: "settled w" "informed w" and i: "data_id d \<noteq> 0"
  shows "bounded n w b j \<Longrightarrow> n < 2 ^ 15 \<Longrightarrow> live w b \<Longrightarrow>
    (if offered w (data_id d) b j
     then \<exists>z k. m \<le> k \<and> live w z \<and> b_kind (broker_at w z) \<noteq> Hub \<and> b_id (broker_at w z) = data_id d \<and>
       reachable w b z \<and> BrokerBase_relay (n + m) b d j w = BrokerBase_insert k z
         \<lparr>entry_clock = Clock_tick (Broker_clock w z) (data_id d), entry_data = d\<rparr> 0 w
     else BrokerBase_relay (n + m) b d j w = Inr (refused, w))"
proof (induction n arbitrary: b j)
  case (Suc n)
  let ?i = "data_id d"
  let ?rs = "routes ?i (advertised (BrokerBase_sources w b 0) j)"
  let ?relay = "BrokerBase_relay (n + m)" and ?insert = "BrokerBase_insert (n + m)"
  have run: "BrokerBase_relay (Suc n + m) b d j w = Broker_relay ?relay ?insert b d j w"
    using i by (simp add: JournalBase_relay_def)
  note relay = Broker_relay_routes [of ?relay ?insert b d j w, folded run]
  note route = in_routes [OF w(1) Suc.prems(3), of _ ?i j]
  have true_notes: "offered w ?i b j \<and> (\<exists>k < Suc n. info_distance info = of_nat k \<and> (k = 0 \<longleftrightarrow> p = 0))"
    if "listing w b j p ?i = Some info" for p info
    by (rule listed_offered [OF w Suc.prems that])
  show ?case
  proof (cases "?rs = []")
    case True
    then have "\<not> offered w ?i b j" using offered_listed [OF w _ Suc.prems(3), of ?i j] route by fastforce
    then show ?thesis using relay True by simp
  next
    case False
    then obtain r where "r \<in> set ?rs" by (cases ?rs) auto
    then have offered: "offered w ?i b j" using route true_notes by blast
    show ?thesis
    proof (cases "0 \<in> fst ` set ?rs")
      case True
      then obtain p info where p: "listing w b j p ?i = Some info" "sint (info_distance info) = 0"
        using route by force
      then have "info_distance info = 0" by (metis sint_0 signed_word_eqI)
      moreover obtain k where "k < Suc n" "info_distance info = of_nat k" "k = 0 \<longleftrightarrow> p = 0"
        using true_notes [OF p(1)] by blast
      ultimately have "p = 0" using Suc.prems(2) distance_zero by simp
      then have "b_kind (broker_at w b) \<noteq> Hub \<and> b_id (broker_at w b) = ?i"
        using p(1) listing_cases [OF w(1) Suc.prems(3)] by blast
      moreover have "BrokerBase_relay (Suc n + m) b d j w = ?insert b
          \<lparr>entry_clock = Clock_tick (Broker_clock w b) ?i, entry_data = d\<rparr> 0 w"
        using relay True by simp
      moreover have "m \<le> n + m" by simp
      ultimately show ?thesis using offered Suc.prems(3) reachable.here [of w b] by metis
    next
      case far: False
      obtain p info where p: "listing w b j p ?i = Some info" "snd (nearest ?rs) = p"
        "fst (nearest ?rs) = sint (info_distance info)"
        using nearest_member [OF False] route by (metis fst_conv snd_conv)
      have "p \<noteq> 0"
      proof
        assume "p = 0"
        then have "info_distance info = 0" using true_notes [OF p(1)] by auto
        then show False using far p(3) nearest_member [OF False] by (metis image_eqI sint_0)
      qed
      then obtain c where c: "p \<noteq> j" "unat p < length (conns w b)" "Connection_broker w (conn w b (unat p)) = Some c"
        and info: "om_find (conn_sources (conn w b (unat p))) ?i = Some info"
        using p(1) listing_cases [OF w(1) Suc.prems(3)] by blast
      let ?q = "conn_source (conn w b (unat p))"
      have "unat p \<noteq> unat j" using c(1) by (metis word_unat_eq_iff)
      then have enough: "bounded n w c ?q" using Suc.prems(1) c(2,3) by (fastforce simp: list_all_iff)
      have live: "live w c" using c(3) by (simp add: Connection_broker_live)
      have on: "offered w ?i c ?q"
      proof -
        obtain info' where "om_find (offer w c ?q) ?i = Some info'"
          using map_option_same [OF told_listed [OF w(2) Suc.prems(3) c(2,3)] info] by blast
        then obtain r k where "listing w c ?q r ?i = Some k" using find_offer(2) by blast
        then show ?thesis using listed_offered [OF w enough _ live] Suc.prems(2) by auto
      qed
      have "BrokerBase_relay (Suc n + m) b d j w = ?relay c d ?q w"
        using relay False far p(2) c by (simp add: Let_def Connection_relay_def)
      moreover have "reachable w b c"
        using reachable.step [OF reachable.here, of c w b] c(2,3)
        by (auto simp: neighbours_iff Connection_broker_live)
      moreover have "n < 2 ^ 15" using Suc.prems(2) by simp
      note Suc.IH [OF enough this live]
      then obtain z k where "m \<le> k" "live w z" "b_kind (broker_at w z) \<noteq> Hub" "b_id (broker_at w z) = ?i"
        "reachable w c z" "?relay c d ?q w = BrokerBase_insert k z
          \<lparr>entry_clock = Clock_tick (Broker_clock w z) ?i, entry_data = d\<rparr> 0 w"
        using on by auto
      ultimately show ?thesis using offered reachable_trans [of w c z b] by metis
    qed
  qed
qed simp

section \<open>Every journal in reach is offered\<close>

lemma reachable_walks:
  assumes w: "settled w" "live w a"
  shows "reachable w a b \<Longrightarrow> \<exists>j. walks w (a, 0) (b, j)"
proof (induction rule: reachable.induct)
  case (step b c)
  then obtain j where j: "walks w (a, 0) (b, j)" by blast
  have b: "live w b" using walks_live [OF j] w(2) by simp
  have wired: "wired w" using w(1) by (simp add: settled_iff)
  obtain k where k: "k < length (conns w b)" "conn_broker (conn w b k) = Some c"
    using step.hyps(2) by (auto simp: neighbours_iff)
  note far = wired_conn [OF wired b k]
  have c: "Connection_broker w (conn w b k) = Some c" using k(2) far(2) by (simp add: Connection_broker_live)
  show ?case
  proof (cases "k = unat j")
    case False
    then have "hop w (b, j) (c, conn_source (conn w b k))" using k(1) c by (auto simp: hop_def)
    then show ?thesis using j by (metis rtranclp.rtrancl_into_rtrancl)
  next
    case True
    from j show ?thesis
    proof (cases rule: rtranclp.cases)
      case rtrancl_refl
      then show ?thesis using True far(1) by simp
    next
      case (rtrancl_into_rtrancl f)
      obtain x r where f: "f = (x, r)" by fastforce
      have "live w x" using walks_live [OF rtrancl_into_rtrancl(1)] f w(2) by simp
      then have "Connection_broker w (conn w b (unat j)) = Some x"
        using hop_back [OF w(1)] rtrancl_into_rtrancl(2) f by metis
      then show ?thesis using True c rtrancl_into_rtrancl(1) f by auto
    qed
  qed
qed (blast)

lemma walks_offered: "walks w e f \<Longrightarrow> offered w i (fst f) (snd f) \<Longrightarrow> offered w i (fst e) (snd e)"
  by (induction rule: converse_rtranclp_induct) (auto simp: hop_def intro: offered.via)

lemma offered_iff:
  assumes "settled w" and "live w a"
  shows "offered w i a 0 \<longleftrightarrow> (\<exists>z. reachable w a z \<and> b_kind (broker_at w z) \<noteq> Hub \<and> b_id (broker_at w z) = i)"
proof
  have "offered w i b j \<Longrightarrow> \<exists>z. reachable w b z \<and> b_kind (broker_at w z) \<noteq> Hub \<and> b_id (broker_at w z) = i" for b j
  proof (induction rule: offered.induct)
    case (own b j)
    then show ?case using reachable.here by blast
  next
    case (via k b j c)
    then have "reachable w b c"
      using reachable.step [OF reachable.here, of c w b] by (auto simp: neighbours_iff Connection_broker_live)
    then show ?case using via.IH reachable_trans by blast
  qed
  then show "offered w i a 0 \<Longrightarrow> \<exists>z. reachable w a z \<and> b_kind (broker_at w z) \<noteq> Hub \<and> b_id (broker_at w z) = i" .
next
  assume "\<exists>z. reachable w a z \<and> b_kind (broker_at w z) \<noteq> Hub \<and> b_id (broker_at w z) = i"
  then obtain z j where "walks w (a, 0) (z, j)" "offered w i z j"
    using reachable_walks [OF assms] offered.own by blast
  then show "offered w i a 0" using walks_offered by fastforce
qed

section \<open>Theorems\<close>

text \<open>C8: \<open>relay\<close> finds the journal. In a settled network whose notes are right and whose walks are
  bounded, \<open>relay\<close> at any broker ends, when a journal with the identifier of the payload is in reach,
  as the insertion of the next entry of that device at such a journal, and refuses the payload
  when there is none. The walks are shorter than the distances that 16 bits can count.\<close>

theorem relay_delivers:
  assumes "settled w" and "informed w" and "live w a" and "bounded n w a 0" and "n < 2 ^ 15" and "data_id d \<noteq> 0"
  shows "if \<exists>z. reachable w a z \<and> b_kind (broker_at w z) \<noteq> Hub \<and> b_id (broker_at w z) = data_id d
    then \<exists>z k. m \<le> k \<and> live w z \<and> reachable w a z \<and> b_kind (broker_at w z) \<noteq> Hub \<and>
      b_id (broker_at w z) = data_id d \<and>
      BrokerBase_relay (n + m) a d 0 w = BrokerBase_insert k z
        \<lparr>entry_clock = Clock_tick (Broker_clock w z) (data_id d), entry_data = d\<rparr> 0 w
    else BrokerBase_relay (n + m) a d 0 w = Inr (refused, w)"
  using relay_follows [OF assms(1,2,6,4,5,3), of m] unfolding offered_iff [OF assms(1,3)]
  by (auto split: if_splits)

text \<open>The two caches and the hub between them, whose connections have noted how far the caches are.\<close>

definition noted :: "(ident \<times> 16 word) list \<Rightarrow> provides" where
  "noted = om_init \<circ> map (\<lambda>(i, d). (i, \<lparr>info_distance = d, info_clock = om_empty\<rparr>))"

definition signposts :: world where
  "signposts =
     set_conn 0 1 (conn_sources_update (\<lambda>_. noted [(2, 2)]))
      (set_conn 1 1 (conn_sources_update (\<lambda>_. noted [(1, 1)]))
      (set_conn 1 2 (conn_sources_update (\<lambda>_. noted [(2, 1)]))
      (set_conn 2 1 (conn_sources_update (\<lambda>_. noted [(1, 2)])) trio)))"

lemma signposts_informed: "informed signposts"
  by (simp add: informed_def told_right_def distances_def noted_def eval_simps sample_simps signposts_def)

lemma signposts_settled: "settled signposts"
proof -
  have "same_net trio signposts"
    by (simp add: same_net_def signposts_def ends_def)
  then show ?thesis by (rule same_net_settled [OF _ trio_settled])
qed

theorem relay_delivers_witness:
  "\<exists>k \<ge> 1. BrokerBase_relay 4 0 (Data_of 2 7 om_empty) 0 signposts =
     BrokerBase_insert k 2 \<lparr>entry_clock = Clock_tick (Broker_clock signposts 2) 2, entry_data = Data_of 2 7 om_empty\<rparr>
       0 signposts"
proof -
  let ?d = "Data_of 2 7 om_empty"
  have live: "live signposts a \<longleftrightarrow> a = 0 \<or> a = 1 \<or> a = 2" for a
    by (simp add: eval_simps sample_simps signposts_def)
  have caches: "b_kind (broker_at signposts 2) = Cache" "b_id (broker_at signposts 0) = 1"
    "b_id (broker_at signposts 1) = 3" "b_id (broker_at signposts 2) = 2"
    by (simp_all add: eval_simps sample_simps signposts_def)
  have "1 \<in> set (neighbours signposts 0)" "2 \<in> set (neighbours signposts 1)"
    by (simp_all add: neighbours_def eval_simps sample_simps signposts_def)
  then have "reachable signposts 0 2" using reachable.here reachable.step by metis
  moreover have "bounded 3 signposts 0 0"
    by (simp add: eval_simps sample_simps signposts_def numeral_3_eq_3)
  ultimately show ?thesis
    using relay_delivers [OF signposts_settled signposts_informed, of 0 3 ?d 1] live caches
    by (auto split: if_splits)
qed

end
