(* ===== verification/Informing.thy ===== *)
theory Informing
  imports Relaying
begin

text \<open>
  How notes about journals become right. An announcement (\<open>refresh\<close> in \<open>hub.cpp\<close>) goes out along the
  walks that never turn back; every port that it enters notes what the broker behind it offers, and
  no other port is written. So \<open>connect\<close> leaves a network whose notes are right, and so does an
  \<open>append\<close> in the name of the journal itself.
\<close>

section \<open>What the notes depend on\<close>

lemma Connection_broker_same:
  assumes "\<And>x. live v x = live w x"
  shows "Connection_broker v c = Connection_broker w c"
proof -
  have "Connection_broker v c = Some b \<longleftrightarrow> Connection_broker w c = Some b" for b
    using assms by (simp add: Connection_broker_live)
  then show ?thesis by (metis not_None_eq)
qed

lemma sources_same:
  assumes live: "\<And>x. live v x = live w x" and len: "length (conns v y) = length (conns w y)"
    and self: "b_kind (broker_at v y) = b_kind (broker_at w y)" "b_id (broker_at v y) = b_id (broker_at w y)"
      "Broker_clock v y = Broker_clock w y"
    and conns: "\<And>i. i < length (conns w y) \<Longrightarrow> i \<noteq> unat k \<or> i = 0 \<Longrightarrow> conn v y i = conn w y i"
  shows "BrokerBase_sources v y k = BrokerBase_sources w y k"
proof -
  have "Connection_valid v c = Connection_valid w c" for c
    using Connection_broker_same [OF live] by (simp add: Connection_valid_def)
  then have "Broker_sources v y k = Broker_sources w y k"
    unfolding Broker_sources_def len by (intro fold_cong refl) (auto simp: fun_eq_iff conns)
  then show ?thesis by (simp add: BrokerBase_sources_def JournalBase_sources_def self)
qed

lemma told_right_same:
  assumes "\<And>x. live v x = live w x" and "conn v x i = conn w x i"
    and "\<And>y. Connection_broker w (conn w x i) = Some y \<Longrightarrow>
      BrokerBase_sources v y (conn_source (conn w x i)) = BrokerBase_sources w y (conn_source (conn w x i))"
  shows "told_right v x i = told_right w x i"
  using assms(2,3) Connection_broker_same [OF assms(1)]
  by (simp add: told_right_def split: option.split)

lemma distances_learn [simp]: "distances (learn t m) = distances m"
  by (simp add: om_eq_iff find_distances learn_def om_find_map option.map_comp comp_def)

section \<open>An announcement goes out\<close>

text \<open>Between two states of a network that lies within the settled one \<open>T\<close>: the ports outside a set
  have not been written, and the ports of a set are told right.\<close>

definition spares :: "world \<Rightarrow> (addr \<times> source \<Rightarrow> bool) \<Rightarrow> world \<Rightarrow> world \<Rightarrow> bool" where
  "spares T R v w \<longleftrightarrow> (\<forall>x i. live T x \<longrightarrow> i < length (conns T x) \<longrightarrow> \<not> R (x, of_nat i) \<longrightarrow> conn w x i = conn v x i)"

definition tells :: "(addr \<times> source \<Rightarrow> bool) \<Rightarrow> world \<Rightarrow> bool" where
  "tells R w \<longleftrightarrow> (\<forall>x r. R (x, r) \<longrightarrow> told_right w x (unat r))"

definition open_from :: "world \<Rightarrow> world \<Rightarrow> addr \<times> source \<Rightarrow> bool" where
  "open_from T w e \<longleftrightarrow> (\<forall>x r. walks T e (x, r) \<longrightarrow>
     (\<forall>i < length (conns T x). ends (conn w x i) = ends (conn T x i)))"

lemma spares_refl [simp]: "spares T R w w"
  by (simp add: spares_def)

lemma spares_trans: "spares T R u v \<Longrightarrow> spares T S v w \<Longrightarrow> spares T (\<lambda>e. R e \<or> S e) u w"
  by (simp add: spares_def)

lemma spares_mono: "spares T R v w \<Longrightarrow> (\<And>e. R e \<Longrightarrow> S e) \<Longrightarrow> spares T S v w"
  by (auto simp: spares_def)

lemma open_mends:
  assumes "open_from T w e" and "mends T w w'" and "live T (fst e)"
  shows "open_from T w' e"
  unfolding open_from_def
proof (intro allI impI)
  fix x r i assume x: "walks T e (x, r)" and i: "i < length (conns T x)"
  have "live T x" using walks_live [OF x] assms(3) by simp
  then show "ends (conn w' x i) = ends (conn T x i)"
    using assms(1) [unfolded open_from_def, rule_format, OF x i] assms(2) i by (simp add: mends_def ends_def)
qed

lemma open_on: "open_from T w e \<Longrightarrow> walks T e f \<Longrightarrow> open_from T w f"
  unfolding open_from_def by (meson rtranclp_trans)

text \<open>The ports that are entered after leaving \<open>b\<close>, entered at \<open>p\<close>, through port \<open>i\<close>.\<close>

definition branch :: "world \<Rightarrow> addr \<Rightarrow> source \<Rightarrow> nat \<Rightarrow> addr \<times> source \<Rightarrow> bool" where
  "branch T b p i e \<longleftrightarrow> i \<noteq> unat p \<and> i < length (conns T b) \<and>
     (\<exists>c. Connection_broker T (conn T b i) = Some c \<and> walks T (c, conn_source (conn T b i)) e)"

lemma branch_hop:
  assumes "branch T b p i e"
  obtains c q where "hop T (b, p) (c, q)" and "walks T (c, q) e" and "Connection_broker T (conn T b i) = Some c"
    and "conn_source (conn T b i) = q"
  using assms by (auto simp: branch_def hop_def)

lemma walks_on_branch: "walks_on T (b, p) e \<longleftrightarrow> (\<exists>i. branch T b p i e)"
proof
  assume "walks_on T (b, p) e"
  then obtain f where "hop T (b, p) f" "walks T f e" by (metis tranclpD)
  then show "\<exists>i. branch T b p i e" by (cases f) (auto simp: branch_def hop_def)
next
  assume "\<exists>i. branch T b p i e"
  then show "walks_on T (b, p) e" by (metis branch_hop rtranclp_into_tranclp2)
qed

lemma branch_unique:
  assumes T: "settled T" "loopless T" and b: "live T b" "bounded n T b p"
    and e: "branch T b p i e" "branch T b p i' e"
  shows "i = i'"
proof -
  obtain c q where c: "hop T (b, p) (c, q)" "walks T (c, q) e" "Connection_broker T (conn T b i) = Some c"
    "conn_source (conn T b i) = q" by (rule branch_hop [OF e(1)])
  obtain c' q' where c': "hop T (b, p) (c', q')" "walks T (c', q') e" "Connection_broker T (conn T b i') = Some c'"
    "conn_source (conn T b i') = q'" by (rule branch_hop [OF e(2)])
  have same: "c' = c" "q' = q" using walks_apart [OF T b c(1) c'(1) c(2) c'(2)] by simp_all
  have far: "of_nat k = conn_source (conn T c (unat q)) \<and> unat (of_nat k :: source) = k"
    if "k < length (conns T b)" "Connection_broker T (conn T b k) = Some c" "conn_source (conn T b k) = q" for k
  proof
    have "named_back T b k" by (rule settled_live(3) [OF T(1) b(1) that(1)])
    then show "of_nat k = conn_source (conn T c (unat q))"
      using that(2,3) by (simp add: named_back_def Connection_broker_live)
    show "unat (of_nat k :: source) = k"
      using that(1) settled_live(2) [OF T(1) b(1)] by (intro unat_port) linarith
  qed
  then have "unat (of_nat i :: source) = unat (of_nat i' :: source)"
    using c(3,4) c'(3,4) e same by (metis branch_def)
  then show ?thesis using far c(3,4) c'(3,4) e same by (metis branch_def)
qed

text \<open>A branch does not come back to where it starts, and a broker that is entered in it is entered
  at one port only.\<close>

lemma branch_away:
  assumes T: "settled T" "loopless T" and b: "live T b" "bounded n T b p"
    and e: "branch T b p i (x, r)"
  shows "x \<noteq> b" and "walks T (b, p) (x, r)"
proof -
  have on: "walks_on T (b, p) (x, r)" using e walks_on_branch by blast
  then show "x \<noteq> b" using no_return [OF T b] by blast
  show "walks T (b, p) (x, r)" using on by (rule tranclp_into_rtranclp)
qed

text \<open>The broker behind a port of a branch is where the branch starts or is entered in it.\<close>

lemma branch_from:
  assumes T: "settled T" and b: "live T b" and e: "branch T b p i (x, r)"
    and y: "Connection_broker T (conn T x (unat r)) = Some y"
  obtains "y = b" and "conn_source (conn T x (unat r)) = of_nat i"
  | s where "branch T b p i (y, s)" and "conn_source (conn T x (unat r)) \<noteq> s"
proof -
  obtain c q where c: "hop T (b, p) (c, q)" "walks T (c, q) (x, r)" "Connection_broker T (conn T b i) = Some c"
    "conn_source (conn T b i) = q" by (rule branch_hop [OF e])
  have i: "i < length (conns T b)" "i \<noteq> unat p" using e by (simp_all add: branch_def)
  from c(2) show thesis
  proof (cases rule: rtranclp.cases)
    case rtrancl_refl
    then have x: "c = x" "q = r" by simp_all
    have "named_back T b i" by (rule settled_live(3) [OF T b i(1)])
    then have "conn_source (conn T x (unat r)) = of_nat i"
      using c(3,4) x by (simp add: named_back_def Connection_broker_live)
    moreover have "conn_broker (conn T x (unat r)) = Some b"
      using wired_conn(4) [of T b i x] T b i(1) c(3,4) x by (simp add: settled_iff Connection_broker_live)
    ultimately show thesis using that(1) y by (simp add: Connection_broker_live)
  next
    case (rtrancl_into_rtrancl f)
    obtain z s where f: "f = (z, s)" by fastforce
    have z: "walks T (c, q) (z, s)" "hop T (z, s) (x, r)" using rtrancl_into_rtrancl f by simp_all
    have live: "live T z" using walks_live [OF z(1)] hop_live [OF c(1)] by simp
    obtain k where k: "k \<noteq> unat s" "unat (of_nat k :: source) = k"
      "Connection_broker T (conn T x (unat r)) = Some z" "conn_source (conn T x (unat r)) = of_nat k"
      by (rule hop_back [OF T live z(2)]) blast
    have "branch T b p i (z, s)" using e c z(1) by (auto simp: branch_def)
    moreover have "z = y" using k(3) y by simp
    moreover have "of_nat k \<noteq> s" using k(1,2) by metis
    ultimately show thesis using that(2) [of s] k(4) by simp
  qed
qed

text \<open>What a call of \<open>refresh\<close> does.\<close>

definition informs :: "world \<Rightarrow> nat \<Rightarrow> refresh_call \<Rightarrow> bool" where
  "informs T n call \<longleftrightarrow> (\<forall>b d p w ok w'. within T w \<longrightarrow> live T b \<longrightarrow> unat p < length (conns T b) \<longrightarrow>
     p \<noteq> 0 \<longrightarrow> conn_source d = conn_source (conn T b (unat p)) \<longrightarrow> bounded n T b p \<longrightarrow> open_from T w (b, p) \<longrightarrow>
     call b d p w = Inr (ok, w') \<longrightarrow>
       mends T w w' \<and> same_state w w' \<and> spares T (walks T (b, p)) w w' \<and> tells (walks_on T (b, p)) w' \<and>
       conn_sources (conn w' b (unat p)) = conn_sources d)"

text \<open>One branch is told, and those told before it stay so.\<close>

lemma sources_spared:
  assumes T: "settled T" and w: "within T v" "mends T v w" "same_state v w" and y: "live T y"
    and sp: "spares T R v w" and out: "\<And>i. i < length (conns T y) \<Longrightarrow> i \<noteq> unat k \<or> i = 0 \<Longrightarrow> \<not> R (y, of_nat i)"
  shows "BrokerBase_sources w y k = BrokerBase_sources v y k"
proof (rule sources_same)
  show "live w x = live v x" for x using w(1,2) by (simp add: mends_def within_def)
  have "live v y" using w(1) y by (simp add: within_def)
  then show "b_kind (broker_at w y) = b_kind (broker_at v y)" "b_id (broker_at w y) = b_id (broker_at v y)"
    "Broker_clock w y = Broker_clock v y"
    using w(3) by (auto simp: same_state_def frame_def)
  have len: "length (conns v y) = length (conns T y)" "length (conns w y) = length (conns T y)"
    using w(1,2) y by (simp_all add: mends_def within_def)
  then show "length (conns w y) = length (conns v y)" by simp
  show "conn w y i = conn v y i" if "i < length (conns v y)" "i \<noteq> unat k \<or> i = 0" for i
    using sp out [of i] that y by (simp add: spares_def len)
qed

lemma told_spared:
  assumes T: "settled T" and w: "within T v" "mends T v w" "same_state v w" and x: "live T x" "i < length (conns T x)"
    and sp: "spares T R v w" and here: "\<not> R (x, of_nat i)"
    and far: "\<And>y k. Connection_broker v (conn v x i) = Some y \<Longrightarrow> k < length (conns T y) \<Longrightarrow>
      k \<noteq> unat (conn_source (conn v x i)) \<or> k = 0 \<Longrightarrow> \<not> R (y, of_nat k)"
  shows "told_right w x i = told_right v x i"
proof (rule told_right_same)
  show "live w y = live v y" for y using w(1,2) by (simp add: mends_def within_def)
  show "conn w x i = conn v x i" using sp x here by (simp add: spares_def)
  show "BrokerBase_sources w y (conn_source (conn v x i)) = BrokerBase_sources v y (conn_source (conn v x i))"
    if y: "Connection_broker v (conn v x i) = Some y" for y
  proof (rule sources_spared [OF T w _ sp])
    show "live T y" using y w(1) by (simp add: Connection_broker_live within_def)
  qed (use far [OF y] in blast)
qed

lemma announced_informs:
  assumes T: "settled T" "loopless T" and b: "live T b" "bounded (Suc n) T b p" and call: "informs T n (BrokerBase_refresh n)"
    and v: "within T v" "open_from T v (b, p)" and i: "0 < i" "i < length (conns T b)"
    and run: "announced (BrokerBase_refresh n) b p i v = Inr v'"
  shows "mends T v v' \<and> same_state v v' \<and> spares T (branch T b p i) v v' \<and> tells (branch T b p i) v'"
proof -
  have reg: "registered v b" using within_registered [OF v(1) T(1) b(1)] .
  have live: "live v x = live T x" for x using v(1) by (simp add: within_def)
  have ends: "ends (conn v b i) = ends (conn T b i)"
    using v(2) i(2) unfolding open_from_def by blast
  then have port: "Connection_broker v (conn v b i) = Connection_broker T (conn T b i)"
    "conn_source (conn v b i) = conn_source (conn T b i)"
    using Connection_broker_same [OF live] by (simp_all add: ends_def Connection_broker_def)
  show ?thesis
  proof (cases "i = unat p \<or> Connection_broker T (conn T b i) = None")
    case True
    then have "v' = v" using run port
      by (auto simp: announced_def introduction_registered [OF reg] Connection_refresh_def split: if_splits)
    moreover have "\<not> branch T b p i e" for e using True by (auto simp: branch_def)
    ultimately show ?thesis using mends_refl [OF v(1)] by (simp add: tells_def quiet.refl)
  next
    case False
    then obtain c where c: "Connection_broker T (conn T b i) = Some c" by auto
    define q where "q = conn_source (conn T b i)"
    define d where "d = (Connection_to (Some b))\<lparr>conn_source := of_nat i, conn_version := Broker_clock v b,
        conn_sources := offer v b (of_nat i)\<rparr>"
    have hop: "hop T (b, p) (c, q)" using False i(2) c by (auto simp: hop_def q_def)
    obtain k where k: "live T c" "unat q < length (conns T c)" "q \<noteq> 0" "Connection_broker T (conn T c (unat q)) = Some b"
      "conn_source (conn T c (unat q)) = of_nat k" "Connection_broker T (conn T b k) = Some c"
      "conn_source (conn T b k) = q" "k < length (conns T b)"
      by (rule hop_back [OF T(1) b(1) hop]) blast
    have "named_back T b i" by (rule settled_live(3) [OF T(1) b(1) i(2)])
    then have named: "conn_source (conn T c (unat q)) = of_nat i"
      using c by (simp add: named_back_def Connection_broker_live q_def)
    obtain ok where "BrokerBase_refresh n c d q v = Inr (ok, v')"
      using run False port c
      by (auto simp: announced_def introduction_registered [OF reg] Connection_refresh_def d_def q_def cashmere_errors)
    moreover have "bounded n T c q" using bounded_hop [OF _ hop] b(2) by simp
    moreover have "open_from T v (c, q)" using open_on [OF v(2)] hop by blast
    moreover have "conn_source d = conn_source (conn T c (unat q))" by (simp add: d_def named)
    ultimately have called: "mends T v v'" "same_state v v'" "spares T (walks T (c, q)) v v'" "tells (walks_on T (c, q)) v'"
      "conn_sources (conn v' c (unat q)) = conn_sources d"
      using call v(1) k(1-3) unfolding informs_def by blast+
    have branch: "branch T b p i e \<longleftrightarrow> walks T (c, q) e" for e
      using False c i(2) by (auto simp: branch_def q_def)
    have "tells (branch T b p i) v'"
      unfolding tells_def
    proof (intro allI impI)
      fix x r assume x: "branch T b p i (x, r)"
      show "told_right v' x (unat r)"
      proof (cases "(x, r) = (c, q)")
        case False
        then have "walks_on T (c, q) (x, r)" using x branch by (auto dest: rtranclpD)
        then show ?thesis using called(4) by (simp add: tells_def)
      next
        case True
        have after: "live v' y = live T y" for y using called(1) by (simp add: mends_def within_def)
        have "ends (conn v' c (unat q)) = ends (conn T c (unat q))"
          using open_mends [OF open_on [OF v(2)] called(1), of "(c, q)"] hop k(1,2)
          by (auto simp: open_from_def)
        then have "Connection_broker v' (conn v' c (unat q)) = Some b" "conn_source (conn v' c (unat q)) = of_nat i"
          using Connection_broker_same [of v' T] after k(4) named by (simp_all add: ends_def Connection_broker_def)
        moreover have "BrokerBase_sources v' b (of_nat i) = BrokerBase_sources v b (of_nat i)"
        proof (rule sources_spared [OF T(1) v(1) called(1,2) b(1) called(3)])
          show "\<not> walks T (c, q) (b, of_nat i')" for i'
            using branch_away(1) [OF T b] branch by blast
        qed
        ultimately show ?thesis using True called(5) by (simp add: told_right_def d_def)
      qed
    qed
    then show ?thesis using called(1,2) spares_mono [OF called(3)] branch by simp
  qed
qed

lemma walks_on_port:
  assumes T: "settled T" and on: "walks_on T e (x, r)" and e: "live T (fst e)"
  shows "live T x" and "unat r < length (conns T x)" and "r \<noteq> 0"
    and "\<exists>y s. walks T e (y, s) \<and> Connection_broker T (conn T x (unat r)) = Some y \<and>
      conn_source (conn T x (unat r)) \<noteq> s"
proof -
  obtain f where f: "walks T e f" "hop T f (x, r)"
    using on by (metis tranclp.cases tranclp_into_rtranclp rtranclp.rtrancl_refl)
  obtain y s where ys: "f = (y, s)" by fastforce
  have live: "live T y" using walks_live [OF f(1) e] ys by simp
  obtain k where k: "k \<noteq> unat s" "unat (of_nat k :: source) = k" "live T x" "unat r < length (conns T x)" "r \<noteq> 0"
    "Connection_broker T (conn T x (unat r)) = Some y" "conn_source (conn T x (unat r)) = of_nat k"
    by (rule hop_back [OF T live f(2) [unfolded ys]]) blast
  show "live T x" "unat r < length (conns T x)" "r \<noteq> 0" by fact+
  have "of_nat k \<noteq> s" using k(1,2) by metis
  then show "\<exists>y s. walks T e (y, s) \<and> Connection_broker T (conn T x (unat r)) = Some y \<and>
      conn_source (conn T x (unat r)) \<noteq> s"
    using f(1) ys k(6,7) by auto
qed

lemma refreshConnections_informs:
  assumes T: "settled T" "loopless T" and b: "live T b" "bounded (Suc n) T b p" and call: "informs T n (BrokerBase_refresh n)"
    and v: "within T v" "open_from T v (b, p)"
    and run: "Broker_refreshConnections (BrokerBase_refresh n) b p v = Inr v'"
  shows "mends T v v' \<and> same_state v v' \<and> spares T (walks_on T (b, p)) v v' \<and> tells (walks_on T (b, p)) v'"
proof -
  define upto where "upto k e \<longleftrightarrow> (\<exists>i < k. branch T b p i e)" for k e
  define P where "P k u \<longleftrightarrow> mends T v u \<and> same_state v u \<and> spares T (upto k) v u \<and> tells (upto k) u" for k u
  have wired: "wired T" using T(1) by (simp add: settled_iff)
  have len: "1 \<le> length (conns T b)" using wired_live(1) [OF wired b(1)] by (cases "conns T b") simp_all
  have "Connection_broker T (conn T b 0) = None"
    using wired_conn(1) [OF wired b(1), of 0] wired_live(1) [OF wired b(1)]
    by (cases "conn_broker (conn T b 0)") (auto simp: Connection_broker_def)
  then have first: "\<not> upto 1 e" for e by (simp add: upto_def branch_def)
  have later: "upto (Suc k) e \<longleftrightarrow> upto k e \<or> branch T b p k e" for k e
    by (auto simp: upto_def less_Suc_eq)
  have run: "forEach [1..<length (conns T b)] (announced (BrokerBase_refresh n) b p) v = Inr v'"
    using run v(1) b(1) by (simp add: refreshConnections_announced within_def)
  then have "P (length (conns T b)) v'"
  proof (rule forEach_upto [OF _ len])
    show "P 1 v" using mends_refl [OF v(1)] quiet.refl first by (simp add: P_def tells_def spares_def)
  next
    fix i u u' assume i: "1 \<le> i" "i < length (conns T b)" and u: "P i u"
      and step: "announced (BrokerBase_refresh n) b p i u = Inr u'"
    have to_u: "mends T v u" "same_state v u" "spares T (upto i) v u" "tells (upto i) u" using u by (simp_all add: P_def)
    have within: "within T u" by (rule mends_within [OF to_u(1)])
    have "live T (fst (b, p))" using b(1) by simp
    then have open_u: "open_from T u (b, p)" by (rule open_mends [OF v(2) to_u(1)])
    have called: "mends T u u'" "same_state u u'" "spares T (branch T b p i) u u'" "tells (branch T b p i) u'"
      using announced_informs [OF T b call within open_u _ i(2) step] i(1) by simp_all
    have "told_right u' x (unat r)" if x: "upto i (x, r)" for x r
    proof -
      obtain i' where i': "i' < i" "branch T b p i' (x, r)" using x by (auto simp: upto_def)
      have on: "walks_on T (b, p) (x, r)" using i'(2) walks_on_branch by blast
      have b': "live T (fst (b, p))" using b(1) by simp
      note port = walks_on_port [OF T(1) on b']
      have xr: "walks T (b, p) (x, r)" using on by (rule tranclp_into_rtranclp)
      have ends: "ends (conn u x (unat r)) = ends (conn T x (unat r))"
        using open_u [unfolded open_from_def] xr port(2) by blast
      have "told_right u' x (unat r) = told_right u x (unat r)"
      proof (rule told_spared [OF T(1) within called(1,2) port(1,2) called(3)])
        show "\<not> branch T b p i (x, of_nat (unat r))"
          using branch_unique [OF T b i'(2)] i'(1) by auto
        fix y k assume y: "Connection_broker u (conn u x (unat r)) = Some y"
          and k: "k < length (conns T y)"
        have "conn_broker (conn T x (unat r)) = Some y" "live T y"
          using y ends within by (auto simp: Connection_broker_live ends_def within_def)
        then have "Connection_broker T (conn T x (unat r)) = Some y" by (simp add: Connection_broker_live)
        then show "\<not> branch T b p i (y, of_nat k)"
        proof (rule branch_from [OF T(1) b(1) i'(2)])
          assume "y = b"
          then show ?thesis using branch_away(1) [OF T b] by blast
        next
          fix s assume s: "branch T b p i' (y, s)"
          show ?thesis
          proof
            assume "branch T b p i (y, of_nat k)"
            moreover from this have "s = of_nat k"
              using unique_arrival [OF T b branch_away(2) [OF T b s], of "of_nat k"] branch_away(2) [OF T b] by simp
            ultimately show False using branch_unique [OF T b s, of i] i'(1) by simp
          qed
        qed
      qed
      then show ?thesis using to_u(4) x by (simp add: tells_def)
    qed
    then have "tells (upto (Suc i)) u'" using called(4) by (auto simp: tells_def later)
    moreover have "spares T (upto (Suc i)) v u'"
      using spares_mono [OF spares_trans [OF to_u(3) called(3)], of "upto (Suc i)"] later by blast
    ultimately show "P (Suc i) u'"
      using mends_trans [OF to_u(1) called(1)] same_state_trans [OF to_u(2) called(2)] by (simp add: P_def)
  qed
  moreover have "upto (length (conns T b)) e \<longleftrightarrow> walks_on T (b, p) e" for e
    unfolding walks_on_branch upto_def by (auto simp: branch_def)
  ultimately show ?thesis by (simp add: P_def spares_def tells_def)
qed

lemma refresh_informs:
  assumes T: "settled T" "loopless T"
  shows "informs T n (BrokerBase_refresh n)"
proof (induction n)
  case 0
  show ?case by (simp add: informs_def)
next
  case (Suc n)
  show ?case unfolding informs_def
  proof (intro allI impI)
    fix b w w' ok and d :: connection and p :: source
    assume w: "within T w" "live T b" and p: "unat p < length (conns T b)" "p \<noteq> 0"
      and d: "conn_source d = conn_source (conn T b (unat p))"
      and enough: "bounded (Suc n) T b p" and open_w: "open_from T w (b, p)"
      and call: "BrokerBase_refresh (Suc n) b d p w = Inr (ok, w')"
    define u where "u = set_conn b (unat p) (heard d) w"
    have here: "live w b" "length (conns w b) = length (conns T b)" using w by (simp_all add: within_def)
    have u: "mends T w u" unfolding u_def by (rule mends_heard [OF w p(1) d])
    have run: "Broker_refreshConnections (BrokerBase_refresh n) b p u = Inr w'"
      using call p here(2) by (auto simp: Broker_refresh_def u_def heard_def [abs_def] cashmere_errors)
    have b: "live T (fst (b, p))" using w(2) by simp
    have called: "mends T u w'" "same_state u w'" "spares T (walks_on T (b, p)) u w'" "tells (walks_on T (b, p)) w'"
      using refreshConnections_informs [OF T w(2) enough Suc.IH mends_within [OF u] open_mends [OF open_w u b] run]
      by blast+
    have "same_state w u" using quiet.told [OF p(2), of w b d] by (simp add: u_def)
    moreover have "spares T (\<lambda>e. e = (b, p)) w u"
      using here p(1) by (auto simp: spares_def u_def conn_set_conn)
    from spares_trans [OF this called(3)] have "spares T (walks T (b, p)) w w'"
      by (rule spares_mono) (auto intro: tranclp_into_rtranclp)
    moreover have "conn w' b (unat p) = conn u b (unat p)"
    proof -
      have "\<not> walks_on T (b, p) (b, of_nat (unat p))" using no_return [OF T w(2) enough] by blast
      then show ?thesis using called(3) w(2) p(1) by (simp add: spares_def)
    qed
    then have "conn_sources (conn w' b (unat p)) = conn_sources d"
      using here p(1) by (simp add: u_def conn_set_conn heard_def)
    ultimately show "mends T w w' \<and> same_state w w' \<and> spares T (walks T (b, p)) w w' \<and>
        tells (walks_on T (b, p)) w' \<and> conn_sources (conn w' b (unat p)) = conn_sources d"
      using mends_trans [OF u called(1)] same_state_trans [OF _ called(2)] called(4) by blast
  qed
qed

end
