(* ===== verification/Routes.thy ===== *)
theory Routes
  imports Informing
begin

text \<open>
  Networks whose routes are right. A network is set up by connecting its brokers before any of them has
  an entry; each \<open>connect\<close> then leaves every note about journals right, on both sides of the new
  connection. The walks from the caller divide the ports into those that are told on the way out and
  those that keep what they know.
\<close>

section \<open>Networks that are being set up\<close>

definition unused :: "world \<Rightarrow> bool" where
  "unused w \<longleftrightarrow> list_all (\<lambda>(a, b). Broker_clock w a = om_empty \<and> b_entries b = om_empty) (entries (w_brokers w))"

lemma unused_live: "unused w \<longleftrightarrow> (\<forall>a. live w a \<longrightarrow> Broker_clock w a = om_empty \<and> b_entries (broker_at w a) = om_empty)"
  using broker_at_entries [of _ _ w] by (fastforce simp: unused_def list_all_iff live_entries)

lemma unused_entries: "unused w \<Longrightarrow> live w a \<Longrightarrow> BrokerBase_entries w a = []"
  by (simp add: unused_live BrokerBase_entries_def Journal_entries_def JournalFile_entries_def split: kind.split)

lemma unused_query:
  assumes "unused w"
  shows "live w a \<Longrightarrow> BrokerBase_query n w a c s = Inr es \<Longrightarrow> es = []"
proof (induction n arbitrary: a s es)
  case (Suc n)
  show ?case
  proof (cases "b_kind (broker_at w a) = Hub")
    case True
    then have run: "Broker_query (BrokerBase_query n) w a c s = Inr es" using Suc.prems(2) by simp
    show ?thesis
    proof (cases "find (\<lambda>i. \<not> (i = unat s \<or> conn_sources (conn w a i) = om_empty)
        \<and> Connection_valid w (conn w a i)) [1..<length (conns w a)]")
      case None
      then show ?thesis using run by (simp add: Broker_query_def)
    next
      case (Some i)
      then have "Connection_valid w (conn w a i)" using find_member by fastforce
      then obtain b where b: "Connection_broker w (conn w a i) = Some b" by (auto simp: Connection_valid_def)
      then have "live w b" by (simp add: Connection_broker_live)
      moreover have "BrokerBase_query n w b c (conn_source (conn w a i)) = Inr es"
        using run Some b by (simp add: Broker_query_def Connection_query_def)
      ultimately show ?thesis by (rule Suc.IH)
    qed
  next
    case False
    then show ?thesis using Suc.prems unused_entries [OF assms Suc.prems(1)] by (simp add: JournalBase_query_def)
  qed
qed simp

lemma unused_exchange:
  assumes "unused z" and "live z a" and "Broker_exchange n a p z = Inr w'"
    and "Connection_broker z (conn z a (unat p)) = Some b"
  shows "Broker_refreshConnections (BrokerBase_refresh n) a p z = Inr w'"
proof -
  obtain es fs where q: "BrokerBase_query n z a (conn_version (conn z a (unat p))) p = Inr es"
    "Connection_query (BrokerBase_query n) z (conn z a (unat p)) (Broker_clock z a) = Inr fs"
    using assms(3) by (auto simp: Broker_exchange_def cashmere_errors)
  have "live z b" using assms(4) by (simp add: Connection_broker_live)
  then have "es = []" "fs = []"
    using unused_query [OF assms(1)] assms(2,4) q by (auto simp: Connection_query_def)
  then show ?thesis using assms(3) q by (simp add: Broker_exchange_def)
qed

lemma same_state_unused: "same_state w w' \<Longrightarrow> (\<And>x. live w' x = live w x) \<Longrightarrow> unused w \<Longrightarrow> unused w'"
  by (simp add: unused_live same_state_def)

lemma same_net_within: "same_net T w \<Longrightarrow> within T w"
proof -
  assume same: "same_net T w"
  then have wires: "wiring w = wiring T" by (simp add: same_net_def)
  have "fst (frame (broker_at w a)) = fst (frame (broker_at T a))" for a using wiring_frame [OF wires, of a] by simp
  moreover have "port_within T w a i" if "i < length (conns T a)" for a i
    using wiring_ends [OF wires, of a i] wiring_length [OF wires, of a] that by (simp add: port_within_def)
  ultimately show ?thesis
    using same wiring_live [OF wires] wiring_length [OF wires] by (simp add: within_def same_net_def)
qed

section \<open>The two sides of a new connection\<close>

lemma joined_conns:
  assumes "a \<noteq> b" and "live w a" and "live w b"
  shows "conn (joined a b w) a (length (conns w a)) = (Connection_to (Some b))\<lparr>conn_source := new_port w b\<rparr>"
    and "conn (joined a b w) b (length (conns w b)) = (Connection_to (Some a))\<lparr>conn_source := new_port w a\<rparr>"
    and "i < length (conns w x) \<Longrightarrow> conn (joined a b w) x i = conn w x i"
    and "length (conns (joined a b w) x) = length (conns w x) + (if x = a \<or> x = b then 1 else 0)"
  using assms by (auto simp: conns_joined nth_append)

lemma joined_loopless:
  assumes "a \<noteq> b" and "live w a" and "live w b" and "loopless w"
  shows "loopless (joined a b w)"
  unfolding loopless_live
proof (intro allI impI)
  fix x i assume x: "live (joined a b w) x" and i: "i < length (conns (joined a b w) x)"
  show "conn_broker (conn (joined a b w) x i) \<noteq> Some x"
  proof (cases "i < length (conns w x)")
    case True
    then show ?thesis using assms(4) x by (simp add: loopless_live joined_conns(3) [OF assms(1-3)])
  next
    case False
    then have "x = a \<and> i = length (conns w a) \<or> x = b \<and> i = length (conns w b)"
      using i joined_conns(4) [OF assms(1-3), of x] by (auto split: if_splits)
    then show ?thesis using joined_conns(1,2) [OF assms(1-3)] assms(1) by (auto simp: Connection_to_def)
  qed
qed

text \<open>Seen from the front of \<open>a\<close>, the ports are entered through the new connection or through one of the
  old ones.\<close>

lemma joined_root:
  assumes T: "settled T" and a: "live T a" and l: "l < length (conns T a)" "unat q = l" "l \<noteq> 0"
    and enough: "bounded n T a q" "case Connection_broker T (conn T a l) of None \<Rightarrow> True
      | Some b \<Rightarrow> bounded n T b (conn_source (conn T a l))"
  shows "bounded (Suc n) T a 0"
    and "walks_on T (a, q) e \<longleftrightarrow> (\<exists>i. i \<noteq> l \<and> branch T a 0 i e)"
proof -
  have wired: "wired T" using T by (simp add: settled_iff)
  obtain m where n: "n = Suc m" using enough(1) by (cases n) simp_all
  have "port_bounded n T a i" if "0 < i" "i < length (conns T a)" for i
  proof (cases "i = l")
    case True
    then show ?thesis using enough(2) by (simp add: port_bounded_def)
  next
    case False
    then have "port_bounded m T a i" using bounded_ports [OF wired a, of m q] enough(1) n that l(2) by auto
    then show ?thesis by (auto simp: port_bounded_def n bounded_mono simp del: bounded.simps split: option.splits)
  qed
  then show "bounded (Suc n) T a 0" using bounded_ports [OF wired a] by blast
  have "\<not> branch T a p 0 e" for p
    using wired_conn(1) [OF wired a, of 0] by (auto simp: branch_def Connection_broker_live)
  then show "walks_on T (a, q) e \<longleftrightarrow> (\<exists>i. i \<noteq> l \<and> branch T a 0 i e)"
    unfolding walks_on_branch using l(2) by (metis branch_def unat_0)
qed

section \<open>\<open>connect\<close> makes the notes right\<close>

lemma same_state_sources:
  assumes state: "same_state v w" and live: "\<And>x. live w x = live v x" and y: "live v y"
    and len: "length (conns w y) = length (conns v y)"
    and conns: "\<And>i. i < length (conns v y) \<Longrightarrow> i \<noteq> unat k \<or> i = 0 \<Longrightarrow> conn w y i = conn v y i"
  shows "BrokerBase_sources w y k = BrokerBase_sources v y k"
  by (rule sources_same [OF live len _ _ _ conns]) (use state y in \<open>auto simp: same_state_def frame_def\<close>)

text \<open>What is behind a port that the walks from the front of \<open>a\<close> do not enter.\<close>

lemma untouched_far:
  assumes T: "settled T" and a: "live T a" and v: "live T v" "i < length (conns T v)"
    and u: "Connection_broker T (conn T v i) = Some u" and outside: "\<not> walks_on T (a, 0) (v, of_nat i)"
  shows "walks_on T (a, 0) (u, s) \<Longrightarrow> s = conn_source (conn T v i)" and "u \<noteq> a" and "live T u"
    and "conn_broker (conn T u (unat (conn_source (conn T v i)))) = Some v"
    and "conn_source (conn T u (unat (conn_source (conn T v i)))) = of_nat i"
proof -
  let ?k = "conn_source (conn T v i)"
  have wired: "wired T" using T by (simp add: settled_iff)
  have broker: "conn_broker (conn T v i) = Some u" using u by (simp add: Connection_broker_live)
  note far = wired_conn [OF wired v broker]
  show "live T u" "conn_broker (conn T u (unat ?k)) = Some v" by (rule far(2), rule far(4))
  show named: "conn_source (conn T u (unat ?k)) = of_nat i"
    using settled_live(3) [OF T v] broker by (simp add: named_back_def)
  have step: "hop T (u, s) (v, of_nat i)" if "s \<noteq> ?k" for s
  proof -
    have "unat ?k \<noteq> unat s" using that by (metis word_unat_eq_iff)
    then show ?thesis using far(3,4) named v(1) by (auto simp: hop_def Connection_broker_live)
  qed
  show "walks_on T (a, 0) (u, s) \<Longrightarrow> s = ?k"
    using step [of s] outside by (auto intro: tranclp.trancl_into_trancl)
  have "?k \<noteq> 0" using wired_conn(1) [OF wired far(2,3,4)] by auto
  then show "u \<noteq> a" using step [of 0] outside by auto
qed

lemma told_untouched:
  assumes T: "settled T" and w: "settled w" and a: "live T a" and v: "live T v" "i < length (conns T v)"
    and outside: "\<not> walks_on T (a, 0) (v, of_nat i)" "\<not> (v = a \<and> i = l)"
    and b: "walks_on T (a, 0) (b, q)" "conn_source (conn T b (unat q)) = of_nat l" "l < 2 ^ 32"
      "conn_broker (conn T b (unat q)) = Some a"
    and state: "same_state w w'" and live: "\<And>x. live w' x = live T x" "\<And>x. live w x = live T x"
    and ends: "ends (conn w' v i) = ends (conn T v i)"
    and len: "\<And>x. live T x \<Longrightarrow> length (conns w' x) = length (conns T x)"
      "\<And>x. x \<noteq> a \<Longrightarrow> x \<noteq> b \<Longrightarrow> length (conns w x) = length (conns T x)"
    and keep: "\<And>x j. live T x \<Longrightarrow> j < length (conns T x) \<Longrightarrow> \<not> walks_on T (a, 0) (x, of_nat j) \<Longrightarrow>
      \<not> (x = a \<and> j = l) \<Longrightarrow> j < length (conns w x) \<and> conn w' x j = conn w x j"
  shows "told_right w' v i = told_right w v i"
proof (rule told_right_same)
  note here = keep [OF v outside]
  show "live w' x = live w x" for x by (simp add: live)
  show "conn w' v i = conn w v i" using here by simp
  fix u assume "Connection_broker w (conn w v i) = Some u"
  then have "conn_broker (conn T v i) = Some u" "live T u"
    using here ends live by (simp_all add: Connection_broker_live ends_def)
  then have "Connection_broker T (conn T v i) = Some u" by (simp add: Connection_broker_live)
  note far = untouched_far [OF T a v this outside(1)]
  have k: "conn_source (conn w v i) = conn_source (conn T v i)" using here ends by (simp add: ends_def)
  have "u \<noteq> b"
  proof
    assume "u = b"
    then have "conn_source (conn T v i) = q" using far(1) b(1) by blast
    then have "v = a \<and> (of_nat i :: source) = of_nat l" using far(4,5) b(2,4) \<open>u = b\<close> by simp
    moreover have "unat (of_nat i :: source) = i"
      using v(2) settled_live(2) [OF T v(1)] by (intro unat_port) linarith
    ultimately show False using outside(2) unat_port [of l] b(3) by metis
  qed
  show "BrokerBase_sources w' u (conn_source (conn w v i)) = BrokerBase_sources w u (conn_source (conn w v i))"
    unfolding k
  proof (rule same_state_sources [OF state])
    show "live w' x = live w x" for x by (simp add: live)
    show "live w u" using far(3) live by simp
    show lenu: "length (conns w' u) = length (conns w u)" using len far(2,3) \<open>u \<noteq> b\<close> by simp
    fix j assume j: "j < length (conns w u)" "j \<noteq> unat (conn_source (conn T v i)) \<or> j = 0"
    have "unat (of_nat j :: source) = j"
      using j(1) settled_live(2) [OF w, of u] far(3) live by (intro unat_port) simp
    moreover have "r \<noteq> 0" if "walks_on T (a, 0) (u, r)" for r
      using walks_on_port(3) [OF T that] a by simp
    ultimately have "\<not> walks_on T (a, 0) (u, of_nat j)" using far(1) j(2) by fastforce
    then show "conn w' u j = conn w u j" using keep [of u j] far(2,3) j(1) lenu len(1) by simp
  qed
qed

text \<open>A port that was told right by an announcement stays so while the brokers behind it stay.\<close>

lemma told_carried:
  assumes T: "settled T" and e: "live T (fst e)" and on: "walks_on T e (x, r)" and told: "told_right y x (unat r)"
    and state: "same_state y w" and live: "\<And>v. live w v = live T v" "\<And>v. live y v = live T v"
    and len: "\<And>v. live T v \<Longrightarrow> length (conns w v) = length (conns T v)"
      "\<And>v. live T v \<Longrightarrow> length (conns y v) = length (conns T v)"
    and ends: "ends (conn w x (unat r)) = ends (conn T x (unat r))"
    and kept: "\<And>v s i. walks T e (v, s) \<Longrightarrow> i < length (conns T v) \<Longrightarrow> conn w v i = conn y v i"
  shows "told_right w x (unat r)"
proof -
  note port = walks_on_port [OF T on e]
  have same: "conn w x (unat r) = conn y x (unat r)"
    using kept [OF tranclp_into_rtranclp [OF on] port(2)] .
  have "told_right w x (unat r) = told_right y x (unat r)"
  proof (rule told_right_same [OF _ same])
    show "live w v = live y v" for v by (simp add: live)
    fix u assume "Connection_broker y (conn y x (unat r)) = Some u"
    then have "conn_broker (conn T x (unat r)) = Some u" "live T u"
      using ends same live by (simp_all add: Connection_broker_live ends_def)
    then have "Connection_broker T (conn T x (unat r)) = Some u" by (simp add: Connection_broker_live)
    then obtain s where s: "walks T e (u, s)" using port(4) by auto
    then have "live T u" using walks_live [OF s] e by simp
    then show "BrokerBase_sources w u (conn_source (conn y x (unat r))) =
        BrokerBase_sources y u (conn_source (conn y x (unat r)))"
      using len [of u] kept [OF s] by (intro same_state_sources [OF state]) (simp_all add: live)
  qed
  then show ?thesis using told by simp
qed

text \<open>What a call of \<open>connect\<close> writes, on its way over \<open>y\<close>, in which the called broker has announced the
  new connection on its side: nothing at the ports that no walk from the front of the caller
  enters, and after \<open>y\<close> nothing more on the side of the called broker.\<close>

lemma connect_writes:
  assumes w: "settled w" "loopless w" "unused w" and ab: "a \<noteq> b" "live w a" "live w b"
    and room: "length (conns w a) < 2 ^ 32" "length (conns w b) < 2 ^ 32"
    and enough: "bounded n (joined a b w) a (new_port w a)" "bounded n (joined a b w) b (new_port w b)"
    and connect: "BrokerBase_connect (Suc n) a (Connection_to (Some b)) w = Inr (out, w')"
    and T: "T = joined a b w" and la: "la = length (conns w a)" and lb: "lb = length (conns w b)"
    and na: "na = new_port w a" and nb: "nb = new_port w b"
  obtains y where "same_net T w'" and "same_state w w'" and "same_state y w'"
    and "\<And>v. live y v = live T v" and "\<And>v. live T v \<Longrightarrow> length (conns y v) = length (conns T v)"
    and "tells (walks_on T (b, nb)) y" and "tells (walks_on T (a, na)) w'"
    and "\<And>v i. live T v \<Longrightarrow> i < length (conns T v) \<Longrightarrow> \<not> walks_on T (a, 0) (v, of_nat i) \<Longrightarrow> \<not> (v = a \<and> i = la) \<Longrightarrow>
      i < length (conns w v) \<and> conn w' v i = conn w v i"
    and "\<And>v r i. walks T (b, nb) (v, r) \<Longrightarrow> i < length (conns T v) \<Longrightarrow> conn w' v i = conn y v i"
    and "distances (conn_sources (conn w' b lb)) =
      distances (offer (push_conn a (Connection_to (Some b)) w) a na)"
    and "conn_sources (conn w' a la) = offer y b nb"
proof -
  note T_def = T and la_def = la and lb_def = lb and na_def = na and nb_def = nb
  have T: "settled T" "loopless T"
    unfolding T_def by (rule joined_settled [OF w(1) ab room], rule joined_loopless [OF ab w(2)])
  have wired: "wired w" using w(1) by (simp add: settled_iff)
  have front: "conns w a \<noteq> []" "conns w b \<noteq> []" using wired_live(1) [OF wired] ab by simp_all
  have port: "unat na = la" "unat nb = lb" "la \<noteq> 0" "lb \<noteq> 0" "na = of_nat la" "nb = of_nat lb"
    using room front by (simp_all add: na_def nb_def la_def lb_def new_port_def unat_port)
  have liveT: "live T x = live w x" for x by (simp add: T_def)
  note new = joined_conns [OF ab, folded T_def la_def lb_def na_def nb_def]
  have len: "la < length (conns T a)" "lb < length (conns T b)" using new(4) by (simp_all add: la_def lb_def)
  have far: "Connection_broker T (conn T a la) = Some b" "conn_source (conn T a la) = nb"
    using new(1) ab(3) by (simp_all add: Connection_broker_live Connection_to_def liveT)
  have bound: "bounded n T a na" "bounded n T b nb" using enough by (simp_all add: T_def na_def nb_def)
  have a: "live T a" "bounded (Suc n) T a 0" and b: "live T b"
    and old: "\<And>e. walks_on T (a, na) e \<longleftrightarrow> (\<exists>i. i \<noteq> la \<and> branch T a 0 i e)"
    using joined_root [OF T(1) _ len(1) port(1,3) bound(1)] far bound(2) ab by (simp_all add: liveT)
  have across: "branch T a 0 la e \<longleftrightarrow> walks T (b, nb) e" for e
    using far len(1) port(3) by (simp add: branch_def)
  define away where "away = walks_on T (a, 0)"
  have away: "away e \<longleftrightarrow> (\<exists>i. branch T a 0 i e)" for e by (simp add: away_def walks_on_branch)
  show thesis
  proof (rule connect_steps [OF w(1) ab room enough(2)])
    fix m c x y other z
    assume n: "n = Suc m" and x: "x = half_joined a b c w" and c: "ends c = (Some a, new_port w a)"
      "conn_sources c = learn (Broker_clock w b)
        (UpdateProvides (BrokerBase_sources (push_conn a (Connection_to (Some b)) w) a (new_port w a)))"
      and wx: "same_state w x" and y_run: "Broker_refreshConnections (BrokerBase_refresh m) b (new_port w b) x = Inr y"
      and xy: "mends (joined a b w) x y"
      and other: "conn_source other = new_port w b"
        "conn_sources other = UpdateProvides (BrokerBase_sources y b (new_port w b))"
      and z: "z = set_conn a (length (conns w a)) (heard other) y"
      and steps: "BrokerBase_connect (Suc n) a (Connection_to (Some b)) w =
        andThen (Broker_exchange n a (new_port w a) z)
          (\<lambda>w'. Inr ((Connection_to (Some a))\<lparr>conn_source := new_port w a\<rparr>, w'))"
      and Tz: "same_net (joined a b w) z" and wz: "same_state w z"
    note half = half_joined_within [OF ab c(1), folded x T_def la_def]
    have open_x: "open_from T x (b, nb)"
      unfolding open_from_def
    proof (intro allI impI)
      fix v r i assume v: "walks T (b, nb) (v, r)" and i: "i < length (conns T v)"
      have "v \<noteq> a" using branch_away(1) [OF T a] across v by blast
      moreover have "live w v" using walks_live [OF v] b by (simp add: liveT)
      ultimately show "ends (conn x v i) = ends (conn T v i)" using half(2) i by simp
    qed
    have y_told: "same_state x y" "spares T (walks_on T (b, nb)) x y" "tells (walks_on T (b, nb)) y"
      using refreshConnections_informs [OF T b bound(2) [unfolded n] refresh_informs [OF T] half(1) open_x]
        y_run by (simp_all add: nb_def)
    have zT: "within T z" "\<And>v. live z v = live T v" "\<And>v. length (conns z v) = length (conns T v)"
      using same_net_within [OF Tz] wiring_live [of z T] wiring_length [of z T] Tz
      by (simp_all add: T_def same_net_def)
    have open_z: "open_from T z (a, na)"
      using wiring_ends [of z T] Tz zT(3) unfolding open_from_def ends_def T_def same_net_def by (metis not_le)
    have far_z: "Connection_broker z (conn z a (unat na)) = Some b"
      using joined_far(2) [OF ab Tz] by (simp add: port(1) la_def)
    have run: "Broker_refreshConnections (BrokerBase_refresh n) a na z = Inr w'"
    proof (rule unused_exchange [OF _ _ _ far_z])
      show "unused z" by (rule same_state_unused [OF wz _ w(3)]) (simp add: zT(2) liveT)
      show "live z a" using a(1) by (simp add: zT(2))
      show "Broker_exchange n a na z = Inr w'" using connect unfolding steps by (auto simp: na_def cashmere_errors)
    qed
    have w'_told: "mends T z w'" "same_state z w'" "spares T (walks_on T (a, na)) z w'" "tells (walks_on T (a, na)) w'"
      using refreshConnections_informs [OF T a(1) bounded_mono [OF bound(1)] refresh_informs [OF T] zT(1) open_z run]
      by blast+
    have ww': "same_state w w'" using same_state_trans [OF wz w'_told(2)] .
    have net: "same_net T w'"
      by (rule connect_total [OF w(1) ab room enough])
        (use connect same_net_trans in \<open>auto simp: T_def\<close>)
    have live: "live w' v = live T v" "live y v = live T v" "live x v = live T v" for v
      using wiring_live [of w' T] net mends_within [OF xy] half(1) by (simp_all add: same_net_def within_def T_def)
    have lens: "length (conns w' v) = length (conns T v)" "length (conns y v) = length (conns T v)" if "live T v" for v
      using wiring_length [of w' T] net mends_within [OF xy] that by (simp_all add: same_net_def within_def T_def)
    have ends': "ends (conn w' v i) = ends (conn T v i)" if "live T v" "i < length (conns T v)" for v i
      using wiring_ends [of w' T v i] net lens(1) [OF that(1)] that(2) by (auto simp: ends_def same_net_def)
    have state: "same_state y w'"
    proof -
      have "na \<noteq> 0" using port(1,3) by auto
      have "same_state y z" unfolding z using quiet.told [OF \<open>na \<noteq> 0\<close>, of y a other] by (simp add: port(1) la_def)
      then show ?thesis using w'_told(2) same_state_trans by blast
    qed

    have keep: "i < length (conns w v) \<and> conn w' v i = conn w v i"
      if v: "live T v" "i < length (conns T v)" "\<not> away (v, of_nat i)" "\<not> (v = a \<and> i = la)" for v i
    proof -
      have "\<not> (v = b \<and> i = lb)"
        using v(3) across [of "(b, nb)"] away port(6) by auto
      then have old_i: "i < length (conns w v)"
        using v(2,4) new(4) [of v] by (auto simp: la_def lb_def split: if_splits)
      have "conn x v i = conn w v i"
        using old_i ab by (auto simp: x half_joined_def conns_push nth_append)
      moreover have "\<not> walks_on T (b, nb) (v, of_nat i)"
        using v(3) across away tranclp_into_rtranclp by metis
      then have "conn y v i = conn x v i" using y_told(2) v(1,2) by (simp add: spares_def)
      moreover have "conn z v i = conn y v i"
        using v(1,2,4) a(1) len(1) lens(2) live(2) unfolding z by (subst conn_set_conn) (auto simp: la_def)
      moreover have "\<not> walks_on T (a, na) (v, of_nat i)" using v(3) old away by blast
      then have "conn w' v i = conn z v i" using w'_told(3) v(1,2) by (simp add: spares_def)
      ultimately show ?thesis using old_i by simp
    qed

    have settled_b: "conn w' v i = conn y v i" if v: "walks T (b, nb) (v, r)" and i: "i < length (conns T v)" for v r i
    proof -
      have branch: "branch T a 0 la (v, r)" using v across by blast
      have "live T v" using walks_live [OF v] b by simp
      have "v \<noteq> a" by (rule branch_away(1) [OF T a branch])
      then have "conn z v i = conn y v i"
        using a(1) len(1) lens(2) live(2) unfolding z by (subst conn_set_conn) (auto simp: la_def)
      moreover have "\<not> walks_on T (a, na) (v, of_nat i)"
      proof
        assume "walks_on T (a, na) (v, of_nat i)"
        then obtain i' where i': "i' \<noteq> la" "branch T a 0 i' (v, of_nat i)" using old by blast
        then have "of_nat i = r"
          using unique_arrival [OF T a branch_away(2) [OF T a i'(2)]] branch_away(2) [OF T a branch] by simp
        then show False using branch_unique [OF T a i'(2)] branch i'(1) by blast
      qed
      then have "conn w' v i = conn z v i" using w'_told(3) \<open>live T v\<close> i by (simp add: spares_def)
      ultimately show ?thesis by simp
    qed
    have not_away: "\<not> away (a, s)" for s using no_return [OF T a] by (simp add: away_def)
    have "conn x b lb = c" using ab by (simp add: x half_joined_def conns_push nth_append lb_def)
    moreover have "\<not> walks_on T (b, nb) (b, of_nat lb)" using no_return [OF T b bound(2)] by blast
    then have "conn y b lb = conn x b lb" using y_told(2) b len(2) by (simp add: spares_def)
    ultimately have "conn w' b lb = c" using settled_b [of b nb lb] len(2) by simp
    then have at_b: "distances (conn_sources (conn w' b lb)) =
        distances (offer (push_conn a (Connection_to (Some b)) w) a na)"
      by (simp add: c(2) na_def)
    have "\<not> walks_on T (a, na) (a, of_nat la)" using not_away old away by blast
    then have "conn w' a la = heard other (conn y a la)"
      using w'_told(3) a(1) len(1) lens(2) live(2) by (simp add: spares_def z conn_set_conn la_def)
    then have at_a: "conn_sources (conn w' a la) = offer y b nb" by (simp add: heard_def other(2) nb_def)
    show thesis
      by (rule that [OF net ww' state live(2) lens(2) y_told(3) w'_told(4) _ settled_b at_b at_a])
        (use keep in \<open>auto simp: away_def\<close>)
  qed
qed

lemma connect_informs:
  assumes w: "settled w" "loopless w" "informed w" "unused w" and ab: "a \<noteq> b" "live w a" "live w b"
    and room: "length (conns w a) < 2 ^ 32" "length (conns w b) < 2 ^ 32"
    and enough: "bounded n (joined a b w) a (new_port w a)" "bounded n (joined a b w) b (new_port w b)"
    and connect: "BrokerBase_connect (Suc n) a (Connection_to (Some b)) w = Inr (out, w')"
  shows "informed w' \<and> same_state w w' \<and> same_net (joined a b w) w'"
proof -
  define T where "T = joined a b w"
  define la where "la = length (conns w a)"
  define lb where "lb = length (conns w b)"
  define na where "na = new_port w a"
  define nb where "nb = new_port w b"
  have T: "settled T" "loopless T"
    unfolding T_def by (rule joined_settled [OF w(1) ab room], rule joined_loopless [OF ab w(2)])
  have wired: "wired w" using w(1) by (simp add: settled_iff)
  have front: "conns w a \<noteq> []" "conns w b \<noteq> []" using wired_live(1) [OF wired] ab by simp_all
  have port: "unat na = la" "unat nb = lb" "la \<noteq> 0" "lb \<noteq> 0" "na = of_nat la" "nb = of_nat lb"
    using room front by (simp_all add: na_def nb_def la_def lb_def new_port_def unat_port)
  have liveT: "live T x = live w x" for x by (simp add: T_def)
  note new = joined_conns [OF ab, folded T_def la_def lb_def na_def nb_def]
  have len: "la < length (conns T a)" "lb < length (conns T b)" using new(4) by (simp_all add: la_def lb_def)
  have far: "Connection_broker T (conn T a la) = Some b" "conn_source (conn T a la) = nb"
    using new(1) ab(3) by (simp_all add: Connection_broker_live Connection_to_def liveT)
  have bound: "bounded n T a na" "bounded n T b nb" using enough by (simp_all add: T_def na_def nb_def)
  have a: "live T a" "bounded (Suc n) T a 0" and b: "live T b"
    and old: "\<And>e. walks_on T (a, na) e \<longleftrightarrow> (\<exists>i. i \<noteq> la \<and> branch T a 0 i e)"
    using joined_root [OF T(1) _ len(1) port(1,3) bound(1)] far bound(2) ab by (simp_all add: liveT)
  have across: "branch T a 0 la e \<longleftrightarrow> walks T (b, nb) e" for e
    using far len(1) port(3) by (simp add: branch_def)
  define away where "away = walks_on T (a, 0)"
  have away: "away e \<longleftrightarrow> (\<exists>i. branch T a 0 i e)" for e by (simp add: away_def walks_on_branch)
  have not_away: "\<not> away (a, s)" for s using no_return [OF T a] by (simp add: away_def)
  obtain y where net: "same_net T w'" and ww': "same_state w w'" and state: "same_state y w'"
    and y: "\<And>v. live y v = live T v" "\<And>v. live T v \<Longrightarrow> length (conns y v) = length (conns T v)"
    and told: "tells (walks_on T (b, nb)) y" "tells (walks_on T (a, na)) w'"
    and keep: "\<And>v i. live T v \<Longrightarrow> i < length (conns T v) \<Longrightarrow> \<not> away (v, of_nat i) \<Longrightarrow> \<not> (v = a \<and> i = la) \<Longrightarrow>
      i < length (conns w v) \<and> conn w' v i = conn w v i"
    and over: "\<And>v r i. walks T (b, nb) (v, r) \<Longrightarrow> i < length (conns T v) \<Longrightarrow> conn w' v i = conn y v i"
    and at_b: "distances (conn_sources (conn w' b lb)) = distances (offer (push_conn a (Connection_to (Some b)) w) a na)"
    and at_a: "conn_sources (conn w' a la) = offer y b nb"
    using connect_writes [OF w(1,2,4) ab room enough connect T_def la_def lb_def na_def nb_def, folded away_def] by blast
  have live: "live w' v = live T v" for v
    using wiring_live [of w' T] net by (simp add: same_net_def)
  have lens: "length (conns w' v) = length (conns T v)" for v
    using wiring_length [of w' T] net by (simp add: same_net_def)
  have ends': "ends (conn w' v i) = ends (conn T v i)" if "i < length (conns T v)" for v i
    using wiring_ends [of w' T v i] net lens that by (auto simp: ends_def same_net_def)
  have "same_state w (push_conn a (Connection_to (Some b)) w)" by (rule same_state_push [OF front(1)])
  then have from_push: "same_state (push_conn a (Connection_to (Some b)) w) w'"
    using ww' by (simp add: same_state_def)
  have "told_right w' v i" if v: "live T v" "i < length (conns T v)" for v i
  proof (cases "Connection_broker w' (conn w' v i)")
    case None
    then show ?thesis by (simp add: told_right_def)
  next
    case (Some u)
    then have "conn_broker (conn T v i) = Some u" "live T u" and source: "conn_source (conn w' v i) = conn_source (conn T v i)"
      using ends' [OF v(2)] live by (auto simp: ends_def Connection_broker_live)
    then have u: "Connection_broker T (conn T v i) = Some u" by (simp add: Connection_broker_live)
    have i: "unat (of_nat i :: source) = i"
      using v(2) settled_live(2) [OF T(1) v(1)] by (intro unat_port) linarith
    consider "walks_on T (a, na) (v, of_nat i)" | "v = b" "i = lb" | "walks_on T (b, nb) (v, of_nat i)"
      | "v = a" "i = la" | "\<not> away (v, of_nat i)" "\<not> (v = a \<and> i = la)"
    proof (cases "away (v, of_nat i)")
      case True
      then obtain j where j: "branch T a 0 j (v, of_nat i)" using away by blast
      show thesis
      proof (cases "j = la")
        case True
        then have "walks T (b, nb) (v, of_nat i)" using j across by simp
        then show thesis using that(2,3) i port(2) by (auto dest: rtranclpD)
      qed (use j old that(1) in blast)
    qed (use that in blast)
    then show ?thesis
    proof cases
      case 1
      then show ?thesis using told(2) i unfolding tells_def by metis
    next
      case 2
      have "BrokerBase_sources w' a na = BrokerBase_sources (push_conn a (Connection_to (Some b)) w) a na"
      proof (rule same_state_sources [OF from_push])
        show "live w' x = live (push_conn a (Connection_to (Some b)) w) x" for x by (simp add: live liveT)
        show "live (push_conn a (Connection_to (Some b)) w) a" using ab(2) by simp
        show "length (conns w' a) = length (conns (push_conn a (Connection_to (Some b)) w) a)"
          using lens new(4) [of a] ab(2) by (simp add: conns_push)
        fix k assume "k < length (conns (push_conn a (Connection_to (Some b)) w) a)" "k \<noteq> unat na \<or> k = 0"
        then have "k < la" using ab(2) port(1,3) by (auto simp: conns_push la_def)
        then show "conn w' a k = conn (push_conn a (Connection_to (Some b)) w) a k"
          using keep [of a k] a(1) len(1) not_away ab(2) by (simp add: conns_push nth_append la_def)
      qed
      moreover have "u = a" "conn_source (conn T v i) = na"
        using u(1) new(2) 2 by (auto simp: Connection_broker_live Connection_to_def)
      ultimately show ?thesis using Some source 2 at_b by (simp add: told_right_def)
    next
      case 3
      then have "told_right y v i" using told(1) i unfolding tells_def by metis
      then show ?thesis
        using told_carried [OF T(1) _ 3, of y w'] state live y lens ends' [OF v(2)] over b i by simp
    next
      case 4
      have "BrokerBase_sources w' b nb = BrokerBase_sources y b nb"
        using lens over [of b nb] b y by (intro same_state_sources [OF state]) (simp_all add: live)
      moreover have "u = b" "conn_source (conn T v i) = nb" using 4 u(1) far by auto
      ultimately show ?thesis using 4 Some source at_a by (simp add: told_right_def)
    next
      case 5
      have "told_right w' v i = told_right w v i"
      proof (rule told_untouched [OF T(1) w(1) a(1) v])
        show "walks_on T (a, 0) (b, nb)" using away across unfolding away_def by blast
        show "conn_source (conn T b (unat nb)) = of_nat la" "conn_broker (conn T b (unat nb)) = Some a"
          using new(2) port(2,5) by (simp_all add: Connection_to_def)
      qed (use 5 keep room(1) ww' live liveT lens new(4) ends' [OF v(2)] in \<open>simp_all add: away_def la_def\<close>)
      then show ?thesis using w(3) v(1) keep [OF v 5] by (simp add: informed_live liveT)
    qed
  qed
  then have "informed w'" using lens live by (simp add: informed_live)
  then show ?thesis using ww' net by (simp add: T_def)
qed

lemma loopless_wiring: "wiring w = wiring w' \<Longrightarrow> loopless w = loopless w'"
proof -
  have "loopless w' \<Longrightarrow> wiring w = wiring w' \<Longrightarrow> loopless w" for w w'
    unfolding loopless_live using wiring_live wiring_length wiring_ends(1) by (metis not_le)
  then show "wiring w = wiring w' \<Longrightarrow> loopless w = loopless w'" by metis
qed

section \<open>Theorems\<close>

text \<open>\<open>connect\<close> keeps the routes right. In a network that is being set up, whose notes about journals
  are right, it returns when the walks through the new connection are bounded, and leaves, with the
  new connection, a network whose notes are right: what every port has noted is what the broker
  behind it offers, so the distances to journals are known on both sides.\<close>

theorem connect_keeps_informed:
  assumes "settled w" and "loopless w" and "informed w" and "unused w"
    and "a \<noteq> b" and "live w a" and "live w b"
    and "length (conns w a) < 2 ^ 32" and "length (conns w b) < 2 ^ 32"
    and "bounded n (joined a b w) a (new_port w a)" and "bounded n (joined a b w) b (new_port w b)"
  shows "\<exists>w'. BrokerBase_connect (Suc n) a (Connection_to (Some b)) w =
      Inr ((Connection_to (Some a))\<lparr>conn_source := new_port w a\<rparr>, w') \<and>
    wiring w' = wiring (joined a b w) \<and> settled w' \<and> loopless w' \<and> informed w' \<and> unused w'"
proof -
  obtain w' where run: "BrokerBase_connect (Suc n) a (Connection_to (Some b)) w =
      Inr ((Connection_to (Some a))\<lparr>conn_source := new_port w a\<rparr>, w')"
    using connect_total [OF assms(1,5-11)] by blast
  note informs = connect_informs [OF assms run]
  then have net: "same_net (joined a b w) w'" by blast
  then have wires: "wiring w' = wiring (joined a b w)" by (simp add: same_net_def)
  have "settled w'" by (rule same_net_settled [OF net joined_settled [OF assms(1,5-9)]])
  moreover have "loopless w'"
    using loopless_wiring [OF wires] joined_loopless [OF assms(5-7,2)] by simp
  moreover have "unused w'"
    by (rule same_state_unused [OF _ _ assms(4)]) (use informs wiring_live [OF wires] in auto)
  ultimately show ?thesis using run wires informs by blast
qed

theorem connect_keeps_informed_witness:
  "\<exists>w'. BrokerBase_connect 3 0 (Connection_to (Some 1)) strangers =
      Inr ((Connection_to (Some 0))\<lparr>conn_source := 1\<rparr>, w') \<and> informed w'"
proof -
  have "live strangers 0" "live strangers 1" "new_port strangers 0 = 1" "new_port strangers 1 = 1"
    "length (conns strangers 0) < 2 ^ 32" "length (conns strangers 1) < 2 ^ 32"
    "loopless strangers" "informed strangers" "unused strangers"
    by (simp_all add: eval_simps sample_simps strangers_def new_port_def loopless_def informed_def told_right_def
        unused_def)
  moreover have "bounded 2 (joined 0 1 strangers) 0 1" "bounded 2 (joined 0 1 strangers) 1 1"
    by (simp_all add: eval_simps sample_simps strangers_def new_port_def joined_def numeral_2_eq_2)
  ultimately show ?thesis
    using connect_keeps_informed [OF strangers_settled, of 0 1 2] by (auto simp: numeral_3_eq_3)
qed

end
