(* ===== verification/Trees.thy ===== *)
theory Trees
  imports Routes Merging
begin

text \<open>
  Networks that are trees. A walk that never turns back meets no broker twice, so the number of brokers
  bounds it; and a connection between two parts of a network that were not connected closes no
  circle. Connecting brokers along a forest therefore always succeeds.
\<close>

section \<open>The number of brokers bounds the walks\<close>

definition population :: "world \<Rightarrow> nat" where
  "population w = om_size (w_brokers w)"

lemma population_live: "population w = card {x. live w x}"
  by (simp add: population_def card_live)

lemma unbounded_walk: "\<not> bounded m w b j \<Longrightarrow> \<exists>e. (hop w ^^ m) (b, j) e"
proof (induction m arbitrary: b j)
  case (Suc m)
  then obtain k c where "k < length (conns w b)" "k \<noteq> unat j" "Connection_broker w (conn w b k) = Some c"
    and "\<not> bounded m w c (conn_source (conn w b k))"
    by (auto simp: list_all_iff split: option.splits)
  moreover from this have "hop w (b, j) (c, conn_source (conn w b k))" by (auto simp: hop_def)
  ultimately show ?case using Suc.IH relpowp_Suc_I2 by metis
qed auto

lemma walk_spreads:
  assumes w: "settled w" "loopless w"
  shows "live w b \<Longrightarrow> bounded n w b j \<Longrightarrow> (hop w ^^ m) (b, j) e \<Longrightarrow>
    \<exists>S. finite S \<and> card S = Suc m \<and> (\<forall>x \<in> S. \<exists>s. walks w (b, j) (x, s))"
proof (induction m arbitrary: b j n)
  case 0
  show ?case by (rule exI [of _ "{b}"]) auto
next
  case (Suc m)
  obtain c q where c: "hop w (b, j) (c, q)" "(hop w ^^ m) (c, q) e"
    using Suc.prems(3) by (metis relpowp_Suc_D2 surj_pair)
  obtain k where n: "n = Suc k" using Suc.prems(2) by (cases n) simp_all
  have "live w c" "bounded k w c q"
    using hop_live [OF c(1)] bounded_hop [OF _ c(1), of k] Suc.prems(2) by (simp_all add: n)
  then obtain S where S: "finite S" "card S = Suc m" "\<forall>x \<in> S. \<exists>s. walks w (c, q) (x, s)"
    using Suc.IH c(2) by blast
  have "b \<notin> S"
  proof
    assume "b \<in> S"
    then obtain s where "walks w (c, q) (b, s)" using S(3) by blast
    then have "walks_on w (b, j) (b, s)" using c(1) by (rule rtranclp_into_tranclp2 [rotated])
    then show False using no_return [OF w Suc.prems(1,2)] by blast
  qed
  then have "card (insert b S) = Suc (Suc m)" using S(1,2) by simp
  moreover have "\<exists>s. walks w (b, j) (x, s)" if "x \<in> insert b S" for x
    using that S(3) converse_rtranclp_into_rtranclp [of "hop w", OF c(1)] by blast
  ultimately show ?case using S(1) by (intro exI [of _ "insert b S"]) auto
qed

lemma bounded_population:
  assumes w: "settled w" "loopless w" and b: "live w b" "bounded n w b j"
  shows "bounded (population w) w b j"
proof (rule ccontr)
  assume "\<not> bounded (population w) w b j"
  then obtain e where "(hop w ^^ population w) (b, j) e" using unbounded_walk by blast
  then obtain S where S: "card S = Suc (population w)" "\<forall>x \<in> S. \<exists>s. walks w (b, j) (x, s)"
    using walk_spreads [OF w b] by blast
  have "live w x" if "x \<in> S" for x using S(2) that walks_live [of w "(b, j)"] b(1) by auto
  then have "card S \<le> population w" unfolding population_live by (intro card_mono finite_live) blast
  then show False using S(1) by simp
qed

section \<open>Joining two parts\<close>

definition finite_walks :: "world \<Rightarrow> bool" where
  "finite_walks w \<longleftrightarrow> list_all (\<lambda>(a, _). bounded (population w) w a 0) (entries (w_brokers w))"

lemma bounded_front:
  assumes "settled w" and "live w a" and "bounded n w a 0"
  shows "bounded n w a j"
proof -
  have "wired w" using assms(1) by (simp add: settled_iff)
  note ports = bounded_ports [OF this assms(2)]
  obtain m where n: "n = Suc m" using assms(3) by (cases n) simp_all
  have "port_bounded m w a i" if "0 < i" "i < length (conns w a)" for i
    using ports [of m 0] assms(3) that unfolding n by simp
  then show ?thesis using ports [of m j] unfolding n by blast
qed

lemma finite_walks_live:
  assumes "settled w"
  shows "finite_walks w \<longleftrightarrow> (\<forall>a j. live w a \<longrightarrow> bounded (population w) w a j)"
proof -
  have "finite_walks w \<longleftrightarrow> (\<forall>a. live w a \<longrightarrow> bounded (population w) w a 0)"
    by (fastforce simp: finite_walks_def list_all_iff live_entries)
  then show ?thesis using bounded_front [OF assms] by blast
qed

lemma bounded_add: "bounded n w b j \<Longrightarrow> bounded (m + n) w b j"
  by (induction m) (auto intro: bounded_mono simp del: bounded.simps)

lemma walks_reachable: "walks w e f \<Longrightarrow> reachable w (fst e) (fst f)"
proof (induction rule: rtranclp_induct)
  case (step f g)
  then have "fst g \<in> set (neighbours w (fst f))"
    by (auto simp: hop_def neighbours_iff Connection_broker_live)
  then show ?case using step.IH reachable.step by blast
qed (rule reachable.here)


text \<open>The steps in the joined network.\<close>

lemma joined_hop:
  assumes "a \<noteq> b" and "live w a" and "live w b" and hop: "hop (joined a b w) (x, j) f"
  shows "hop w (x, j) f \<or> x = a \<and> f = (b, new_port w b) \<and> unat j \<noteq> length (conns w a) \<or>
    x = b \<and> f = (a, new_port w a) \<and> unat j \<noteq> length (conns w b)"
proof -
  note new = joined_conns [OF assms(1-3)]
  obtain k where k: "k < length (conns (joined a b w) x)" "k \<noteq> unat j"
    "Connection_broker (joined a b w) (conn (joined a b w) x k) = Some (fst f)"
    "snd f = conn_source (conn (joined a b w) x k)"
    using hop by (auto simp: hop_def)
  show ?thesis
  proof (cases "k < length (conns w x)")
    case True
    then show ?thesis using k new(3) by (auto simp: hop_def Connection_broker_live)
  next
    case False
    then have "x = a \<and> k = length (conns w a) \<or> x = b \<and> k = length (conns w b)"
      using k(1) new(4) [of x] by (auto split: if_splits)
    then show ?thesis using k(2-4) new(1,2)
      by (cases f) (auto simp: Connection_broker_live Connection_to_def)
  qed
qed

lemma bounded_hops: "(\<And>f. hop w (b, j) f \<Longrightarrow> bounded n w (fst f) (snd f)) \<Longrightarrow> bounded (Suc n) w b j"
  by (auto simp: list_all_iff hop_def split: option.split) blast

lemma joined_bounded_apart:
  assumes w: "settled w" "loopless w" and ab: "a \<noteq> b" "live w a" "live w b" and apart: "\<not> reachable w b a"
    and port: "length (conns w b) < 2 ^ 32" and enough: "bounded n w b (new_port w b)"
  shows "bounded n (joined a b w) b (new_port w b)"
proof -
  have "bounded m (joined a b w) x j" if "walks w (b, new_port w b) (x, j)" "bounded m w x j" for m x j
    using that
  proof (induction m arbitrary: x j)
    case (Suc m)
    show ?case
    proof (rule bounded_hops)
      fix f assume f: "hop (joined a b w) (x, j) f"
      have "x \<noteq> a" using walks_reachable [OF Suc.prems(1)] apart by auto
      moreover have "unat j = length (conns w b)" if "x = b"
      proof (rule ccontr)
        assume far: "unat j \<noteq> length (conns w b)"
        have "unat (new_port w b) = length (conns w b)" using port by (simp add: new_port_def unat_port)
        then have "(b, new_port w b) \<noteq> (x, j)" using far by auto
        then have "walks_on w (b, new_port w b) (b, j)" using Suc.prems(1) that by (auto dest: rtranclpD)
        then show False using no_return [OF w ab(3) enough] by blast
      qed
      ultimately have hop: "hop w (x, j) f" using joined_hop [OF ab f] by blast
      obtain y r where y: "f = (y, r)" by fastforce
      have "walks w (b, new_port w b) f" using Suc.prems(1) hop by (rule rtranclp.rtrancl_into_rtrancl)
      moreover have "bounded m w y r" using bounded_hop [of m w "(x, j)" f] hop Suc.prems(2) y by simp
      ultimately show "bounded m (joined a b w) (fst f) (snd f)" using Suc.IH y by simp
    qed
  qed simp
  then show ?thesis using enough by blast
qed

lemma joined_swap: "a \<noteq> b \<Longrightarrow> joined a b w = joined b a w"
  by (simp add: joined_def push_conn_def set_broker_def om_put_commute [of a b] split: option.split)

lemma joined_bounded:
  assumes w: "settled w" "loopless w" "finite_walks w" and ab: "a \<noteq> b" "live w a" "live w b"
    and apart: "\<not> reachable w a b"
    and room: "length (conns w a) < 2 ^ 32" "length (conns w b) < 2 ^ 32"
  shows "bounded (population w) (joined a b w) a (new_port w a)"
    and "bounded (population w) (joined a b w) b (new_port w b)"
    and "finite_walks (joined a b w)"
proof -
  let ?T = "joined a b w" and ?n = "population w"
  have wired: "wired w" using w(1) by (simp add: settled_iff)
  have all: "bounded ?n w x j" if "live w x" for x j using w(3) that finite_walks_live [OF w(1)] by blast
  have apart': "\<not> reachable w b a" using apart reachable_back [OF wired ab(3)] by blast
  have T: "settled ?T" "loopless ?T"
    using joined_settled [OF w(1) ab room] joined_loopless [OF ab w(2)] by simp_all
  show b: "bounded ?n ?T b (new_port w b)"
    by (rule joined_bounded_apart [OF w(1,2) ab apart' room(2) all [OF ab(3)]])
  show a: "bounded ?n ?T a (new_port w a)"
    using joined_bounded_apart [OF w(1,2) _ ab(3,2) apart room(1) all [OF ab(2)]] ab(1)
    by (simp add: joined_swap)
  have deep: "live w x \<Longrightarrow> bounded m w x j \<Longrightarrow> bounded (m + ?n) ?T x j" for m x j
  proof (induction m arbitrary: x j)
    case (Suc m)
    show ?case unfolding add_Suc
    proof (rule bounded_hops)
      fix f assume f: "hop ?T (x, j) f"
      consider "hop w (x, j) f" | "f = (b, new_port w b)" | "f = (a, new_port w a)"
        using joined_hop [OF ab f] by blast
      then show "bounded (m + ?n) ?T (fst f) (snd f)"
      proof cases
        case 1
        then show ?thesis using Suc.IH [of "fst f" "snd f"] bounded_hop [of m w "(x, j)" f] hop_live [OF 1] Suc.prems(2) by simp
      qed (use a b in \<open>simp_all add: bounded_add\<close>)
    qed
  qed simp
  then have "bounded (population ?T) ?T x j" if "live w x" for x j
    using bounded_population [OF T _ deep [OF that all [OF that]]] that by (simp del: bounded.simps)
  then show "finite_walks ?T" by (simp add: finite_walks_live [OF T(1)])
qed


section \<open>The parts of a network\<close>

text \<open>The brokers of one part share a label; a link gives two parts one label.\<close>

definition link :: "addr \<Rightarrow> addr \<Rightarrow> (addr \<Rightarrow> addr) \<Rightarrow> addr \<Rightarrow> addr" where
  "link a b part = (\<lambda>x. if part x = part b then part a else part x)"

text \<open>No link leads from a part to itself.\<close>

fun forest :: "(addr \<times> addr) list \<Rightarrow> (addr \<Rightarrow> addr) \<Rightarrow> bool" where
  "forest [] part \<longleftrightarrow> True"
| "forest ((a, b) # links) part \<longleftrightarrow> part a \<noteq> part b \<and> forest links (link a b part)"

definition parted :: "(addr \<Rightarrow> addr) \<Rightarrow> world \<Rightarrow> bool" where
  "parted part w \<longleftrightarrow> (\<forall>x y. live w x \<longrightarrow> live w y \<longrightarrow> (reachable w x y \<longleftrightarrow> part x = part y))"

lemma reachable_mono:
  "(\<And>y. set (neighbours v y) \<subseteq> set (neighbours w y)) \<Longrightarrow> reachable v a b \<Longrightarrow> reachable w a b"
  by (rotate_tac, induction rule: reachable.induct) (auto intro: reachable.intros)

lemma joined_neighbours:
  assumes "a \<noteq> b" and "live w a" and "live w b"
  shows "set (neighbours (joined a b w) x) =
    set (neighbours w x) \<union> (if x = a then {b} else if x = b then {a} else {})"
  by (simp add: neighbours_def conns_joined [OF assms] Connection_to_def)

lemma joined_parted:
  assumes w: "wired w" "wired (joined a b w)" and ab: "live w a" "live w b" and parted: "parted part w" "part a \<noteq> part b"
  shows "parted (link a b part) (joined a b w)"
  unfolding parted_def
proof (intro allI impI iffI)
  fix x y assume "live (joined a b w) x" "live (joined a b w) y"
  then have x: "live w x" and y: "live w y" by simp_all
  have "a \<noteq> b" using parted(2) by blast
  note next_to = joined_neighbours [OF this ab]
  have same: "reachable w u v \<longleftrightarrow> part u = part v" if "live w u" "live w v" for u v
    using parted(1) that by (simp add: parted_def)
  have old: "reachable (joined a b w) u v" if "reachable w u v" for u v
    by (rule reachable_mono [OF _ that]) (simp add: next_to)
  show "reachable (joined a b w) x y \<Longrightarrow> link a b part x = link a b part y"
  proof (induction rule: reachable.induct)
    case (step u v)
    have u: "live w u" using reachable_live [OF w(2) _ step.hyps(1)] x by simp
    have "v \<in> set (neighbours w u) \<or> u = a \<and> v = b \<or> u = b \<and> v = a"
      using step.hyps(2) next_to by (auto split: if_splits)
    then have "link a b part u = link a b part v"
    proof (elim disjE)
      assume v: "v \<in> set (neighbours w u)"
      then have "reachable w u v" using reachable.here by (rule reachable.step [rotated])
      moreover from this have "live w v" by (rule reachable_live [OF w(1) u])
      ultimately show ?thesis using same [OF u] by (simp add: link_def)
    qed (simp_all add: link_def parted(2))
    then show ?case using step.IH by simp
  qed simp
  assume "link a b part x = link a b part y"
  then consider "part x = part y" | "part x = part a" "part y = part b" | "part x = part b" "part y = part a"
    by (auto simp: link_def split: if_splits)
  then show "reachable (joined a b w) x y"
  proof cases
    case 1
    then show ?thesis using same x y old by blast
  next
    case 2
    then have "reachable (joined a b w) x a" "reachable (joined a b w) b y"
      using same x y ab old by simp_all
    moreover from this(1) have "reachable (joined a b w) x b" by (rule reachable.step) (simp add: next_to)
    ultimately show ?thesis by (metis reachable_trans)
  next
    case 3
    then have "reachable (joined a b w) x b" "reachable (joined a b w) a y"
      using same x y ab old by simp_all
    moreover from this(1) have "reachable (joined a b w) x a"
      by (rule reachable.step) (use \<open>a \<noteq> b\<close> in \<open>simp add: next_to\<close>)
    ultimately show ?thesis by (metis reachable_trans)
  qed
qed

lemma parted_wiring:
  assumes "wiring w' = wiring w"
  shows "parted part w' = parted part w"
proof -
  have "reachable w' x y = reachable w x y" for x y
    using wiring_reachable [OF assms] wiring_reachable [OF assms [symmetric]] by blast
  then show ?thesis using wiring_live [OF assms] by (simp add: parted_def)
qed

lemma wiring_finite_walks:
  assumes "wiring w' = wiring w" and "settled w" and "settled w'"
  shows "finite_walks w' = finite_walks w"
  unfolding finite_walks_live [OF assms(2)] finite_walks_live [OF assms(3)]
  using wiring_live [OF assms(1)] bounded_wiring [OF assms(1)] population_live by simp

section \<open>Setting up a network\<close>

text \<open>The brokers are connected one pair after the other.\<close>

definition connect_all :: "nat \<Rightarrow> (addr \<times> addr) list \<Rightarrow> world \<Rightarrow> world outcome" where
  "connect_all n links w =
     forEach links
       (\<lambda>(a, b) w. andThen (BrokerBase_connect n a (Connection_to (Some b)) w) (\<lambda>(_, w). Inr w)) w"

definition unlinked :: "world \<Rightarrow> bool" where
  "unlinked w \<longleftrightarrow> list_all (\<lambda>(_, b). length (b_connections b) = 1) (entries (w_brokers w))"

definition in_shape :: "(addr \<Rightarrow> addr) \<Rightarrow> world \<Rightarrow> bool" where
  "in_shape part w \<longleftrightarrow> settled w \<and> loopless w \<and> informed w \<and> unused w \<and> finite_walks w \<and> parted part w"

lemma unlinked_shape:
  assumes "settled w" and "unused w" and "unlinked w"
  shows "in_shape id w"
proof -
  have wired: "wired w" using assms(1) by (simp add: settled_iff)
  have single: "length (conns w a) = 1" if "live w a" for a
    using assms(3) that broker_at_entries [of a _ w] by (fastforce simp: unlinked_def list_all_iff live_entries)
  then have none: "conn_broker (conn w a i) = None" if "live w a" "i < length (conns w a)" for a i
    using wired_conn(1) [OF wired that] that by (cases "conn_broker (conn w a i)") auto
  then have shut: "Connection_broker w (conn w a i) = None" if "live w a" "i < length (conns w a)" for a i
    using that by (simp add: Connection_broker_def)
  have alone: "neighbours w a = []" if "live w a" for a
    using none [OF that] neighbours_iff [of _ w a] by (cases "neighbours w a") force+
  have "reachable w x y \<Longrightarrow> live w x \<Longrightarrow> x = y" for x y
    by (induction rule: reachable.induct) (auto simp: alone)
  then have "parted id w" by (auto simp: parted_def intro: reachable.here)
  moreover have "bounded (population w) w a j" if "live w a" for a j
  proof -
    have "population w \<noteq> 0" using that by (auto simp: population_def om_size_def live_entries)
    then show ?thesis using shut [OF that] by (cases "population w") (auto simp: list_all_iff)
  qed
  ultimately show ?thesis
    using assms none shut
    by (simp add: in_shape_def loopless_live informed_live told_right_def finite_walks_live)
qed

lemma connect_all_shape:
  assumes "in_shape part w" and "forest links part" and "\<forall>(a, b) \<in> set links. live w a \<and> live w b"
    and "\<And>x. live w x \<Longrightarrow> length (conns w x) + length links < 2 ^ 32"
  shows "\<exists>w'. connect_all (Suc (population w)) links w = Inr w' \<and>
    in_shape (fold (\<lambda>(a, b). link a b) links part) w' \<and> same_state w w' \<and> (\<forall>x. live w' x = live w x) \<and> population w' = population w"
  using assms
proof (induction links arbitrary: w part)
  case Nil
  then show ?case by (simp add: connect_all_def quiet.refl)
next
  case (Cons ab links)
  obtain a b where ab: "ab = (a, b)" by fastforce
  have w: "settled w" "loopless w" "informed w" "unused w" "finite_walks w" "parted part w" "wired w"
    using Cons.prems(1) by (simp_all add: in_shape_def settled_iff)
  have live: "live w a" "live w b" and part: "part a \<noteq> part b" using Cons.prems(2,3) ab by simp_all
  then have apart: "a \<noteq> b" "\<not> reachable w a b" using w(6) by (auto simp: parted_def)
  have room: "length (conns w a) < 2 ^ 32" "length (conns w b) < 2 ^ 32"
    using Cons.prems(4) [OF live(1)] Cons.prems(4) [OF live(2)] by simp_all
  note bounded = joined_bounded [OF w(1,2,5) apart(1) live apart(2) room]
  note T = joined_settled [OF w(1) apart(1) live room]
  obtain w1 where run: "BrokerBase_connect (Suc (population w)) a (Connection_to (Some b)) w =
      Inr ((Connection_to (Some a))\<lparr>conn_source := new_port w a\<rparr>, w1)"
    using connect_total [OF w(1) apart(1) live room bounded(1,2)] by blast
  have w1: "informed w1" "same_state w w1" "same_net (joined a b w) w1"
    using connect_informs [OF w(1-4) apart(1) live room bounded(1,2) run] by blast+
  then have wires: "wiring w1 = wiring (joined a b w)" by (simp add: same_net_def)
  have settled: "settled w1" by (rule same_net_settled [OF w1(3) T])
  have keep: "live w1 x = live w x" "population w1 = population w" for x
    using wiring_live [OF wires] by (simp_all add: population_live)
  have "in_shape (link a b part) w1"
    unfolding in_shape_def
    using settled w1 loopless_wiring [OF wires] joined_loopless [OF apart(1) live w(2)]
      wiring_finite_walks [OF wires T settled] bounded(3) parted_wiring [OF wires]
      joined_parted [OF w(7) _ live w(6) part] T same_state_unused [OF w1(2) keep(1) w(4)]
    by (simp add: settled_iff)
  moreover have "length (conns w1 x) + length links < 2 ^ 32" if "live w1 x" for x
    using Cons.prems(4) [of x] that keep(1) wiring_length [OF wires, of x] joined_conns(4) [OF apart(1) live, of x]
    by (simp split: if_splits)
  ultimately obtain w' where "connect_all (Suc (population w1)) links w1 = Inr w'"
    "in_shape (fold (\<lambda>(a, b). link a b) links (link a b part)) w'" "same_state w1 w'" "\<forall>x. live w' x = live w1 x"
    "population w' = population w1"
    using Cons.IH [of "link a b part" w1] Cons.prems(2,3) keep(1) ab by auto
  then show ?case using run keep same_state_trans [OF w1(2)]
    by (auto simp: connect_all_def ab)
qed

end
