(* ===== verification/Steady.thy ===== *)
theory Steady
  imports Informing
begin

text \<open>
  Insertions keep the routes. An entry that a journal inserts in its own name travels along the walks
  from that journal; every port that it enters already knows the journal, so noting the clock
  changes no distance.
\<close>

section \<open>What an offer depends on\<close>

definition same_routes :: "world \<Rightarrow> world \<Rightarrow> bool" where
  "same_routes w w' \<longleftrightarrow> wiring w' = wiring w \<and> (\<forall>x i. i < length (conns w x) \<longrightarrow>
     Connection_broker w (conn w x i) \<noteq> None \<longrightarrow>
     distances (conn_sources (conn w' x i)) = distances (conn_sources (conn w x i)))"

lemma find_map: "find P (map f xs) = map_option f (find (P \<circ> f) xs)"
  by (induction xs) simp_all

lemma find_distances_none: "om_find (distances m) i \<noteq> None \<longleftrightarrow> om_find m i \<noteq> None"
  by (simp add: find_distances)

lemma offer_distances:
  assumes "om_map (\<lambda>_. distances) s = om_map (\<lambda>_. distances) t"
  shows "distances (UpdateProvides s) = distances (UpdateProvides t)"
proof -
  define chosen where "chosen i es = map_option (\<lambda>(_, m). map_option (\<lambda>d. d + 1) (om_find m i))
      (find (\<lambda>(_, m). om_find m i \<noteq> None) es)" for i and es :: "(source \<times> (ident, 16 word) omap) list"
  have "om_find (distances (UpdateProvides u)) i = (case chosen i (entries (om_map (\<lambda>_. distances) u)) of
      None \<Rightarrow> None | Some d \<Rightarrow> d)" for u :: sources_map and i
  proof -
    have test: "(\<lambda>(_, m). om_find m i \<noteq> None) \<circ> (\<lambda>(k, m). (k, distances m)) = (\<lambda>(_, m :: provides). om_find m i \<noteq> None)"
      by (simp add: fun_eq_iff find_distances)
    then show ?thesis
      unfolding chosen_def entries_map find_map test
      by (auto simp: find_distances UpdateProvides_def find_absorb_all farther_def option.map_comp comp_def
          split: option.split)
  qed
  then show ?thesis unfolding om_eq_iff using assms by simp
qed

lemma distances_empty: "distances m = om_empty \<longleftrightarrow> m = om_empty"
  by (simp add: distances_def)

lemma same_routes_offer:
  assumes w: "settled w" "same_routes w w'" and b: "live w b"
  shows "distances (offer w' b j) = distances (offer w b j)"
proof (rule offer_distances, rule om_eqI)
  fix p
  have wires: "wiring w' = wiring w" using w(2) by (simp add: same_routes_def)
  have len: "length (conns w' b) = length (conns w b)" by (rule wiring_length [OF wires])
  have room: "length (conns w b) \<le> 2 ^ 32" "length (conns w' b) \<le> 2 ^ 32" using settled_live(2) [OF w(1) b] len by simp_all
  have same: "distances (conn_sources (conn w' b i)) = distances (conn_sources (conn w b i))"
    if "i < length (conns w b)" "Connection_valid w (conn w b i)" for i
    using w(2) that by (simp add: same_routes_def Connection_valid_def)
  have valid: "Connection_valid w' (conn w' b i) = Connection_valid w (conn w b i)" if "i < length (conns w b)" for i
    using wiring_Connection_broker(1) [OF wires [symmetric] that] by (simp add: Connection_valid_def)
  have broker: "map_option distances (om_find (Broker_sources w' b j) p) = map_option distances (om_find (Broker_sources w b j) p)"
  proof (cases "unat p < length (conns w b) \<and> Connection_valid w (conn w b (unat p))")
    case True
    have "conn_sources (conn w' b (unat p)) = om_empty \<longleftrightarrow> conn_sources (conn w b (unat p)) = om_empty"
      using same [of "unat p"] True distances_empty by metis
    then show ?thesis
      using True same [of "unat p"] valid [of "unat p"] len
      by (simp add: find_sources [OF room(1)] find_sources [OF room(2)] Let_def)
  next
    case False
    then show ?thesis using valid [of "unat p"] len
      by (auto simp: find_sources [OF room(1)] find_sources [OF room(2)] Let_def)
  qed
  have kind: "b_kind (broker_at w' b) = b_kind (broker_at w b)" "b_id (broker_at w' b) = b_id (broker_at w b)"
    using wiring_frame [OF wires, of b] by (simp_all add: frame_def)
  have own: "distances (om_init [(i, \<lparr>info_distance = 0, info_clock = c\<rparr>)]) = distances (om_init [(i, \<lparr>info_distance = 0, info_clock = c'\<rparr>)])"
    for i c c'
    by (rule om_eqI) (simp add: find_distances om_find_init)
  show "om_find (om_map (\<lambda>_. distances) (BrokerBase_sources w' b j)) p =
      om_find (om_map (\<lambda>_. distances) (BrokerBase_sources w b j)) p"
    using broker kind own by (auto simp: om_find_map BrokerBase_sources_def JournalBase_sources_def Let_def)
qed


lemma same_routes_informed:
  assumes w: "settled w" "informed w" "same_routes w w'"
  shows "informed w'"
  unfolding informed_live
proof (intro allI impI)
  fix x i assume "live w' x" and "i < length (conns w' x)"
  have wires: "wiring w' = wiring w" using w(3) by (simp add: same_routes_def)
  have x: "live w x" and i: "i < length (conns w x)"
    using \<open>live w' x\<close> \<open>i < _\<close> wiring_live [OF wires] wiring_length [OF wires] by simp_all
  note port = wiring_Connection_broker [OF wires [symmetric] i]
  have right: "told_right w x i" using w(2) x i by (simp add: informed_live)
  show "told_right w' x i"
  proof (cases "Connection_broker w (conn w x i)")
    case (Some y)
    then have y: "live w y" by (simp add: Connection_broker_live)
    have "distances (conn_sources (conn w' x i)) = distances (conn_sources (conn w x i))"
      using w(3) i Some by (simp add: same_routes_def)
    then show ?thesis using right same_routes_offer [OF w(1,3) y] port Some
      by (auto simp: told_right_def split: option.splits)
  qed (use port in \<open>simp add: told_right_def\<close>)
qed

lemma same_routes_refl: "same_routes w w"
  by (simp add: same_routes_def)

lemma same_routes_trans:
  assumes "same_routes u v" and "same_routes v w"
  shows "same_routes u w"
proof -
  have "wiring v = wiring u" using assms(1) by (simp add: same_routes_def)
  then show ?thesis
    using assms wiring_length [of v u] wiring_Connection_broker(1) [of v u] by (simp add: same_routes_def)
qed

section \<open>An entry travels\<close>

text \<open>The port is closed or knows the journal.\<close>

definition knows :: "world \<Rightarrow> ident \<Rightarrow> addr \<times> source \<Rightarrow> bool" where
  "knows w i e \<longleftrightarrow> Connection_broker w (conn w (fst e) (unat (snd e))) = None \<or>
     om_find (conn_sources (conn w (fst e) (unat (snd e)))) i \<noteq> None"

definition known_from :: "world \<Rightarrow> ident \<Rightarrow> addr \<times> source \<Rightarrow> bool" where
  "known_from w i e \<longleftrightarrow> (\<forall>f. walks w e f \<longrightarrow> unat (snd f) < length (conns w (fst f)) \<longrightarrow> knows w i f)"

lemma hop_wiring:
  assumes "wiring w' = wiring w"
  shows "hop w' = hop w"
  using wiring_length [OF assms] wiring_Connection_broker [OF assms]
  by (auto simp: hop_def fun_eq_iff)

lemma known_from_same:
  assumes "same_routes w w'" and "known_from w i e"
  shows "known_from w' i e"
  unfolding known_from_def
proof (intro allI impI)
  fix f assume f: "walks w' e f" and len: "unat (snd f) < length (conns w' (fst f))"
  have wires: "wiring w' = wiring w" using assms(1) by (simp add: same_routes_def)
  have here: "walks w e f" "unat (snd f) < length (conns w (fst f))"
    using f len hop_wiring [OF wires] wiring_length [OF wires] by simp_all
  then have "knows w i f" using assms(2) unfolding known_from_def by blast
  then show "knows w' i f"
    using wiring_Connection_broker(1) [OF wires [symmetric] here(2)] assms(1) here(2) find_distances_none
    unfolding knows_def same_routes_def by metis
qed

lemma distances_note:
  assumes "om_find (conn_sources c) i \<noteq> None"
  shows "distances (conn_sources (note_version i v c)) = distances (conn_sources c)"
  using assms by (intro om_eqI) (auto simp: find_distances note_version_def om_update_def)

lemma same_routes_set_conn:
  assumes "\<And>c. ends (f c) = ends c"
    and "i < length (conns w a) \<Longrightarrow> Connection_broker w (conn w a i) \<noteq> None \<Longrightarrow>
      distances (conn_sources (f (conn w a i))) = distances (conn_sources (conn w a i))"
  shows "same_routes w (set_conn a i f w)"
proof -
  have "distances (conn_sources (conn (set_conn a i f w) x j)) = distances (conn_sources (conn w x j))"
    if "j < length (conns w x)" "Connection_broker w (conn w x j) \<noteq> None" for x j
    using that assms(2) by (cases "j = i") (auto simp: conns_set_conn)
  then show ?thesis using assms(1) by (simp add: same_routes_def)
qed

section \<open>Insertions\<close>

lemma sources_setClock [simp]: "conn_sources (conn (Broker_setClock b c w) a j) = conn_sources (conn w a j)"
  by (cases "conns w a"; cases j) (simp_all add: Broker_setClock_def conns_set_conn)

lemma acknowledged_routes:
  assumes "unat s < length (conns w a)" and "knows w (data_id (entry_data e)) (a, s)"
  shows "same_routes w (acknowledged a e s w)"
proof -
  let ?u = "Broker_setClock a (Clock_merge (Broker_clock w a) (entry_clock e)) w"
  have u: "same_routes w ?u"
    unfolding Broker_setClock_def by (rule same_routes_set_conn) (simp_all add: ends_def)
  moreover have "knows ?u (data_id (entry_data e)) (a, s)"
    using assms wiring_Connection_broker(1) [of w ?u "unat s" a] by (simp add: knows_def)
  then have "same_routes ?u (acknowledged a e s w)"
    unfolding acknowledged_def Let_def
    by (intro same_routes_set_conn distances_note) (auto simp: knows_def)
  ultimately show ?thesis by (rule same_routes_trans)
qed

lemma known_hop: "known_from w i e \<Longrightarrow> hop w e f \<Longrightarrow> known_from w i f"
  unfolding known_from_def by (meson converse_rtranclp_into_rtranclp)

lemma Broker_insert_routes:
  assumes call: "\<And>u b r d v. wired u \<Longrightarrow> live u b \<Longrightarrow> unat r < length (conns u b) \<Longrightarrow>
      known_from u (data_id (entry_data e)) (b, r) \<Longrightarrow> call b e r u = Inr (d, v) \<Longrightarrow> same_routes u v"
    and w: "wired w" "live w a" "unat s < length (conns w a)" "known_from w (data_id (entry_data e)) (a, s)"
    and run: "Broker_insert call a e s w = Inr (c, w')"
  shows "same_routes w w'"
proof -
  have run: "forEach [0..<length (conns w a)] (forwarded call a e s) (acknowledged a e s w) = Inr w'"
    using run by (auto simp: Broker_insert_steps [OF w(3)] cashmere_errors)
  then show ?thesis
  proof (rule forEach_invariant)
    have "knows w (data_id (entry_data e)) (a, s)" using w(3,4) by (auto simp: known_from_def)
    then show "same_routes w (acknowledged a e s w)" by (rule acknowledged_routes [OF w(3)])
  next
    fix i x y assume i: "i \<in> set [0..<length (conns w a)]" and x: "same_routes w x"
      and step: "forwarded call a e s i x = Inr y"
    have wires: "wiring x = wiring w" using x by (simp add: same_routes_def)
    have here: "wired x" "live x a" "i < length (conns x a)"
      using wiring_wired [OF wires [symmetric] w(1)] wiring_live [OF wires] w(2) wiring_length [OF wires, of a] i
      by simp_all
    show "same_routes w y"
    proof (cases "i = unat s \<or> Connection_broker x (conn x a i) = None")
      case True
      then show ?thesis using step x by (auto simp: forwarded_def Connection_insert_def split: if_splits)
    next
      case False
      then obtain b where b: "Connection_broker x (conn x a i) = Some b" by auto
      define q where "q = conn_source (conn x a i)"
      obtain d v where v: "call b e q x = Inr (d, v)" "y = v \<or> y = set_conn a i (note_peer e d) v"
        using step False b
        by (auto simp: forwarded_def Connection_insert_def q_def note_peer_def [abs_def] cashmere_errors split: if_splits)
      have "hop x (a, s) (b, q)" using False here(3) b by (auto simp: hop_def q_def)
      then have known: "known_from x (data_id (entry_data e)) (b, q)"
        using known_hop known_from_same [OF x w(4)] by blast
      have "conn_broker (conn x a i) = Some b" using b by (simp add: Connection_broker_live)
      note far = wired_conn [OF here this, folded q_def]
      have "same_routes x v" by (rule call [OF here(1) far(2,3) known v(1)])
      moreover have "same_routes v (set_conn a i (note_peer e d) v)"
        by (rule same_routes_set_conn) (simp, simp add: note_peer_def)
      ultimately show ?thesis using v(2) x same_routes_trans by blast
    qed
  qed
qed

lemma insert_routes:
  "wired w \<Longrightarrow> live w a \<Longrightarrow> unat s < length (conns w a) \<Longrightarrow> known_from w (data_id (entry_data e)) (a, s) \<Longrightarrow>
    BrokerBase_insert n a e s w = Inr (c, w') \<Longrightarrow> same_routes w w'"
proof (induction n arbitrary: a s w c w')
  case (Suc n)
  have broker: "same_routes v w'"
    if "wired v" "live v a" "unat s < length (conns v a)" "known_from v (data_id (entry_data e)) (a, s)"
      "Broker_insert (BrokerBase_insert n) a e s v = Inr (c, w')" for v
    by (rule Broker_insert_routes [where call = "BrokerBase_insert n", OF _ that]) (rule Suc.IH)
  show ?case
  proof (cases "b_kind (broker_at w a) = Hub")
    case True
    then show ?thesis using broker [OF Suc.prems(1-4)] Suc.prems(5) by simp
  next
    case False
    obtain ok v where save: "BrokerBase_save a e w = (ok, v)" by fastforce
    have wires: "wiring v = wiring w" using wiring_save [OF save] .
    show ?thesis
    proof (cases "Clock_isNext (entry_clock e) (Broker_clock w a) (data_id (entry_data e)) \<and> ok")
      case True
      have same: "same_routes w v" using save True wires conns_save by (auto simp: same_routes_def)
      have "Broker_insert (BrokerBase_insert n) a e s v = Inr (c, w')"
        using Suc.prems(5) False True save by (simp add: JournalBase_insert_def)
      then have "same_routes v w'"
        using broker [of v] wiring_wired [OF wires [symmetric] Suc.prems(1)] wiring_live [OF wires]
          wiring_length [OF wires, of a] Suc.prems(2,3) known_from_same [OF same Suc.prems(4)] by simp
      then show ?thesis using same same_routes_trans by blast
    next
      case stays: False
      moreover have "v = w" if "\<not> ok" using save that save_refused by simp
      ultimately show ?thesis using Suc.prems(5) False save same_routes_refl
        by (auto simp: JournalBase_insert_def split: if_splits)
    qed
  qed
qed simp


section \<open>Entries of other devices\<close>

text \<open>A distance that a port has noted stays.\<close>

definition remembers :: "world \<Rightarrow> world \<Rightarrow> bool" where
  "remembers w w' \<longleftrightarrow> wiring w' = wiring w \<and> (\<forall>x p i k. om_find (distances (conn_sources (conn w x p))) i = Some k \<longrightarrow>
     p < length (conns w x) \<longrightarrow> om_find (distances (conn_sources (conn w' x p))) i = Some k)"

lemma remembers_set_conn:
  assumes "\<And>c. ends (f c) = ends c"
    and "\<And>c i k. om_find (distances (conn_sources c)) i = Some k \<Longrightarrow> om_find (distances (conn_sources (f c))) i = Some k"
  shows "remembers w (set_conn a j f w)"
proof -
  have "om_find (distances (conn_sources (conn (set_conn a j f w) x p))) i = Some k"
    if "om_find (distances (conn_sources (conn w x p))) i = Some k" "p < length (conns w x)" for x p i k
    using that assms(2) by (cases "p = j") (auto simp: conns_set_conn)
  then show ?thesis using assms(1) by (simp add: remembers_def)
qed

lemma remembers_trans: "remembers u v \<Longrightarrow> remembers v w \<Longrightarrow> remembers u w"
  using wiring_length [of v u] by (simp add: remembers_def)

interpretation noting: insert_effect "\<lambda>_. remembers"
proof
  fix e :: entry and a w w' assume save: "BrokerBase_save a e w = (True, w')"
  then show "remembers w w'" using wiring_save [OF save] conns_save [OF save] by (simp add: remembers_def)
next
  fix e :: entry and a w
  show "remembers w (Broker_setClock a (Clock_merge (Broker_clock w a) (entry_clock e)) w)"
    unfolding Broker_setClock_def by (rule remembers_set_conn) (simp_all add: ends_def)
next
  fix e :: entry and a i j t w
  show "remembers w (set_conn a i (note_version j t) w)"
    by (rule remembers_set_conn) (auto simp: note_version_def om_update_def find_distances ends_def split: option.splits)
next
  fix e :: entry and a i t w
  show "remembers w (set_conn a i (note_peer e t) w)"
    by (rule remembers_set_conn) (simp, simp add: note_peer_def)
next
  show "remembers u v \<Longrightarrow> remembers v w \<Longrightarrow> remembers u w" for u v w by (rule remembers_trans)
qed (simp_all add: remembers_def)

lemma accepted_notes:
  assumes b: "live w b" "unat p < length (conns w b)"
    and new: "om_find (conn_sources (conn w b (unat p))) (data_id (entry_data e)) = None"
    and run: "Broker_insert call b e p w = Inr (c, w')" and R: "\<And>b s u c v. call b e s u = Inr (c, v) \<Longrightarrow> remembers u v"
  shows "om_find (distances (conn_sources (conn w' b (unat p)))) (data_id (entry_data e)) = Some 0"
proof -
  let ?u = "acknowledged b e p w"
  let ?v = "Broker_setClock b (Clock_merge (Broker_clock w b) (entry_clock e)) w"
  have v: "live ?v b" "unat p < length (conns ?v b)"
    using b wiring_live [of ?v w b] wiring_length [of ?v w b] by simp_all
  then have u: "om_find (distances (conn_sources (conn ?u b (unat p)))) (data_id (entry_data e)) = Some 0"
    using new by (simp add: acknowledged_def Let_def conns_set_conn note_version_def om_update_def find_distances)
  have "forEach [0..<length (conns w b)] (forwarded call b e p) ?u = Inr w'"
    using run by (auto simp: Broker_insert_steps [OF b(2)] cashmere_errors)
  then have "remembers ?u w'"
  proof (rule forEach_invariant)
    fix i x y assume i: "i \<in> set [0..<length (conns w b)]" and x: "remembers ?u x"
      and step: "forwarded call b e p i x = Inr y"
    have "wiring x = wiring w" using x by (simp add: remembers_def)
    then have "i < length (conns x b)" using i wiring_length [of x w b] by simp
    then have "remembers x y"
      using step noting.connection_insert [where call = call, OF R]
      by (auto simp: forwarded_def remembers_def cashmere_errors split: if_splits)
    with x show "remembers ?u y" by (rule remembers_trans)
  qed (simp add: remembers_def)
  then show ?thesis using u b(2) by (simp add: remembers_def)
qed

section \<open>Theorems\<close>

text \<open>C35: A broker that passes on an entry of a device that the port has not announced takes itself for
  the journal of the device. The port through which the entry came notes the device at distance
  zero, which is the distance of the own journal; from then on the broker does not pass a payload
  of the device on or refuse it, but inserts it in the name of the device.\<close>

theorem foreign_entry_claimed:
  assumes "settled w" and "live w b" and "p \<noteq> 0" and "unat p < length (conns w b)"
    and "Connection_broker w (conn w b (unat p)) \<noteq> None"
    and "om_find (conn_sources (conn w b (unat p))) (data_id (entry_data e)) = None"
    and "BrokerBase_insert n b e p w = Inr (c, w')" and "c \<noteq> refused"
    and "data_id d = data_id (entry_data e)" and "data_id d \<noteq> 0"
  shows "BrokerBase_relay (Suc m) b d 0 w' = BrokerBase_insert m b
    \<lparr>entry_clock = Clock_tick (Broker_clock w' b) (data_id d), entry_data = d\<rparr> 0 w'"
proof -
  let ?i = "data_id (entry_data e)"
  obtain k where n: "n = Suc k" using assms(7) by (cases n) auto
  have noted: "om_find (distances (conn_sources (conn w' b (unat p)))) ?i = Some 0"
  proof (cases "b_kind (broker_at w b) = Hub")
    case True
    then have "Broker_insert (BrokerBase_insert k) b e p w = Inr (c, w')" using assms(7) n by simp
    then show ?thesis by (rule accepted_notes [OF assms(2,4,6)]) (rule noting.insert)
  next
    case False
    then obtain v where v: "BrokerBase_save b e w = (True, v)" "Broker_insert (BrokerBase_insert k) b e p v = Inr (c, w')"
      using assms(7,8) n by (auto simp: JournalBase_insert_def split: if_splits prod.splits)
    have "live v b" using wiring_live [OF wiring_save [OF v(1)]] assms(2) by simp
    moreover have "conns v b = conns w b" by (rule conns_save [OF v(1)])
    ultimately show ?thesis
      using accepted_notes [OF _ _ _ v(2)] noting.insert assms(4,6) by simp
  qed
  have net: "same_net w w'" using nets.insert [OF assms(7)] .
  then have wires: "wiring w' = wiring w" by (simp add: same_net_def)
  have w': "settled w'" "live w' b" using same_net_settled [OF net assms(1)] wiring_live [OF wires] assms(2) by simp_all
  obtain info where info: "om_find (conn_sources (conn w' b (unat p))) ?i = Some info" "info_distance info = 0"
    using noted by (auto simp: find_distances)
  then have "listing w' b 0 p ?i = Some info"
    using listing_cases [OF w'] assms(3-5) wiring_length [OF wires, of b] wiring_Connection_broker(1) [OF wires [symmetric] assms(4)]
    by simp
  then have "(0, p) \<in> set (routes ?i (advertised (BrokerBase_sources w' b 0) 0))"
    using in_routes [OF w'] info(2) by force
  then have "0 \<in> fst ` set (routes ?i (advertised (BrokerBase_sources w' b 0) 0))" by force
  then show ?thesis using assms(9,10) by (simp add: JournalBase_relay_def Broker_relay_routes)
qed

theorem foreign_entry_claimed_witness:
  "\<exists>w'. BrokerBase_insert 1 1 (Entry_of (Clock_init [(9, 1)]) 9 5 om_empty) 1 hub_pair = Inr (Clock_init [(9, 1)], w') \<and>
     BrokerBase_relay 1 1 (Data_of 9 6 om_empty) 0 hub_pair = Inr (refused, hub_pair) \<and>
     BrokerBase_relay 2 1 (Data_of 9 6 om_empty) 0 w' = BrokerBase_insert 1 1
       \<lparr>entry_clock = Clock_tick (Broker_clock w' 1) 9, entry_data = Data_of 9 6 om_empty\<rparr> 0 w'"
proof -
  let ?e = "Entry_of (Clock_init [(9, 1)]) 9 5 om_empty" and ?d = "Data_of 9 6 om_empty"
  have "wired hub_pair" by (simp add: eval_simps sample_simps hub_pair_def)
  then have "settled hub_pair"
    by (simp add: settled_def) (simp add: eval_simps sample_simps hub_pair_def registered_def named_back_def)
  moreover obtain w' where run: "BrokerBase_insert 1 1 ?e 1 hub_pair = Inr (Clock_init [(9, 1)], w')"
    unfolding One_nat_def by (simp add: eval_simps sample_simps hub_pair_def Let_def)
  moreover have refuses: "BrokerBase_relay 1 1 ?d 0 hub_pair = Inr (refused, hub_pair)"
    unfolding One_nat_def by (simp add: eval_simps sample_simps hub_pair_def Let_def)
  moreover have "Clock_init [(9, 1)] \<noteq> refused" "live hub_pair 1" "unat (1 :: source) < length (conns hub_pair 1)"
    "Connection_broker hub_pair (conn hub_pair 1 (unat (1 :: source))) \<noteq> None"
    "om_find (conn_sources (conn hub_pair 1 (unat (1 :: source)))) (data_id (entry_data ?e)) = None"
    by (simp_all add: eval_simps sample_simps hub_pair_def)
  moreover have "(1 :: source) \<noteq> 0" "data_id ?d = data_id (entry_data ?e)" "data_id ?d \<noteq> 0" by simp_all
  ultimately have "BrokerBase_relay (Suc 1) 1 ?d 0 w' = BrokerBase_insert 1 1
      \<lparr>entry_clock = Clock_tick (Broker_clock w' 1) (data_id ?d), entry_data = ?d\<rparr> 0 w'"
    using foreign_entry_claimed by blast
  then have "BrokerBase_relay 2 1 ?d 0 w' = BrokerBase_insert 1 1
      \<lparr>entry_clock = Clock_tick (Broker_clock w' 1) 9, entry_data = ?d\<rparr> 0 w'"
    unfolding Suc_1 by (simp del: BrokerBase_relay.simps BrokerBase_insert.simps One_nat_def)
  then show ?thesis using run refuses by blast
qed

end
