(* ===== verification/Lifecycle.thy ===== *)
theory Lifecycle
  imports Trees Steady
begin

text \<open>
  The life of a network. Brokers without entries are connected along a forest, then payloads are
  relayed, from any broker, to the journals of their devices. Together with the broadcast of the
  entries this makes the network one shared log: \<open>relay\<close> appends to it the payloads whose journal
  is in the network and refuses the others.
\<close>

section \<open>A journal is known along the walks from it\<close>

lemma journal_behind:
  assumes w: "settled w" and z: "live w z" "b_kind (broker_at w z) \<noteq> Hub" "b_id (broker_at w z) = i"
  shows "walks w (z, 0) e \<Longrightarrow> k < length (conns w (fst e)) \<Longrightarrow> k \<noteq> unat (snd e) \<Longrightarrow> offered w i (fst e) (of_nat k)"
proof (induction arbitrary: k rule: rtranclp_induct)
  case base
  then show ?case using z(2,3) by (simp add: offered.own)
next
  case (step f e)
  obtain x r y s where f: "f = (x, r)" and e: "e = (y, s)" by fastforce
  have x: "live w x" using walks_live [OF step.hyps(1)] z(1) f by simp
  obtain l where l: "l < length (conns w x)" "l \<noteq> unat r" "live w y" "unat s < length (conns w y)"
    "Connection_broker w (conn w y (unat s)) = Some x" "conn_source (conn w y (unat s)) = of_nat l"
    by (rule hop_back [OF w x step.hyps(2) [unfolded f e]]) blast
  have "unat (of_nat k :: source) = k"
    using step.prems(1) settled_live(2) [OF w l(3)] e by (intro unat_port) simp
  moreover have "offered w i x (of_nat l)" using step.IH l(1,2) f by simp
  ultimately show ?case using offered.via [OF l(4) _ l(5)] step.prems(2) l(6) e by simp
qed

lemma journal_known:
  assumes w: "settled w" "informed w" and z: "live w z" "b_kind (broker_at w z) \<noteq> Hub" "b_id (broker_at w z) = i"
  shows "known_from w i (z, 0)"
  unfolding known_from_def
proof (intro allI impI)
  fix e assume walk: "walks w (z, 0) e" and len: "unat (snd e) < length (conns w (fst e))"
  have wired: "wired w" using w(1) by (simp add: settled_iff)
  from walk show "knows w i e"
  proof (cases rule: rtranclp.cases)
    case rtrancl_refl
    have "conn_broker (conn w z 0) = None"
      using wired_conn(1) [OF wired z(1), of 0] wired_live(1) [OF wired z(1)] by (cases "conn_broker (conn w z 0)") auto
    then show ?thesis using rtrancl_refl by (auto simp: knows_def Connection_broker_def)
  next
    case (rtrancl_into_rtrancl f)
    obtain x r y s where f: "f = (x, r)" and e: "e = (y, s)" by fastforce
    have x: "live w x" using walks_live [OF rtrancl_into_rtrancl(1)] z(1) f by simp
    obtain l where l: "l < length (conns w x)" "l \<noteq> unat r" "live w y" "unat s < length (conns w y)"
      "Connection_broker w (conn w y (unat s)) = Some x" "conn_source (conn w y (unat s)) = of_nat l"
      by (rule hop_back [OF w(1) x rtrancl_into_rtrancl(2) [unfolded f e]]) blast
    have "offered w i x (of_nat l)"
      using journal_behind [OF w(1) z rtrancl_into_rtrancl(1), of l] l(1,2) f by simp
    then have "om_find (offer w x (of_nat l)) i \<noteq> None"
      using offered_listed [OF w _ x] find_offer(1) [of w x "of_nat l" i] by fastforce
    then have "om_find (conn_sources (conn w y (unat s))) i \<noteq> None"
      using told_listed [OF w(2) l(3,4,5), of i] l(6) by auto
    then show ?thesis using e by (simp add: knows_def)
  qed
qed

lemma journal_insert_informs:
  assumes w: "settled w" "informed w" and z: "live w z" "b_kind (broker_at w z) \<noteq> Hub"
    and e: "data_id (entry_data e) = b_id (broker_at w z)" and run: "BrokerBase_insert n z e 0 w = Inr (c, w')"
  shows "informed w'"
proof (rule same_routes_informed [OF w])
  have wired: "wired w" using w(1) by (simp add: settled_iff)
  have "unat (0 :: source) < length (conns w z)" using wired_live(1) [OF wired z(1)] by simp
  then show "same_routes w w'"
    using insert_routes [OF wired z(1) _ _ run] journal_known [OF w z e [symmetric]] by simp
qed

section \<open>Relaying to a log\<close>

text \<open>A payload without a device gets that of the journal at which it is relayed.\<close>

definition addressed :: "world \<Rightarrow> addr \<Rightarrow> data \<Rightarrow> data" where
  "addressed w a d =
     (if data_id d = 0 \<and> b_kind (broker_at w a) \<noteq> Hub then d\<lparr>data_id := b_id (broker_at w a)\<rparr> else d)"

definition has_journal :: "world \<Rightarrow> ident \<Rightarrow> bool" where
  "has_journal w i \<longleftrightarrow> list_ex (\<lambda>(_, b). b_kind b \<noteq> Hub \<and> b_id b = i) (entries (w_brokers w))"

definition log_relay :: "world \<Rightarrow> addr \<times> data \<Rightarrow> clock \<times> (clock, data) omap \<Rightarrow> clock \<times> (clock, data) omap" where
  "log_relay w = (\<lambda>(a, d) log.
     if has_journal w (data_id (addressed w a d)) then log_append (addressed w a d) log else log)"

definition relays :: "nat \<Rightarrow> (addr \<times> data) list \<Rightarrow> world \<Rightarrow> world outcome" where
  "relays n ops =
     forEach ops (\<lambda>(a, d) w. andThen (BrokerBase_relay n a d 0 w) (\<lambda>(_, w). Inr w))"

lemma has_journal_live:
  "has_journal w i \<longleftrightarrow> (\<exists>z. live w z \<and> b_kind (broker_at w z) \<noteq> Hub \<and> b_id (broker_at w z) = i)"
  using broker_at_entries [of _ _ w] by (fastforce simp: has_journal_def list_ex_iff live_entries)


lemma log_relay_same:
  assumes same: "\<And>z. live w' z = live w z" "\<And>z. b_kind (broker_at w' z) = b_kind (broker_at w z)"
    "\<And>z. b_id (broker_at w' z) = b_id (broker_at w z)"
  shows "has_journal w' i = has_journal w i" and "log_relay w' = log_relay w"
proof -
  show journals: "has_journal w' i = has_journal w i" for i by (simp add: has_journal_live same)
  show "log_relay w' = log_relay w"
    unfolding log_relay_def journals addressed_def same by (rule refl)
qed

lemma log_relay_wiring:
  assumes "wiring w' = wiring w"
  shows "has_journal w' i = has_journal w i" and "log_relay w' = log_relay w"
  using log_relay_same [of w' w] wiring_live [OF assms] wiring_kind [OF assms] wiring_frame [OF assms]
  by (simp_all add: frame_def)

lemma relay_addressed: "BrokerBase_relay n a d 0 w = BrokerBase_relay n a (addressed w a d) 0 w"
  by (cases n) (auto simp: addressed_def JournalBase_relay_def)

lemma relay_nowhere:
  assumes w: "settled w" "informed w" and a: "live w a" "b_kind (broker_at w a) = Hub"
    and enough: "bounded n w a 0" "n < 2 ^ 15" and none: "\<not> has_journal w (data_id d)"
  shows "BrokerBase_relay (Suc m) a d 0 w = Inr (refused, w)"
proof -
  have "\<not> offered w (data_id d) a 0"
    using none reachable_live [of w a] w(1) a(1)
    by (auto simp: offered_iff [OF w(1) a(1)] has_journal_live settled_iff)
  then have "routes (data_id d) (advertised (BrokerBase_sources w a 0) 0) = []"
    using listed_offered [OF w enough a(1)] in_routes [OF w(1) a(1), of _ "data_id d" 0]
    by (metis list.set_intros(1) neq_Nil_conv)
  then show ?thesis using a(2) by (simp add: Broker_relay_routes)
qed

definition relayable :: "world \<Rightarrow> bool" where
  "relayable w \<longleftrightarrow> settled w \<and> informed w \<and> connected w \<and> finite_walks w \<and> population w < 2 ^ 15 \<and> \<not> has_journal w 0"

lemma relay_logs:
  assumes w: "relayable w" and agree: "agree c es w" and log: "room c (Suc m)" "covered c es" and a: "live w a"
  shows "\<exists>r w'. BrokerBase_relay (2 * population w) a d 0 w = Inr (r, w') \<and> relayable w' \<and> wiring w' = wiring w \<and>
    agree (fst (log_relay w (a, d) (c, es))) (snd (log_relay w (a, d) (c, es))) w'"
proof -
  define e where "e = addressed w a d"
  let ?n = "population w" and ?i = "data_id e"
  have parts: "settled w" "informed w" "connected w" "finite_walks w" "?n < 2 ^ 15" "\<not> has_journal w 0" "wired w"
    using w by (simp_all add: relayable_def settled_iff)
  have walks: "bounded ?n w x j" if "live w x" for x j
    using parts(4) that finite_walks_live [OF parts(1)] by blast
  have run: "BrokerBase_relay (2 * ?n) a d 0 w = BrokerBase_relay (?n + ?n) a e 0 w"
    using relay_addressed by (simp add: e_def mult_2)
  show ?thesis
  proof (cases "has_journal w ?i")
    case True
    then obtain z where z: "live w z" "b_kind (broker_at w z) \<noteq> Hub" "b_id (broker_at w z) = ?i"
      by (auto simp: has_journal_live)
    have "offered w ?i a 0"
      using z parts(3) a unfolding offered_iff [OF parts(1) a] connected_def by blast
    moreover have "?i \<noteq> 0" using True parts(6) by metis
    ultimately obtain y k where y: "?n \<le> k" "live w y" "b_kind (broker_at w y) \<noteq> Hub" "b_id (broker_at w y) = ?i"
      and relay: "BrokerBase_relay (?n + ?n) a e 0 w = BrokerBase_insert k y
        \<lparr>entry_clock = Clock_tick (Broker_clock w y) ?i, entry_data = e\<rparr> 0 w"
      using relay_follows [where d = e and m = ?n and j = 0, OF parts(1,2) _ walks [OF a] parts(5) a] by auto
    have "bounded k w y 0" using bounded_add [OF walks [OF y(2)], of "k - ?n"] y(1) by simp
    then obtain w' where w': "BrokerBase_append k y e w = Inr (Clock_valid (Clock_tick c ?i), w')" "wiring w' = wiring w"
      "agree (fst (log_append e (c, es))) (snd (log_append e (c, es))) w'"
      using append_agree [OF parts(7,3) agree log y(2)] by blast
    then obtain r where insert: "BrokerBase_insert k y \<lparr>entry_clock = Clock_tick (Broker_clock w y) ?i, entry_data = e\<rparr> 0 w
        = Inr (r, w')"
      by (auto simp: BrokerBase_append_def cashmere_errors)
    have "informed w'" using journal_insert_informs [OF parts(1,2) y(2,3) _ insert] y(4) by simp
    moreover have "same_net w w'" by (rule nets.insert [OF insert])
    then have "settled w'" by (rule same_net_settled [OF _ parts(1)])
    ultimately have "relayable w'"
      using w w'(2) wiring_connected [OF w'(2) [symmetric]] wiring_finite_walks [OF w'(2) parts(1)] wiring_live [OF w'(2)]
      by (simp add: relayable_def population_live log_relay_wiring [OF w'(2)])
    then show ?thesis
      using True w'(2,3) by (auto simp: run relay insert log_relay_def simp flip: e_def)
  next
    case False
    obtain k where k: "?n = Suc k" using walks [OF a] by (cases ?n) auto
    have "BrokerBase_relay (?n + ?n) a e 0 w = Inr (refused, w)"
    proof (cases "b_kind (broker_at w a) = Hub")
      case True
      show ?thesis unfolding k add_Suc
        by (rule relay_nowhere [OF parts(1,2) a True walks [OF a] parts(5) False])
    next
      case journal: False
      then have "?i \<noteq> 0" using parts(6) a by (auto simp: e_def addressed_def has_journal_live)
      moreover have "\<not> offered w ?i a 0"
        using False reachable_live [OF parts(7) a] unfolding offered_iff [OF parts(1) a] has_journal_live by blast
      ultimately show ?thesis using relay_follows [where d = e and m = ?n and j = 0, OF parts(1,2) _ walks [OF a] parts(5) a] by simp
    qed
    then show ?thesis using w agree False by (auto simp: run log_relay_def simp flip: e_def)
  qed
qed


lemma log_relay_room:
  assumes "room c (Suc m)" and "covered c es" and "log_relay w op (c, es) = (c', es')"
  shows "room c' m" and "covered c' es'"
proof -
  have "room c m" using assms(1) by (auto simp: room_def list_all_iff)
  then show "room c' m" and "covered c' es'"
    using assms room_tick(1) [OF assms(1)] covered_append [OF assms(1,2)]
    by (auto simp: log_relay_def log_append_def split: prod.splits if_splits)
qed

lemma relays_log:
  assumes "relayable w" and "agree c es w" and "room c (length ops)" and "covered c es"
    and "list_all (\<lambda>(a, _). live w a) ops"
  shows "\<exists>w'. relays (2 * population w) ops w = Inr w' \<and> relayable w' \<and> wiring w' = wiring w \<and>
    agree (fst (fold (log_relay w) ops (c, es))) (snd (fold (log_relay w) ops (c, es))) w'"
  using assms
proof (induction ops arbitrary: w c es)
  case Nil
  then show ?case by (simp add: relays_def)
next
  case (Cons op ops)
  obtain a d where op: "op = (a, d)" by (cases op)
  obtain c1 es1 where log: "log_relay w op (c, es) = (c1, es1)" by fastforce
  have room: "room c (Suc (length ops))" using Cons.prems(3) by simp
  obtain r w1 where w1: "BrokerBase_relay (2 * population w) a d 0 w = Inr (r, w1)" "relayable w1"
    "wiring w1 = wiring w" "agree c1 es1 w1"
    using relay_logs [OF Cons.prems(1,2) room Cons.prems(4), of a d] Cons.prems(5) log by (auto simp: op)
  note later = log_relay_room [OF room Cons.prems(4) log]
  have same: "population w1 = population w" "log_relay w1 = log_relay w"
    using wiring_live [OF w1(3)] log_relay_wiring(2) [OF w1(3)] by (simp_all add: population_live)
  obtain w' where "relays (2 * population w) ops w1 = Inr w'" "relayable w'" "wiring w' = wiring w1"
    "agree (fst (fold (log_relay w) ops (c1, es1))) (snd (fold (log_relay w) ops (c1, es1))) w'"
    using Cons.IH [OF w1(2,4) later] Cons.prems(5) wiring_live [OF w1(3)] same by auto
  then show ?case using w1(1,3) log by (simp add: relays_def op)
qed

section \<open>Theorems\<close>

text \<open>C4: A network with right routes implements one shared log under \<open>relay\<close>. Relaying payloads at any
  brokers of a connected, agreeing network without circles always returns; a payload whose device
  has its journal in the network is appended to the log, any other is refused, and afterwards the
  network agrees on the clock and the entries of the log, its connections are the same, and the
  routes are right again. A payload without a device that is relayed at a journal is one of that
  journal.\<close>

theorem relays_refine_log:
  assumes "settled w" and "informed w" and "connected w" and "finite_walks w"
    and "population w < 2 ^ 15" and "\<not> has_journal w 0"
    and "agree c es w" and "room c (length ops)" and "covered c es" and "list_all (\<lambda>(a, _). live w a) ops"
  shows "\<exists>w'. relays (2 * population w) ops w = Inr w' \<and> settled w' \<and> informed w' \<and> wiring w' = wiring w \<and>
    (let (c', es') = fold (log_relay w) ops (c, es) in agree c' es' w')"
proof -
  have "relayable w" using assms(1-6) by (simp add: relayable_def)
  from relays_log [OF this assms(7-10)] show ?thesis
    by (auto simp: relayable_def case_prod_unfold Let_def)
qed

theorem relays_refine_log_witness:
  "\<exists>w'. relays 6 [(0, Data_of 2 7 om_empty), (1, Data_of 9 3 om_empty)] signposts = Inr w' \<and> informed w' \<and>
     agree (Clock_init [(1, 1), (2, 1)])
       (om_init [(trio_clock, Data_of 1 10 om_empty), (Clock_init [(1, 1), (2, 1)], Data_of 2 7 om_empty)]) w'"
proof -
  let ?ops = "[(0, Data_of 2 7 om_empty), (1, Data_of 9 3 om_empty)]"
  have wires: "wiring signposts = wiring trio" by (simp add: signposts_def ends_def)
  have "population signposts = 3" "\<not> has_journal signposts 0" "agree trio_clock trio_entries signposts"
    "list_all (\<lambda>(a, _). live signposts a) ?ops"
    by (simp_all add: population_def has_journal_def eval_simps sample_simps signposts_def)
  moreover have "finite_walks signposts"
    by (simp add: finite_walks_def population_def eval_simps sample_simps signposts_def numeral_3_eq_3)
  moreover have "fold (log_relay signposts) ?ops (trio_clock, trio_entries) = (Clock_init [(1, 1), (2, 1)],
      om_init [(trio_clock, Data_of 1 10 om_empty), (Clock_init [(1, 1), (2, 1)], Data_of 2 7 om_empty)])"
    by (simp add: log_relay_def addressed_def has_journal_def log_append_def eval_simps sample_simps signposts_def)
  moreover have "room trio_clock (length ?ops)" by (simp add: eval_simps sample_simps)
  ultimately show ?thesis
    using relays_refine_log [OF signposts_settled signposts_informed
        wiring_connected [OF wires [symmetric] trio_connected], of trio_clock trio_entries ?ops] trio_log(2) by auto
qed

text \<open>Links that leave one part.\<close>

definition spans :: "(addr \<times> addr) list \<Rightarrow> world \<Rightarrow> bool" where
  "spans links w \<longleftrightarrow> (let part = fold (\<lambda>(a, b). link a b) links id in
     list_all (\<lambda>(a, _). list_all (\<lambda>(b, _). part a = part b) (entries (w_brokers w))) (entries (w_brokers w)))"

lemma spans_live:
  "spans links w \<longleftrightarrow> (\<forall>a b. live w a \<longrightarrow> live w b \<longrightarrow>
     fold (\<lambda>(a, b). link a b) links id a = fold (\<lambda>(a, b). link a b) links id b)"
  unfolding spans_def Let_def list_all_iff live_entries by fast

lemma same_state_logs:
  assumes "same_state w v" and "\<And>x. live v x = live w x"
  shows "has_journal v i = has_journal w i" and "log_relay v = log_relay w"
proof -
  have "b_kind (broker_at v z) = b_kind (broker_at w z) \<and> b_id (broker_at v z) = b_id (broker_at w z)" for z
  proof (cases "live w z")
    case False
    then have "broker_at v z = broker_at w z" using assms(2) [of z] by (simp add: broker_at_def live_def)
    then show ?thesis by simp
  qed (use assms(1) in \<open>simp add: same_state_def frame_def\<close>)
  then show "has_journal v i = has_journal w i" and "log_relay v = log_relay w"
    using log_relay_same [of v w] assms(2) by simp_all
qed

text \<open>C2: A network from scratch. Brokers without entries and connections are connected pair by pair, so
  that no link closes a circle and all end up in one part; then any payloads are relayed at any
  brokers. Every call returns, and at the end all clocks and the entries of all caches are those of
  one log, to which the payloads were appended whose device has its journal in the network. Fewer
  than 32768 brokers, which is what distances can count, and room in the counters are all that
  is needed; no journal may have the identifier 0.\<close>

theorem network_from_scratch:
  assumes "settled w" and "unused w" and "unlinked w" and "population w < 2 ^ 15" and "\<not> has_journal w 0"
    and "list_all (\<lambda>(a, b). live w a \<and> live w b) links" and "forest links id" and "spans links w"
    and "length links < 2 ^ 31" and "length ops < 2 ^ 64" and "list_all (\<lambda>(a, _). live w a) ops"
  shows "\<exists>v w'. connect_all (Suc (population w)) links w = Inr v \<and>
    relays (2 * population w) ops v = Inr w' \<and>
    (let (c, es) = fold (log_relay w) ops (om_empty, om_empty) in agree c es w')"
proof -
  let ?part = "fold (\<lambda>(a, b). link a b) links id"
  have front: "length (conns w x) = 1" if "live w x" for x
    using assms(3) that broker_at_entries [of x _ w] by (fastforce simp: unlinked_def list_all_iff live_entries)
  obtain v where v: "connect_all (Suc (population w)) links w = Inr v" "in_shape ?part v"
    and same: "same_state w v" "\<And>x. live v x = live w x" "population v = population w"
    using connect_all_shape [OF unlinked_shape [OF assms(1-3)] assms(7)] front assms(6,9)
    by (auto simp: list_all_iff)
  have shape: "settled v" "informed v" "unused v" "finite_walks v" "parted ?part v"
    using v(2) by (simp_all add: in_shape_def)
  have "connected v"
    using shape(5) assms(8) unfolding parted_def connected_def spans_live same(2) by blast
  moreover have "\<not> has_journal v 0" using assms(5) same_state_logs(1) [OF same(1,2)] by simp
  moreover have "agree om_empty om_empty v" using shape(3) by (simp add: agree_live unused_live holds_def)
  moreover have "room om_empty (length ops)" "covered om_empty om_empty"
    using assms(10) by (simp_all add: room_def covered_def)
  moreover have "list_all (\<lambda>(a, _). live v a) ops" using assms(11) same(2) by simp
  ultimately obtain w' where "relays (2 * population w) ops v = Inr w'"
    "agree (fst (fold (log_relay w) ops (om_empty, om_empty))) (snd (fold (log_relay w) ops (om_empty, om_empty))) w'"
    using relays_log [of v om_empty om_empty ops] shape assms(4) same(3) same_state_logs(2) [OF same(1,2)]
    by (auto simp: relayable_def)
  then show ?thesis using v(1) by (auto simp: case_prod_unfold Let_def)
qed

text \<open>Two caches and a hub on their own.\<close>

definition founders :: world where
  "founders = world_of
     [member Cache 1 om_empty [] om_empty, member Hub 3 om_empty [] om_empty, member Cache 2 om_empty [] om_empty]"

lemma founders_settled: "settled founders"
proof -
  have "wired founders" by (simp add: eval_simps sample_simps founders_def)
  then show ?thesis
    by (simp add: settled_def) (simp add: eval_simps sample_simps founders_def registered_def named_back_def)
qed

theorem network_from_scratch_witness:
  "\<exists>v w'. connect_all 4 [(0, 1), (2, 1)] founders = Inr v \<and>
     relays 6 [(0, Data_of 2 7 om_empty), (1, Data_of 9 3 om_empty), (2, Data_of 0 4 om_empty)] v = Inr w' \<and>
     agree (Clock_init [(2, 2)])
       (om_init [(Clock_init [(2, 1)], Data_of 2 7 om_empty), (Clock_init [(2, 2)], Data_of 2 4 om_empty)]) w'"
proof -
  let ?links = "[(0, 1), (2, 1)]"
  let ?ops = "[(0, Data_of 2 7 om_empty), (1, Data_of 9 3 om_empty), (2, Data_of 0 4 om_empty)]"
  have small: "population founders = 3" "unused founders" "unlinked founders" "\<not> has_journal founders 0"
    "list_all (\<lambda>(a, b). live founders a \<and> live founders b) ?links" "list_all (\<lambda>(a, _). live founders a) ?ops"
    by (simp_all add: population_def unused_def unlinked_def has_journal_def eval_simps sample_simps founders_def)
  have links: "forest ?links id" "spans ?links founders"
    by (simp_all add: spans_def link_def eval_simps sample_simps founders_def)
  have log: "fold (log_relay founders) ?ops (om_empty, om_empty) = (Clock_init [(2, 2)],
      om_init [(Clock_init [(2, 1)], Data_of 2 7 om_empty), (Clock_init [(2, 2)], Data_of 2 4 om_empty)])"
    by (simp add: log_relay_def addressed_def has_journal_def log_append_def eval_simps sample_simps founders_def)
  show ?thesis
    using network_from_scratch [OF founders_settled small(2,3) _ small(4,5) links _ _ small(6)] small(1) log by simp
qed

end
